(* ===== verification/Go_Prelude.thy ===== *)
theory Go_Prelude
  imports Main "HOL-Library.AList" "HOL-Library.Char_ord" "HOL-Library.List_Lexorder"
begin

section \<open>Prelude: what the packages use of the Go language\<close>

text \<open>
  Shared by every component: Go's outcome of a call (a value, an error, a run-time panic),
  64-bit two's complement \<open>int\<close> and \<open>time.Duration\<close> arithmetic, Go maps as
  association lists in an arbitrary iteration order, and the generic list lemmas the
  component proofs rest on.

  A Go \<open>string\<close> and a Go \<open>[]byte\<close> are both the HOL type \<open>string\<close>: an Isabelle
  \<open>char\<close> is exactly one byte, so \<open>length\<close> is Go's \<open>len\<close>, and the lexicographic
  order of \<open>List_Lexorder\<close> over \<open>Char_ord\<close> is Go's \<open><\<close> on strings.
\<close>

named_theorems go_int \<open>facts that remove the wrap-around of 64-bit arithmetic\<close>
named_theorems go_map \<open>the contract of Go maps\<close>

subsection \<open>Outcome of a call\<close>

text \<open>
  A Go call that can fail returns a value and an error; it can also panic (an index out of
  range, an explicit \<open>panic\<close>).
\<close>

datatype ('e, 'a) gores = Ok 'a | Err 'e | Panic

primrec is_Ok :: "('e, 'a) gores \<Rightarrow> bool" where
  "is_Ok (Ok a) = True"
| "is_Ok (Err e) = False"
| "is_Ok Panic = False"

text \<open>Early return on an error or a panic, continue with the value otherwise.\<close>

primrec gobind :: "('e, 'a) gores \<Rightarrow> ('a \<Rightarrow> ('e, 'b) gores) \<Rightarrow> ('e, 'b) gores" where
  "gobind (Ok a) f = f a"
| "gobind (Err e) f = Err e"
| "gobind Panic f = Panic"

lemma gobind_Ok_iff [simp]: "gobind m f = Ok b \<longleftrightarrow> (\<exists>a. m = Ok a \<and> f a = Ok b)"
  by (cases m) auto

lemma gobind_Panic_iff: "gobind m f = Panic \<longleftrightarrow> m = Panic \<or> (\<exists>a. m = Ok a \<and> f a = Panic)"
  by (cases m) auto

lemma gobind_Err_iff: "gobind m f = Err e \<longleftrightarrow> m = Err e \<or> (\<exists>a. m = Ok a \<and> f a = Err e)"
  by (cases m) auto

lemma gobind_assoc: "gobind (gobind m f) g = gobind m (\<lambda>x. gobind (f x) g)"
  by (cases m) auto

text \<open>The same with a state, which an early return keeps.\<close>

definition go_ret :: "'a \<Rightarrow> 's \<Rightarrow> ('e, 'a) gores \<times> 's" where
  "go_ret a s = (Ok a, s)"

definition go_bind :: "('s \<Rightarrow> ('e, 'a) gores \<times> 's) \<Rightarrow> ('a \<Rightarrow> 's \<Rightarrow> ('e, 'b) gores \<times> 's)
    \<Rightarrow> 's \<Rightarrow> ('e, 'b) gores \<times> 's" where
  "go_bind m f s = (case m s of (Ok a, s') \<Rightarrow> f a s' | (Err e, s') \<Rightarrow> (Err e, s') | (Panic, s') \<Rightarrow> (Panic, s'))"

lemma go_bind_Ok: "go_bind m f s = (Ok b, s'') \<longleftrightarrow> (\<exists>a s'. m s = (Ok a, s') \<and> f a s' = (Ok b, s''))"
  by (auto simp: go_bind_def split: prod.splits gores.splits)

lemma go_ret_Ok [simp]: "go_ret a s = (Ok b, s') \<longleftrightarrow> b = a \<and> s' = s"
  by (auto simp: go_ret_def)

subsection \<open>64-bit integers\<close>

text \<open>Go's \<open>int\<close>, \<open>int64\<close> and \<open>time.Duration\<close> on a 64-bit target.\<close>

definition MaxInt64 :: int where
  "MaxInt64 = 9223372036854775807"

definition MinInt64 :: int where
  "MinInt64 = - 9223372036854775808"

definition int64 :: "int \<Rightarrow> bool" where
  "int64 x \<longleftrightarrow> MinInt64 \<le> x \<and> x \<le> MaxInt64"

definition wrap64 :: "int \<Rightarrow> int" where
  "wrap64 x = (x + 9223372036854775808) mod 18446744073709551616 - 9223372036854775808"

lemma wrap64_int64 [simp]: "int64 (wrap64 x)"
proof -
  have "0 \<le> (x + 9223372036854775808) mod 18446744073709551616"
    and "(x + 9223372036854775808) mod 18446744073709551616 < 18446744073709551616"
    by simp_all
  then show ?thesis by (simp add: int64_def wrap64_def MinInt64_def MaxInt64_def)
qed

lemma wrap64_id [go_int]: "int64 x \<Longrightarrow> wrap64 x = x"
  by (simp add: int64_def wrap64_def MinInt64_def MaxInt64_def)

lemma wrap64_idem [simp]: "wrap64 (wrap64 x) = wrap64 x"
  by (simp add: wrap64_id)

text \<open>One overflow past the top lands in the negative half.\<close>

lemma wrap64_over:
  assumes "MaxInt64 < x" and "x \<le> 2 * MaxInt64 + 1"
  shows "wrap64 x = x - 18446744073709551616" and "wrap64 x < 0"
proof -
  have "(x + 9223372036854775808) mod 18446744073709551616
      = (x + 9223372036854775808 - 18446744073709551616) mod 18446744073709551616"
    by (metis minus_mod_self2)
  also have "\<dots> = x + 9223372036854775808 - 18446744073709551616"
    using assms by (intro mod_pos_pos_trivial) (simp_all add: MaxInt64_def)
  finally show "wrap64 x = x - 18446744073709551616" by (simp add: wrap64_def)
  then show "wrap64 x < 0" using assms by (simp add: MaxInt64_def)
qed

text \<open>Go's integer division truncates towards zero.\<close>

definition go_div :: "int \<Rightarrow> int \<Rightarrow> int" where
  "go_div a b = (if 0 \<le> a then a div b else - ((- a) div b))"

lemma go_div_nonneg: "0 \<le> a \<Longrightarrow> go_div a b = a div b"
  by (simp add: go_div_def)

subsection \<open>Go maps\<close>

text \<open>
  A Go map is an association list with distinct keys; the position of an entry is the place
  it has in one iteration of \<open>range\<close>, which Go leaves open. Writing to a key keeps the
  place of an entry that exists, and \<open>delete\<close> of a missing key does nothing.
\<close>

type_synonym ('k, 'v) gomap = "('k \<times> 'v) list"

definition map_wf :: "('k, 'v) gomap \<Rightarrow> bool" where
  "map_wf m \<longleftrightarrow> distinct (map fst m)"

definition map_set :: "'k \<Rightarrow> 'v \<Rightarrow> ('k, 'v) gomap \<Rightarrow> ('k, 'v) gomap" where
  "map_set k v m = AList.update k v m"

definition map_del :: "'k \<Rightarrow> ('k, 'v) gomap \<Rightarrow> ('k, 'v) gomap" where
  "map_del k m = AList.delete k m"

definition map_get :: "('k, 'v) gomap \<Rightarrow> 'k \<Rightarrow> 'v option" where
  "map_get m k = map_of m k"

definition map_keys :: "('k, 'v) gomap \<Rightarrow> 'k list" where
  "map_keys m = map fst m"

text \<open>
  The contract the packages rely on when they use a map. Clients see the map through
  \<open>get\<close> and through the keys that \<open>range\<close> visits, each exactly once.
\<close>

locale go_map_contract =
  fixes mk :: "'m"
    and set_at :: "'k \<Rightarrow> 'v \<Rightarrow> 'm \<Rightarrow> 'm"
    and del_at :: "'k \<Rightarrow> 'm \<Rightarrow> 'm"
    and get_at :: "'m \<Rightarrow> 'k \<Rightarrow> 'v option"
    and range_keys :: "'m \<Rightarrow> 'k list"
    and wf :: "'m \<Rightarrow> bool"
  assumes wf_mk: "wf mk"
    and wf_set: "wf m \<Longrightarrow> wf (set_at k v m)"
    and wf_del: "wf m \<Longrightarrow> wf (del_at k m)"
    and get_mk: "get_at mk k = None"
    and get_set: "get_at (set_at k v m) k' = (if k' = k then Some v else get_at m k')"
    and get_del: "get_at (del_at k m) k' = (if k' = k then None else get_at m k')"
    and range_distinct: "wf m \<Longrightarrow> distinct (range_keys m)"
    and range_dom: "set (range_keys m) = dom (get_at m)"
begin

definition set_all :: "'v \<Rightarrow> 'k list \<Rightarrow> 'm \<Rightarrow> 'm" where
  "set_all v ks m = fold (\<lambda>k. set_at k v) ks m"

definition del_all :: "'k list \<Rightarrow> 'm \<Rightarrow> 'm" where
  "del_all ks m = fold del_at ks m"

lemma wf_set_all: "wf m \<Longrightarrow> wf (set_all v ks m)"
  unfolding set_all_def by (induction ks arbitrary: m) (auto intro: wf_set)

lemma wf_del_all: "wf m \<Longrightarrow> wf (del_all ks m)"
  unfolding del_all_def by (induction ks arbitrary: m) (auto intro: wf_del)

lemma get_set_all:
  "get_at (set_all v ks m) k = (if k \<in> set ks then Some v else get_at m k)"
  unfolding set_all_def by (induction ks arbitrary: m) (auto simp: get_set)

lemma get_del_all: "get_at (del_all ks m) k = (if k \<in> set ks then None else get_at m k)"
  unfolding del_all_def by (induction ks arbitrary: m) (auto simp: get_del)

lemma dom_set_all: "dom (get_at (set_all v ks m)) = set ks \<union> dom (get_at m)"
  by (auto simp: dom_def get_set_all)

lemma keys_set_all: "set (range_keys (set_all v ks m)) = set ks \<union> set (range_keys m)"
  by (simp add: range_dom dom_set_all)

lemma keys_del_all: "set (range_keys (del_all ks m)) = set (range_keys m) - set ks"
  by (auto simp: range_dom dom_def get_del_all split: if_splits)

lemma keys_set: "set (range_keys (set_at k v m)) = insert k (set (range_keys m))"
  by (auto simp: range_dom dom_def get_set)

lemma keys_del: "set (range_keys (del_at k m)) = set (range_keys m) - {k}"
  by (auto simp: range_dom dom_def get_del split: if_splits)

end

interpretation gm: go_map_contract "[]" map_set map_del map_get map_keys map_wf
proof unfold_locales
  fix m :: "('k, 'v) gomap" and k k' :: 'k and v :: 'v
  show "map_wf ([] :: ('k, 'v) gomap)" by (simp add: map_wf_def)
  show "map_wf m \<Longrightarrow> map_wf (map_set k v m)"
    by (simp add: map_wf_def map_set_def distinct_update)
  show "map_wf m \<Longrightarrow> map_wf (map_del k m)"
    by (simp add: map_wf_def map_del_def distinct_delete)
  show "map_get ([] :: ('k, 'v) gomap) k = None" by (simp add: map_get_def)
  show "map_get (map_set k v m) k' = (if k' = k then Some v else map_get m k')"
    by (simp add: map_get_def map_set_def update_conv)
  show "map_get (map_del k m) k' = (if k' = k then None else map_get m k')"
    by (simp add: map_get_def map_del_def delete_conv)
  show "map_wf m \<Longrightarrow> distinct (map_keys m)" by (simp add: map_wf_def map_keys_def)
  show "set (map_keys m) = dom (map_get m)"
    by (auto simp: map_keys_def map_get_def [abs_def] dom_map_of_conv_image_fst)
qed

lemmas map_facts [go_map] =
  gm.wf_mk gm.wf_set gm.wf_del gm.get_mk gm.get_set gm.get_del gm.range_distinct gm.keys_set
  gm.keys_del

lemma map_keys_Nil [simp]: "map_keys [] = []"
  by (simp add: map_keys_def)

lemma length_map_keys [simp]: "length (map_keys m) = length m"
  by (simp add: map_keys_def)

text \<open>A fold of writes under one value is the contract's \<open>set_all\<close>.\<close>

lemma fold_map_set: "fold (\<lambda>k. map_set k v) ks m = gm.set_all v ks m"
  by (simp add: gm.set_all_def)

lemma fold_map_del: "fold map_del ks m = gm.del_all ks m"
  by (simp add: gm.del_all_def)

subsection \<open>Lists\<close>

text \<open>Sorting forgets the order and, for distinct lists, depends on the set alone.\<close>

lemma sort_distinct_set:
  fixes xs ys :: "'a::linorder list"
  assumes "distinct xs" and "distinct ys" and "set xs = set ys"
  shows "sort xs = sort ys"
  using assms by (metis sorted_list_of_set_sort_remdups distinct_remdups_id)

lemma sort_distinct_sorted_list_of_set:
  fixes xs :: "'a::linorder list"
  shows "distinct xs \<Longrightarrow> sort xs = sorted_list_of_set (set xs)"
  by (metis sorted_list_of_set_sort_remdups distinct_remdups_id)

lemma sorted_distinct_nth_less:
  fixes xs :: "'a::linorder list"
  assumes "sorted xs" "distinct xs" "i < j" "j < length xs"
  shows "xs ! i < xs ! j"
  using assms by (metis less_le nat_less_le nth_eq_iff_index_eq order.strict_trans sorted_nth_mono)

lemma list_all_concat: "list_all P (concat xss) \<longleftrightarrow> list_all (list_all P) xss"
  by (induction xss) auto

subsection \<open>Updated lists\<close>

lemma length_filter_update:
  "n < length xs \<Longrightarrow> length (filter P (xs[n := y])) + of_bool (P (xs ! n))
    = length (filter P xs) + of_bool (P y)"
proof (induction xs arbitrary: n)
  case (Cons x xs)
  then show ?case by (cases n) (use Cons.IH [of "n - 1"] in auto)
qed simp

lemma ball_update: "\<forall>x \<in> set xs. P x \<Longrightarrow> P y \<Longrightarrow> \<forall>x \<in> set (xs[n := y]). P x"
  using set_update_subset_insert by fastforce

lemma map_update_same: "n < length xs \<Longrightarrow> f y = f (xs ! n) \<Longrightarrow> map f (xs[n := y]) = map f xs"
  by (metis list_update_id map_update)

subsection \<open>Invariants of step relations\<close>

lemma run_one: "step s s' \<Longrightarrow> P s' \<Longrightarrow> \<exists>s'. step\<^sup>*\<^sup>* s s' \<and> P s'"
  by blast

lemma run_more: "step s s1 \<Longrightarrow> \<exists>s'. step\<^sup>*\<^sup>* s1 s' \<and> P s' \<Longrightarrow> \<exists>s'. step\<^sup>*\<^sup>* s s' \<and> P s'"
  by (blast intro: converse_rtranclp_into_rtranclp)

text \<open>
  The interface between a component's step relation and what is proved of every run: an
  invariant that holds at the start and is kept by each step holds in every reachable state,
  and a relation every step respects connects the two ends of a run.
\<close>

locale step_system =
  fixes start :: "'s \<Rightarrow> bool" and step :: "'s \<Rightarrow> 's \<Rightarrow> bool" and Inv :: "'s \<Rightarrow> bool"
  assumes start_inv: "start s \<Longrightarrow> Inv s"
    and step_inv: "Inv s \<Longrightarrow> step s s' \<Longrightarrow> Inv s'"
begin

lemma run_inv: "step\<^sup>*\<^sup>* s s' \<Longrightarrow> Inv s \<Longrightarrow> Inv s'"
  by (induction rule: rtranclp_induct) (auto intro: step_inv)

lemma reach_inv: "start s0 \<Longrightarrow> step\<^sup>*\<^sup>* s0 s \<Longrightarrow> Inv s"
  by (rule run_inv [OF _ start_inv])

lemma run_rel:
  assumes "step\<^sup>*\<^sup>* s s'" "Inv s" "R s s" "\<And>a b. Inv a \<Longrightarrow> R s a \<Longrightarrow> step a b \<Longrightarrow> R s b"
  shows "R s s'"
proof -
  from assms(1) have "R s s' \<and> Inv s'"
    by (induction rule: rtranclp_induct) (use assms(2-4) step_inv in blast)+
  then show ?thesis ..
qed

end

text \<open>
  A detailed system whose steps, from states of its invariant, are runs of a coarser one seen through a
  view of its states: then its runs are, too.
\<close>

locale simulation = step_system start step Inv
  for start :: "'s \<Rightarrow> bool" and step :: "'s \<Rightarrow> 's \<Rightarrow> bool" and Inv :: "'s \<Rightarrow> bool" +
  fixes view :: "'s \<Rightarrow> 'a" and coarse :: "'a \<Rightarrow> 'a \<Rightarrow> bool"
  assumes sim_step: "Inv s \<Longrightarrow> step s s' \<Longrightarrow> coarse\<^sup>*\<^sup>* (view s) (view s')"
begin

lemma sim_run: "step\<^sup>*\<^sup>* s s' \<Longrightarrow> Inv s \<Longrightarrow> coarse\<^sup>*\<^sup>* (view s) (view s')"
proof (induction rule: rtranclp_induct)
  case (step t u)
  then show ?case using sim_step run_inv by (meson rtranclp_trans)
qed simp

end

end
