(* ===== verification/Kit_Collections.thy ===== *)
theory Kit_Collections
  imports Go_Prelude "HOL-Library.Multiset"
begin

section \<open>Slices, maps and the sorted set of package kit\<close>

text \<open>
  Models \<open>slices.go\<close>, \<open>maps.go\<close> and \<open>list.go\<close>. Loops over slices are recursions
  over lists, the local maps of the code are \<open>gomap\<close>s, and \<open>slices.Sort\<close> and
  \<open>sort.Strings\<close> on a totally ordered element type are \<open>sort\<close>. The shared backing
  arrays of sub-slices are not modelled.
\<close>

subsection \<open>maps.go\<close>

definition MapFromSlice :: "'a::linorder list \<Rightarrow> ('a, bool) gomap" where
  "MapFromSlice slice = fold (\<lambda>k data. map_set k True data) slice []"

definition MapKeys :: "('a::linorder, 'v) gomap \<Rightarrow> 'a list" where
  "MapKeys data = sort (map_keys data)"

definition MergeMapKeys :: "(string, 'v) gomap \<Rightarrow> (string, 'v) gomap list \<Rightarrow> string list" where
  "MergeMapKeys m adds =
     (let uniq = fold (\<lambda>k u. map_set k True u) (map_keys m) [];
          uniq = fold (\<lambda>add u. fold (\<lambda>k u. map_set k True u) (map_keys add) u) adds uniq
      in sort (map_keys uniq))"

subsection \<open>slices.go\<close>

fun uniq_loop :: "string list \<Rightarrow> (string, unit) gomap \<Rightarrow> string list \<Rightarrow> string list" where
  "uniq_loop [] uniq result = result"
| "uniq_loop (k # slice) uniq result =
     (if map_get uniq k = None
      then uniq_loop slice (map_set k () uniq) (result @ [k])
      else uniq_loop slice uniq result)"

definition Uniq :: "string list \<Rightarrow> string list" where
  "Uniq slice = uniq_loop slice [] []"

definition MergeSlices :: "'a::linorder list list \<Rightarrow> 'a list" where
  "MergeSlices slices =
     MapKeys (fold (\<lambda>slice uniq. fold (\<lambda>item u. map_set item () u) slice uniq) slices [])"

fun remove_loop :: "'a list \<Rightarrow> ('a, unit) gomap \<Rightarrow> 'a list \<Rightarrow> 'a list" where
  "remove_loop [] processed items = items"
| "remove_loop (item # base) processed items =
     (if map_get processed item = None
      then remove_loop base (map_set item () processed) (items @ [item])
      else remove_loop base processed items)"

definition RemoveFromSlice :: "'a list \<Rightarrow> 'a list \<Rightarrow> 'a list" where
  "RemoveFromSlice base toRemove =
     remove_loop base (fold (\<lambda>r p. map_set r () p) toRemove []) []"

text \<open>The loop of \<open>Chunk\<close> for a positive chunk size.\<close>

function chunk_loop :: "'a list \<Rightarrow> nat \<Rightarrow> 'a list list \<Rightarrow> 'a list list" where
  "chunk_loop items chunkSize chunks =
     (if 0 < chunkSize \<and> chunkSize < length items
      then chunk_loop (drop chunkSize items) chunkSize (chunks @ [take chunkSize items])
      else chunks @ [items])"
  by pat_completeness auto
termination
  by (relation "measure (\<lambda>(items, n, chunks). length items)") auto

declare chunk_loop.simps [simp del]

definition Chunk :: "'a list \<Rightarrow> int \<Rightarrow> 'a list list" where
  "Chunk items chunkSize =
     (if chunkSize \<le> 0 then [items] else chunk_loop items (nat chunkSize) [])"

text \<open>\<open>Reverse\<close> swaps \<open>slice[i]\<close> and \<open>slice[j]\<close> while \<open>i < j\<close>, in place.\<close>

function reverse_loop :: "'a list \<Rightarrow> int \<Rightarrow> int \<Rightarrow> 'a list" where
  "reverse_loop slice i j =
     (if i < j
      then reverse_loop (slice[nat i := slice ! nat j, nat j := slice ! nat i]) (i + 1) (j - 1)
      else slice)"
  by pat_completeness auto
termination
  by (relation "measure (\<lambda>(slice, i, j). nat (j - i))") auto

declare reverse_loop.simps [simp del]

definition Reverse :: "'a list \<Rightarrow> 'a list" where
  "Reverse slice = reverse_loop slice 0 (int (length slice) - 1)"

subsection \<open>list.go\<close>

text \<open>
  Every exported method that changes the set takes the mutex for the whole of its access, so
  one call of \<open>Add\<close> or \<open>Remove\<close> is one step on the map.
\<close>

record 'a kit_list =
  list_data :: "('a, unit) gomap"

definition NewList :: "'a kit_list" where
  "NewList = \<lparr>list_data = []\<rparr>"

definition list_Add :: "'a kit_list \<Rightarrow> 'a \<Rightarrow> 'a kit_list" where
  "list_Add l item =
     (if map_get (list_data l) item = None
      then l\<lparr>list_data := map_set item () (list_data l)\<rparr> else l)"

definition list_Remove :: "'a kit_list \<Rightarrow> 'a \<Rightarrow> 'a kit_list" where
  "list_Remove l item = l\<lparr>list_data := map_del item (list_data l)\<rparr>"

fun list_AddSlice :: "'a kit_list \<Rightarrow> 'a list \<Rightarrow> 'a kit_list" where
  "list_AddSlice l [] = l"
| "list_AddSlice l (k # dataslice) = list_AddSlice (list_Add l k) dataslice"

fun list_RemoveSlice :: "'a kit_list \<Rightarrow> 'a list \<Rightarrow> 'a kit_list" where
  "list_RemoveSlice l [] = l"
| "list_RemoveSlice l (k # dataslice) = list_RemoveSlice (list_Remove l k) dataslice"

definition list_AddMapKeys :: "'a kit_list \<Rightarrow> ('a, 'v) gomap \<Rightarrow> 'a kit_list" where
  "list_AddMapKeys l datamap = fold (\<lambda>k l. list_Add l k) (map_keys datamap) l"

definition NewListFrom :: "'a list \<Rightarrow> 'a kit_list" where
  "NewListFrom slice = list_AddSlice NewList slice"

definition list_Len :: "'a kit_list \<Rightarrow> nat" where
  "list_Len l = length (list_data l)"

definition list_Slice :: "'a::linorder kit_list \<Rightarrow> 'a list" where
  "list_Slice l = MapKeys (list_data l)"

subsection \<open>Lemmas: maps.go and slices.go\<close>

lemma MapKeys_set: "map_wf m \<Longrightarrow> MapKeys m = sorted_list_of_set (set (map_keys m))"
  by (simp add: MapKeys_def sort_distinct_sorted_list_of_set gm.range_distinct)

lemma MapFromSlice_get: "map_get (MapFromSlice xs) k = (if k \<in> set xs then Some True else None)"
  by (simp add: MapFromSlice_def fold_map_set gm.get_set_all gm.get_mk)

lemma fold_fold_concat: "fold (\<lambda>xs. fold f xs) xss s = fold f (concat xss) s"
  by (induction xss arbitrary: s) auto

lemma fold_keys_concat:
  "fold (\<lambda>add. fold f (map_keys add)) adds s = fold f (concat (map map_keys adds)) s"
  by (induction adds arbitrary: s) auto

lemma MergeMapKeys_eq:
  "MergeMapKeys m adds =
     sorted_list_of_set (set (map_keys m) \<union> (\<Union>add \<in> set adds. set (map_keys add)))"
proof -
  let ?ks = "map_keys m @ concat (map map_keys adds)"
  have "MergeMapKeys m adds = MapKeys (gm.set_all True ?ks [])"
    by (simp add: MergeMapKeys_def MapKeys_def fold_keys_concat gm.set_all_def)
  also have "\<dots> = sorted_list_of_set (set (map_keys (gm.set_all True ?ks [])))"
    by (rule MapKeys_set) (simp add: gm.wf_set_all gm.wf_mk)
  finally show ?thesis by (simp add: gm.keys_set_all)
qed

lemma MergeSlices_eq: "MergeSlices xss = sorted_list_of_set (set (concat xss))"
proof -
  have "MergeSlices xss = MapKeys (gm.set_all () (concat xss) [])"
    by (simp add: MergeSlices_def fold_fold_concat gm.set_all_def)
  also have "\<dots> = sorted_list_of_set (set (map_keys (gm.set_all () (concat xss) [])))"
    by (rule MapKeys_set) (simp add: gm.wf_set_all gm.wf_mk)
  finally show ?thesis by (simp add: gm.keys_set_all)
qed

text \<open>Both filtering loops keep the first copy of every element they have not seen.\<close>

fun first_new :: "'a list \<Rightarrow> 'a set \<Rightarrow> 'a list" where
  "first_new [] seen = []"
| "first_new (x # xs) seen =
     (if x \<in> seen then first_new xs seen else x # first_new xs (insert x seen))"

lemma map_get_None_keys: "map_get m k = None \<longleftrightarrow> k \<notin> set (map_keys m)"
  by (auto simp: gm.range_dom dom_def)

lemma remove_loop_first_new:
  "remove_loop base p items = items @ first_new base (set (map_keys p))"
  by (induction base arbitrary: p items) (simp_all add: map_get_None_keys gm.keys_set)

lemma uniq_loop_first_new:
  "uniq_loop xs u result = result @ first_new xs (set (map_keys u))"
  by (induction xs arbitrary: u result) (simp_all add: map_get_None_keys gm.keys_set)

lemma set_first_new: "set (first_new xs seen) = set xs - seen"
  by (induction xs seen rule: first_new.induct) auto

lemma distinct_first_new: "distinct (first_new xs seen)"
  by (induction xs seen rule: first_new.induct) (auto simp: set_first_new)

lemma first_new_Un: "first_new xs (s \<union> t) = filter (\<lambda>x. x \<notin> t) (first_new xs s)"
proof (induction xs arbitrary: s)
  case Nil
  then show ?case by simp
next
  case (Cons x xs)
  have "insert x s \<union> t = s \<union> t" if "x \<in> t" using that by blast
  then show ?case using Cons [of s] Cons [of "insert x s"] by auto
qed

lemma first_new_filter: "first_new xs seen = filter (\<lambda>x. x \<notin> seen) (first_new xs {})"
  using first_new_Un [of xs "{}" seen] by simp

text \<open>
  \<open>first_new xs {}\<close> is the library's \<open>remdups\<close> seen from the other end: the first
  copy stays instead of the last.
\<close>

lemma first_new_rev_remdups: "first_new xs {} = rev (remdups (rev xs))"
proof (induction xs rule: rev_induct)
  case Nil
  then show ?case by simp
next
  case (snoc x xs)
  have "first_new (xs @ [x]) s = first_new xs s @ (if x \<in> set xs \<union> s then [] else [x])" for s
    by (induction xs arbitrary: s) auto
  with snoc show ?case by simp
qed

lemma chunk_loop_prefix: "chunk_loop items n chunks = chunks @ chunk_loop items n []"
proof (induction "length items" arbitrary: items chunks rule: less_induct)
  case less
  show ?case
  proof (cases "0 < n \<and> n < length items")
    case True
    then have IH: "chunk_loop (drop n items) n c = c @ chunk_loop (drop n items) n []" for c
      by (intro less) auto
    from True show ?thesis
      by (simp add: chunk_loop.simps [of items n] IH [of "chunks @ _"] IH [of "[_]"])
  next
    case False
    then show ?thesis by (subst (1 2) chunk_loop.simps) auto
  qed
qed

lemma chunk_loop_rec:
  "0 < n \<Longrightarrow> chunk_loop items n [] =
     (if n < length items then take n items # chunk_loop (drop n items) n [] else [items])"
  using chunk_loop_prefix [of "drop n items" n "[take n items]"]
  by (simp add: chunk_loop.simps [of items n])

lemma concat_chunk_loop: "0 < n \<Longrightarrow> concat (chunk_loop items n []) = items"
  by (induction "length items" arbitrary: items rule: less_induct)
    (subst chunk_loop_rec, auto)

lemma chunk_loop_nonempty [simp]: "chunk_loop items n [] \<noteq> []"
  by (subst chunk_loop.simps) (auto simp: chunk_loop_prefix [of _ _ "[_]"])

lemma butlast_chunk_loop:
  "0 < n \<Longrightarrow> c \<in> set (butlast (chunk_loop items n [])) \<Longrightarrow> length c = n"
proof (induction "length items" arbitrary: items rule: less_induct)
  case less
  show ?case
  proof (cases "n < length items")
    case True
    with less.prems have "c = take n items \<or> c \<in> set (butlast (chunk_loop (drop n items) n []))"
      by (simp add: chunk_loop_rec [of n items])
    moreover have "length (drop n items) < length items" using True less.prems by auto
    ultimately show ?thesis using True less.hyps [of "drop n items"] less.prems(1) by auto
  next
    case False
    with less.prems show ?thesis by (simp add: chunk_loop_rec [of n items])
  qed
qed

lemma last_chunk_loop:
  "0 < n \<Longrightarrow> length (last (chunk_loop items n [])) \<le> n
     \<and> (items \<noteq> [] \<longrightarrow> last (chunk_loop items n []) \<noteq> [])"
proof (induction "length items" arbitrary: items rule: less_induct)
  case less
  then show ?case by (cases "n < length items") (simp_all add: chunk_loop_rec [of n items])
qed

lemma length_chunk_loop:
  assumes "0 < n" and "items \<noteq> []"
  shows "length (chunk_loop items n []) = (length items + n - 1) div n"
  using assms
proof (induction "length items" arbitrary: items rule: less_induct)
  case less
  show ?case
  proof (cases "n < length items")
    case True
    then have "length (chunk_loop (drop n items) n []) = (length items - n + n - 1) div n"
      using less by auto
    moreover have "(length items + n - 1) div n = Suc ((length items - 1) div n)"
      using True less.prems by (metis Nat.add_diff_assoc2 Suc_eq_plus1 add.commute
          div_add_self2 less_or_eq_imp_le neq0_conv One_nat_def Suc_leI length_greater_0_conv)
    ultimately show ?thesis using True less.prems by (simp add: chunk_loop_rec [of n items])
  next
    case False
    then have "(length items + n - 1) div n = 1"
      using less.prems by (intro div_nat_eqI) (auto simp: Suc_le_eq neq_Nil_conv)
    with False less.prems show ?thesis by (simp add: chunk_loop_rec [of n items])
  qed
qed

text \<open>
  The swap loop on the window \<open>[i, j]\<close> reverses that window and leaves the rest alone.
\<close>

lemma reverse_loop_nth:
  assumes "0 \<le> i" and "j < int (length xs)" and "i \<le> j + 1"
  shows "length (reverse_loop xs i j) = length xs \<and>
    (\<forall>k < length xs. reverse_loop xs i j ! k =
       (if i \<le> int k \<and> int k \<le> j then xs ! nat (i + j - int k) else xs ! k))"
  using assms
proof (induction xs i j rule: reverse_loop.induct)
  case (1 xs i j)
  show ?case
  proof (cases "i < j")
    case True
    let ?ys = "xs[nat i := xs ! nat j, nat j := xs ! nat i]"
    have IH: "length (reverse_loop ?ys (i + 1) (j - 1)) = length xs \<and>
      (\<forall>k < length xs. reverse_loop ?ys (i + 1) (j - 1) ! k =
         (if i + 1 \<le> int k \<and> int k \<le> j - 1 then ?ys ! nat (i + j - int k) else ?ys ! k))"
      using "1.IH" [OF True] "1.prems" True by simp
    have eq: "reverse_loop xs i j = reverse_loop ?ys (i + 1) (j - 1)"
      using True by (simp add: reverse_loop.simps [of xs i j])
    have "reverse_loop ?ys (i + 1) (j - 1) ! k =
        (if i \<le> int k \<and> int k \<le> j then xs ! nat (i + j - int k) else xs ! k)"
      if k: "k < length xs" for k
    proof -
      consider "int k = i" | "int k = j" | "i < int k" "int k < j" | "int k < i \<or> j < int k"
        by linarith
      then show ?thesis
        using IH k True "1.prems"
        by cases (auto simp: nth_list_update nat_eq_iff)
    qed
    with IH eq show ?thesis by simp
  next
    case False
    then have "i \<le> int k \<Longrightarrow> int k \<le> j \<Longrightarrow> nat (i + j - int k) = k" for k by linarith
    with False show ?thesis by (auto simp: reverse_loop.simps [of xs i j])
  qed
qed

subsection \<open>The set interface of list.go\<close>

text \<open>
  What \<open>List\<close> promises: a set under \<open>Add\<close> and \<open>Remove\<close>, its size, and its contents
  in ascending order. The bulk operations of a client that only knows this contract are
  unions and differences.
\<close>

locale sorted_set_contract =
  fixes new :: "'s"
    and add :: "'s \<Rightarrow> 'a::linorder \<Rightarrow> 's"
    and remove :: "'s \<Rightarrow> 'a \<Rightarrow> 's"
    and size_of :: "'s \<Rightarrow> nat"
    and slice_of :: "'s \<Rightarrow> 'a list"
    and abs :: "'s \<Rightarrow> 'a set"
    and ok :: "'s \<Rightarrow> bool"
  assumes new_ok: "ok new" and new_abs: "abs new = {}"
    and add_ok: "ok s \<Longrightarrow> ok (add s x)" and add_abs: "ok s \<Longrightarrow> abs (add s x) = insert x (abs s)"
    and remove_ok: "ok s \<Longrightarrow> ok (remove s x)"
    and remove_abs: "ok s \<Longrightarrow> abs (remove s x) = abs s - {x}"
    and abs_finite: "finite (abs s)"
    and size_card: "ok s \<Longrightarrow> size_of s = card (abs s)"
    and slice_sorted: "ok s \<Longrightarrow> slice_of s = sorted_list_of_set (abs s)"
begin

lemma add_many:
  "ok s \<Longrightarrow> ok (foldl add s xs) \<and> abs (foldl add s xs) = abs s \<union> set xs"
  by (induction xs arbitrary: s) (auto simp: add_ok add_abs)

lemma remove_many:
  "ok s \<Longrightarrow> ok (foldl remove s xs) \<and> abs (foldl remove s xs) = abs s - set xs"
  by (induction xs arbitrary: s) (auto simp: remove_ok remove_abs)

lemma size_slice: "ok s \<Longrightarrow> size_of s = length (slice_of s)"
  by (simp add: size_card slice_sorted)

lemma build_slice: "slice_of (foldl add new xs) = sorted_list_of_set (set xs)"
  using add_many [OF new_ok, of xs] by (simp add: slice_sorted new_abs)

end

definition list_ok :: "'a kit_list \<Rightarrow> bool" where
  "list_ok l \<longleftrightarrow> map_wf (list_data l)"

definition list_set :: "'a kit_list \<Rightarrow> 'a set" where
  "list_set l = set (map_keys (list_data l))"

interpretation kl: sorted_set_contract
  NewList list_Add list_Remove list_Len list_Slice list_set list_ok
proof unfold_locales
  fix s :: "'a kit_list" and x
  show "list_ok (NewList :: 'a kit_list)" "list_set (NewList :: 'a kit_list) = {}"
    by (simp_all add: list_ok_def list_set_def NewList_def gm.wf_mk)
  show "list_ok s \<Longrightarrow> list_ok (list_Add s x)"
    by (simp add: list_ok_def list_Add_def gm.wf_set)
  show "list_ok s \<Longrightarrow> list_set (list_Add s x) = insert x (list_set s)"
    by (auto simp: list_set_def list_Add_def gm.keys_set map_get_None_keys)
  show "list_ok s \<Longrightarrow> list_ok (list_Remove s x)"
    by (simp add: list_ok_def list_Remove_def gm.wf_del)
  show "list_ok s \<Longrightarrow> list_set (list_Remove s x) = list_set s - {x}"
    by (simp add: list_set_def list_Remove_def gm.keys_del)
  show "finite (list_set s)" by (simp add: list_set_def)
  show "list_ok s \<Longrightarrow> list_Len s = card (list_set s)"
    by (metis distinct_card length_map_keys gm.range_distinct list_Len_def list_ok_def list_set_def)
qed (simp add: list_ok_def list_set_def list_Slice_def MapKeys_set)

lemma list_AddSlice_foldl: "list_AddSlice l xs = foldl list_Add l xs"
  by (induction xs arbitrary: l) auto

lemma list_RemoveSlice_foldl: "list_RemoveSlice l xs = foldl list_Remove l xs"
  by (induction xs arbitrary: l) auto

lemma list_AddMapKeys_foldl: "list_AddMapKeys l m = foldl list_Add l (map_keys m)"
  by (simp add: list_AddMapKeys_def foldl_conv_fold)

text \<open>The whole life of a \<open>List\<close> as a sequence of calls.\<close>

datatype 'a list_op =
  OpAdd 'a | OpRemove 'a | OpAddSlice "'a list" | OpRemoveSlice "'a list"
  | OpAddMapKeys "('a, unit) gomap"

fun list_apply :: "'a kit_list \<Rightarrow> 'a list_op \<Rightarrow> 'a kit_list" where
  "list_apply l (OpAdd x) = list_Add l x"
| "list_apply l (OpRemove x) = list_Remove l x"
| "list_apply l (OpAddSlice xs) = list_AddSlice l xs"
| "list_apply l (OpRemoveSlice xs) = list_RemoveSlice l xs"
| "list_apply l (OpAddMapKeys m) = list_AddMapKeys l m"

fun set_apply :: "'a set \<Rightarrow> 'a list_op \<Rightarrow> 'a set" where
  "set_apply S (OpAdd x) = insert x S"
| "set_apply S (OpRemove x) = S - {x}"
| "set_apply S (OpAddSlice xs) = S \<union> set xs"
| "set_apply S (OpRemoveSlice xs) = S - set xs"
| "set_apply S (OpAddMapKeys m) = S \<union> set (map_keys m)"

lemma list_apply_sim:
  fixes l :: "'a::linorder kit_list"
  shows "list_ok l \<Longrightarrow>
    list_ok (list_apply l p) \<and> list_set (list_apply l p) = set_apply (list_set l) p"
  by (cases p) (simp_all add: kl.add_ok kl.add_abs kl.remove_ok kl.remove_abs list_AddSlice_foldl
      list_RemoveSlice_foldl list_AddMapKeys_foldl kl.add_many kl.remove_many)

lemma list_run_sim:
  fixes l :: "'a::linorder kit_list"
  shows "list_ok l \<Longrightarrow> list_ok (foldl list_apply l ps)
    \<and> list_set (foldl list_apply l ps) = foldl set_apply (list_set l) ps"
  by (induction ps arbitrary: l) (simp_all add: list_apply_sim)

subsection \<open>Properties\<close>

text \<open>
  Any sequence of calls on a new \<open>List\<close> refines the same operations on a
  mathematical set: \<open>Slice\<close> is the set in strictly ascending order and \<open>Len\<close> its
  cardinality.
\<close>

lemma List_refines_set:
  fixes ps :: "'a::linorder list_op list"
  shows "list_Slice (foldl list_apply NewList ps) = sorted_list_of_set (foldl set_apply {} ps)
    \<and> list_Len (foldl list_apply NewList ps) = card (foldl set_apply {} ps)"
  using list_run_sim [OF kl.new_ok, of ps] by (simp add: kl.slice_sorted kl.size_card kl.new_abs)

text \<open>
  \<open>Chunk\<close> with a positive size neither loses, repeats nor reorders an element; every
  chunk but the last is exactly full, the last is at most full and, unless the input is empty,
  not empty; a non-positive size gives the whole slice as one chunk.
\<close>

theorem Chunk_partition:
  "concat (Chunk items n) = items
    \<and> (n \<le> 0 \<longrightarrow> Chunk items n = [items])
    \<and> (0 < n \<longrightarrow> (\<forall>c \<in> set (butlast (Chunk items n)). int (length c) = n)
         \<and> int (length (last (Chunk items n))) \<le> n
         \<and> (items \<noteq> [] \<longrightarrow> last (Chunk items n) \<noteq> []
              \<and> int (length (Chunk items n)) = (int (length items) + n - 1) div n))"
proof (cases "0 < n")
  case True
  let ?k = "nat n"
  have k: "0 < ?k" and n: "n = int ?k" using True by auto
  have len: "int (length (chunk_loop items ?k [])) = (int (length items) + n - 1) div n"
    if "items \<noteq> []"
    using length_chunk_loop [OF k that] k n
    by (metis (no_types, lifting) One_nat_def Suc_leI add_gr_0 of_nat_1 of_nat_add of_nat_diff
        zdiv_int)
  show ?thesis
    using True len butlast_chunk_loop [OF k, of _ items] last_chunk_loop [OF k, of items]
    by (auto simp: Chunk_def concat_chunk_loop [OF k])
qed (simp add: Chunk_def)

lemma Chunk_partition_example:
  "(0::int) < 2 \<and> Chunk [1, 2, 3, 4, 5 :: nat] 2 = [[1, 2], [3, 4], [5]]
    \<and> concat (Chunk [1, 2, 3, 4, 5 :: nat] 2) = [1, 2, 3, 4, 5]
    \<and> int (length (Chunk [1, 2, 3, 4, 5 :: nat] 2)) = 3"
proof -
  have "Chunk [1, 2, 3, 4, 5 :: nat] 2 = [[1, 2], [3, 4], [5]]"
    by (simp add: Chunk_def chunk_loop.simps)
  with Chunk_partition [of "[1, 2, 3, 4, 5 :: nat]" 2] show ?thesis by simp
qed

text \<open>
  \<open>RemoveFromSlice\<close> keeps, in the order of \<open>base\<close>, the first copy of every element
  that is not in \<open>toRemove\<close>, and \<open>Uniq\<close> is the case with nothing to remove.
\<close>

lemma RemoveFromSlice_spec:
  "RemoveFromSlice base toRemove = filter (\<lambda>x. x \<notin> set toRemove) (rev (remdups (rev base)))
    \<and> Uniq slice = rev (remdups (rev slice))"
  by (simp add: RemoveFromSlice_def Uniq_def fold_map_set remove_loop_first_new uniq_loop_first_new
      gm.keys_set_all first_new_filter [of base "set toRemove"] first_new_rev_remdups)

text \<open>The in-place swap loop of \<open>Reverse\<close> computes the reversed slice.\<close>

theorem Reverse_rev: "Reverse slice = rev slice"
proof (rule nth_equalityI)
  have *: "length (Reverse slice) = length slice \<and> (\<forall>k < length slice. Reverse slice ! k =
      slice ! nat (int (length slice) - 1 - int k))"
    using reverse_loop_nth [of 0 "int (length slice) - 1" slice] by (simp add: Reverse_def)
  then show "length (Reverse slice) = length (rev slice)" by simp
  fix k assume "k < length (Reverse slice)"
  with * show "Reverse slice ! k = rev slice ! k"
    by (auto simp: rev_nth intro!: arg_cong [where f = "(!) slice"])
qed

text \<open>
  The merging helpers return the union of their inputs in strictly ascending order,
  whatever order the maps are iterated in.
\<close>

lemma merge_helpers_sorted:
  "MergeSlices xss = sorted_list_of_set (\<Union>xs \<in> set xss. set xs)
    \<and> MergeMapKeys m adds =
        sorted_list_of_set (set (map_keys m) \<union> (\<Union>add \<in> set adds. set (map_keys add)))
    \<and> MapKeys (MapFromSlice ys) = sorted_list_of_set (set ys)"
proof -
  have "MapKeys (MapFromSlice ys) = sorted_list_of_set (set (map_keys (gm.set_all True ys [])))"
    by (simp add: MapFromSlice_def fold_map_set MapKeys_set gm.wf_set_all gm.wf_mk)
  then show ?thesis by (simp add: MergeSlices_eq MergeMapKeys_eq gm.keys_set_all)
qed

end
