(* ===== verification/Kit_Mutex.thy ===== *)
theory Kit_Mutex
  imports Go_Prelude
begin

section \<open>The keyed mutex of package kit\<close>

text \<open>
  Models \<open>mutex.go\<close>. The body between \<open>km.mu.Lock()\<close> and \<open>km.mu.Unlock()\<close> is one
  atomic step on the shared state; acquiring and releasing the per-key \<open>sync.Mutex\<close> are steps
  of their own, so another goroutine can run between the two halves of \<open>Lock\<close> and of
  \<open>Unlock\<close>. A \<open>keyMutex\<close> has an address: an entry that is deleted and created again
  is a different object, which is what makes the second half of \<open>Unlock\<close> delicate.
\<close>

subsection \<open>State and operations\<close>

type_synonym addr = nat
type_synonym goroutine = nat

record keyMutex =
  km_locked :: bool
  refcount :: int

record kmutex =
  locks :: "string \<rightharpoonup> addr"
  heap :: "addr \<Rightarrow> keyMutex"
  next_addr :: addr

definition empty_keyMutex :: keyMutex where
  "empty_keyMutex = \<lparr>km_locked = False, refcount = 0\<rparr>"

definition NewMutex :: kmutex where
  "NewMutex = \<lparr>locks = Map.empty, heap = (\<lambda>_. empty_keyMutex), next_addr = 0\<rparr>"

text \<open>
  The first half of \<open>Lock\<close>: find or create the entry and count this goroutine in. The
  pointer it returns is the local variable \<open>m\<close> of the code.
\<close>

definition Lock_enter :: "string \<Rightarrow> kmutex \<Rightarrow> kmutex \<times> addr" where
  "Lock_enter key km =
     (let (km, m) = (case locks km key of
            Some m \<Rightarrow> (km, m)
          | None \<Rightarrow>
              (let m = next_addr km
               in (km\<lparr>locks := (locks km)(key \<mapsto> m),
                      heap := (heap km)(m := empty_keyMutex),
                      next_addr := Suc m\<rparr>, m)))
      in (km\<lparr>heap := (heap km)(m := (heap km m)\<lparr>refcount := refcount (heap km m) + 1\<rparr>)\<rparr>, m))"

text \<open>The second half: \<open>m.mu.Lock()\<close>, which blocks (\<open>None\<close>) while it is locked.\<close>

definition Lock_acquire :: "addr \<Rightarrow> kmutex \<Rightarrow> kmutex option" where
  "Lock_acquire m km =
     (if km_locked (heap km m) then None
      else Some (km\<lparr>heap := (heap km)(m := (heap km m)\<lparr>km_locked := True\<rparr>)\<rparr>))"

text \<open>The first half of \<open>Unlock\<close>; \<open>None\<close> is the early return for a key without entry.\<close>

definition Unlock_enter :: "string \<Rightarrow> kmutex \<Rightarrow> kmutex \<times> addr option" where
  "Unlock_enter key km =
     (case locks km key of
        None \<Rightarrow> (km, None)
      | Some m \<Rightarrow>
          (let n = refcount (heap km m) - 1;
               km = km\<lparr>heap := (heap km)(m := (heap km m)\<lparr>refcount := n\<rparr>)\<rparr>;
               km = (if n = 0 then km\<lparr>locks := (locks km)(key := None)\<rparr> else km)
           in (km, Some m)))"

text \<open>
  The second half: \<open>m.mu.Unlock()\<close>. Unlocking a \<open>sync.Mutex\<close> that is not locked is a
  fatal run-time error (\<open>None\<close>); which goroutine unlocks is not checked.
\<close>

definition Unlock_release :: "addr \<Rightarrow> kmutex \<Rightarrow> kmutex option" where
  "Unlock_release m km =
     (if km_locked (heap km m)
      then Some (km\<lparr>heap := (heap km)(m := (heap km m)\<lparr>km_locked := False\<rparr>)\<rparr>)
      else None)"

subsection \<open>Goroutines using one Mutex\<close>

text \<open>
  Where a goroutine stands with one key: outside, inside \<open>Lock\<close> after the first half, past \<open>Lock\<close>
  (its critical section), or inside \<open>Unlock\<close> after the first half. The object recorded
  by \<open>Holding\<close> is for the proofs only: \<open>Unlock\<close> looks its key up again. A goroutine that holds
  several keys at once stands here several times, once for each \<open>Lock\<close> and its \<open>Unlock\<close>; which of
  them belong together matters only for progress, below.
\<close>

datatype pc = Idle | Waiting string addr | Holding string addr | Releasing addr

record msys =
  shared :: kmutex
  pcs :: "goroutine \<Rightarrow> pc"
  fatal :: bool

definition msys_init :: msys where
  "msys_init = \<lparr>shared = NewMutex, pcs = (\<lambda>_. Idle), fatal = False\<rparr>"

text \<open>
  Any key is locked at any time, also by a goroutine that holds others, a key that is held is
  unlocked, and \<open>Unlock\<close> may be called on a key that has no entry. Every interleaving of these steps
  is allowed.
\<close>

inductive mstep :: "msys \<Rightarrow> msys \<Rightarrow> bool" where
  call_Lock: "\<lbrakk>\<not> fatal s; pcs s t = Idle; Lock_enter k (shared s) = (km, m)\<rbrakk>
    \<Longrightarrow> mstep s (s\<lparr>shared := km, pcs := (pcs s)(t := Waiting k m)\<rparr>)"
| Lock_returns: "\<lbrakk>\<not> fatal s; pcs s t = Waiting k m; Lock_acquire m (shared s) = Some km\<rbrakk>
    \<Longrightarrow> mstep s (s\<lparr>shared := km, pcs := (pcs s)(t := Holding k m)\<rparr>)"
| call_Unlock: "\<lbrakk>\<not> fatal s; pcs s t = Holding k h; Unlock_enter k (shared s) = (km, Some m)\<rbrakk>
    \<Longrightarrow> mstep s (s\<lparr>shared := km, pcs := (pcs s)(t := Releasing m)\<rparr>)"
| Unlock_lost: "\<lbrakk>\<not> fatal s; pcs s t = Holding k h; Unlock_enter k (shared s) = (km, None)\<rbrakk>
    \<Longrightarrow> mstep s (s\<lparr>shared := km, pcs := (pcs s)(t := Idle)\<rparr>)"
| Unlock_returns: "\<lbrakk>\<not> fatal s; pcs s t = Releasing m; Unlock_release m (shared s) = Some km\<rbrakk>
    \<Longrightarrow> mstep s (s\<lparr>shared := km, pcs := (pcs s)(t := Idle)\<rparr>)"
| Unlock_fatal: "\<lbrakk>\<not> fatal s; pcs s t = Releasing m; Unlock_release m (shared s) = None\<rbrakk>
    \<Longrightarrow> mstep s (s\<lparr>fatal := True\<rparr>)"
| stray_Unlock: "\<lbrakk>\<not> fatal s; pcs s t = Idle; Unlock_enter k (shared s) = (km, None)\<rbrakk>
    \<Longrightarrow> mstep s (s\<lparr>shared := km\<rparr>)"

inductive mreach :: "msys \<Rightarrow> bool" where
  mreach_init: "mreach msys_init"
| mreach_step: "mreach s \<Longrightarrow> mstep s s' \<Longrightarrow> mreach s'"

subsection \<open>The invariant\<close>

fun counted_on :: "pc \<Rightarrow> addr \<Rightarrow> bool" where
  "counted_on (Waiting k m) a = (m = a)"
| "counted_on (Holding k m) a = (m = a)"
| "counted_on _ a = False"

fun owns :: "pc \<Rightarrow> addr \<Rightarrow> bool" where
  "owns (Holding k m) a = (m = a)"
| "owns (Releasing m) a = (m = a)"
| "owns _ a = False"

fun key_of :: "pc \<Rightarrow> (string \<times> addr) option" where
  "key_of (Waiting k m) = Some (k, m)"
| "key_of (Holding k m) = Some (k, m)"
| "key_of _ = None"

definition users :: "(goroutine \<Rightarrow> pc) \<Rightarrow> addr \<Rightarrow> goroutine set" where
  "users p a = {t. counted_on (p t) a}"

definition owners :: "(goroutine \<Rightarrow> pc) \<Rightarrow> addr \<Rightarrow> goroutine set" where
  "owners p a = {t. owns (p t) a}"

definition active :: "(goroutine \<Rightarrow> pc) \<Rightarrow> goroutine set" where
  "active p = {t. p t \<noteq> Idle}"

definition inv_map :: "kmutex \<Rightarrow> (goroutine \<Rightarrow> pc) \<Rightarrow> bool" where
  "inv_map km p \<longleftrightarrow>
     (\<forall>k a. locks km k = Some a \<longrightarrow>
        a < next_addr km \<and> users p a \<noteq> {} \<and> refcount (heap km a) = int (card (users p a)))
     \<and> (\<forall>k k' a. locks km k = Some a \<longrightarrow> locks km k' = Some a \<longrightarrow> k = k')"

definition inv_key :: "kmutex \<Rightarrow> (goroutine \<Rightarrow> pc) \<Rightarrow> bool" where
  "inv_key km p \<longleftrightarrow> (\<forall>t k a. key_of (p t) = Some (k, a) \<longrightarrow> locks km k = Some a)"

definition inv_own :: "kmutex \<Rightarrow> (goroutine \<Rightarrow> pc) \<Rightarrow> bool" where
  "inv_own km p \<longleftrightarrow>
     (\<forall>a. if km_locked (heap km a) then (\<exists>t. owners p a = {t}) \<and> a < next_addr km
           else owners p a = {})"

definition minv :: "msys \<Rightarrow> bool" where
  "minv s \<longleftrightarrow> \<not> fatal s \<and> finite (active (pcs s)) \<and> inv_map (shared s) (pcs s)
     \<and> inv_key (shared s) (pcs s) \<and> inv_own (shared s) (pcs s)"

lemma counted_on_key_of: "counted_on p a \<longleftrightarrow> (\<exists>k. key_of p = Some (k, a))"
  by (cases p) auto

lemma finite_users: "finite (active p) \<Longrightarrow> finite (users p a)"
  by (rule finite_subset [rotated]) (auto simp: users_def active_def)

lemma active_upd: "active (p(t := q)) = (if q = Idle then active p - {t} else insert t (active p))"
  by (auto simp: active_def)

lemma users_upd:
  "users (p(t := q)) a = (if counted_on q a then insert t (users p a) else users p a - {t})"
  by (auto simp: users_def)

lemma owners_upd:
  "owners (p(t := q)) a = (if owns q a then insert t (owners p a) else owners p a - {t})"
  by (auto simp: owners_def)

lemma mem_users [simp]: "t \<in> users p a \<longleftrightarrow> counted_on (p t) a"
  by (simp add: users_def)

lemma mem_owners [simp]: "t \<in> owners p a \<longleftrightarrow> owns (p t) a"
  by (simp add: owners_def)

lemmas pc_upd = active_upd users_upd owners_upd

lemma inv_keyD: "inv_key km p \<Longrightarrow> key_of (p t) = Some (k, a) \<Longrightarrow> locks km k = Some a"
  by (simp add: inv_key_def)

lemma inv_key_Waiting: "inv_key km p \<Longrightarrow> p t = Waiting k a \<Longrightarrow> locks km k = Some a"
  by (simp add: inv_keyD [of km p t])

lemma inv_key_Holding: "inv_key km p \<Longrightarrow> p t = Holding k a \<Longrightarrow> locks km k = Some a"
  by (simp add: inv_keyD [of km p t])

lemma inv_own_free: "inv_own km p \<Longrightarrow> \<not> km_locked (heap km a) \<Longrightarrow> owners p a = {}"
  by (auto simp: inv_own_def)

lemma inv_own_locked:
  "inv_own km p \<Longrightarrow> km_locked (heap km a) \<Longrightarrow> (\<exists>t. owners p a = {t}) \<and> a < next_addr km"
  by (simp add: inv_own_def)

lemma inv_own_owner:
  assumes "inv_own km p" and t: "owns (p t) a"
  shows "km_locked (heap km a)" "owners p a = {t}"
proof -
  have mem: "t \<in> owners p a" using t by simp
  then show "km_locked (heap km a)" using inv_own_free [OF assms(1), of a] by (metis empty_iff)
  then obtain u where "owners p a = {u}" using inv_own_locked [OF assms(1)] by blast
  with mem show "owners p a = {t}" by (metis singletonD)
qed

lemma users_fresh: "inv_map km p \<Longrightarrow> inv_key km p \<Longrightarrow> users p (next_addr km) = {}"
proof -
  assume "inv_map km p" and key: "inv_key km p"
  then have "locks km k \<noteq> Some (next_addr km)" for k by (auto simp: inv_map_def)
  with key show ?thesis by (auto simp: inv_key_def users_def counted_on_key_of)
qed

lemma minv_init: "minv msys_init"
  by (simp add: minv_def msys_init_def inv_map_def inv_key_def inv_own_def NewMutex_def
      empty_keyMutex_def active_def owners_def)

text \<open>What each half does to the shared state, case by case.\<close>

lemma Lock_enter_new: "locks km k = None \<Longrightarrow> Lock_enter k km =
   (km\<lparr>locks := (locks km)(k \<mapsto> next_addr km),
       heap := (heap km)(next_addr km := \<lparr>km_locked = False, refcount = 1\<rparr>),
       next_addr := Suc (next_addr km)\<rparr>, next_addr km)"
  by (simp add: Lock_enter_def empty_keyMutex_def Let_def)

lemma Lock_enter_known: "locks km k = Some a \<Longrightarrow> Lock_enter k km =
   (km\<lparr>heap := (heap km)(a := (heap km a)\<lparr>refcount := refcount (heap km a) + 1\<rparr>)\<rparr>, a)"
  by (simp add: Lock_enter_def)

lemma Unlock_enter_known: "locks km k = Some a \<Longrightarrow> Unlock_enter k km =
   (km\<lparr>locks := (if refcount (heap km a) = 1 then (locks km)(k := None) else locks km),
       heap := (heap km)(a := (heap km a)\<lparr>refcount := refcount (heap km a) - 1\<rparr>)\<rparr>, Some a)"
  by (simp add: Unlock_enter_def Let_def)

lemma Unlock_enter_none: "Unlock_enter k km = (km', None) \<longleftrightarrow> locks km k = None \<and> km' = km"
  by (auto simp: Unlock_enter_def Let_def split: option.splits)

lemma inv_map_other:
  "inv_map km p \<Longrightarrow> locks km k = Some a \<Longrightarrow> k' \<noteq> k \<Longrightarrow> locks km k' \<noteq> Some a"
  by (auto simp: inv_map_def)

lemma inv_map_entry: "inv_map km p \<Longrightarrow> locks km k = Some a \<Longrightarrow>
    a < next_addr km \<and> users p a \<noteq> {} \<and> refcount (heap km a) = int (card (users p a))"
  by (simp add: inv_map_def)

text \<open>
  Each half touches one key and one object; the rest of the state and of the goroutines is a
  frame. Two rules say what is left to show for that key and that object.
\<close>

lemma inv_map_frame:
  assumes "inv_map km p" and "next_addr km \<le> next_addr km'"
    and "\<And>k'. k' \<noteq> k \<Longrightarrow> locks km' k' = locks km k' \<and> locks km k' \<noteq> Some m"
    and "\<And>a. a \<noteq> m \<Longrightarrow> users p' a = users p a \<and> refcount (heap km' a) = refcount (heap km a)"
    and "locks km' k = None \<or> locks km' k = Some m \<and> m < next_addr km' \<and> users p' m \<noteq> {}
      \<and> refcount (heap km' m) = int (card (users p' m))"
  shows "inv_map km' p'"
  unfolding inv_map_def
proof (intro conjI allI impI)
  have old: "k' \<noteq> k \<Longrightarrow> locks km' k' = Some a \<Longrightarrow> locks km k' = Some a \<and> a \<noteq> m" for k' a
    using assms(3) by auto
  { fix k' a assume l: "locks km' k' = Some a"
    have "a < next_addr km' \<and> users p' a \<noteq> {} \<and> refcount (heap km' a) = int (card (users p' a))"
    proof (cases "k' = k")
      case True
      then show ?thesis using assms(5) l by auto
    next
      case False
      then have "locks km k' = Some a" and "a \<noteq> m" using old l by auto
      then show ?thesis using inv_map_entry [OF assms(1)] assms(2,4) by (metis order_less_le_trans)
    qed
  }
  then show "locks km' k' = Some a \<Longrightarrow> a < next_addr km'"
    and "locks km' k' = Some a \<Longrightarrow> users p' a \<noteq> {}"
    and "locks km' k' = Some a \<Longrightarrow> refcount (heap km' a) = int (card (users p' a))" for k' a
    by simp_all
  fix k1 k2 a assume l: "locks km' k1 = Some a" "locks km' k2 = Some a"
  show "k1 = k2"
  proof (cases "a = m")
    case True
    then have "k1 = k" "k2 = k" using l old [of k1 a] old [of k2 a] by auto
    then show ?thesis by simp
  next
    case False
    then have "k1 \<noteq> k" "k2 \<noteq> k" using l assms(5) by auto
    then have "locks km k1 = Some a" "locks km k2 = Some a" using l old by simp_all
    then show ?thesis using assms(1) unfolding inv_map_def by metis
  qed
qed

lemma inv_own_frame:
  assumes "inv_own km p" and "next_addr km \<le> next_addr km'"
    and "\<And>a. a \<noteq> m \<Longrightarrow> km_locked (heap km' a) = km_locked (heap km a) \<and> owners p' a = owners p a"
    and "if km_locked (heap km' m) then (\<exists>t. owners p' m = {t}) \<and> m < next_addr km'
      else owners p' m = {}"
  shows "inv_own km' p'"
  unfolding inv_own_def
proof
  fix a
  show "if km_locked (heap km' a) then (\<exists>t. owners p' a = {t}) \<and> a < next_addr km'
    else owners p' a = {}"
  proof (cases "a = m")
    case False
    then show ?thesis
      using assms(1-3) inv_own_locked [OF assms(1), of a] inv_own_free [OF assms(1), of a] by auto
  qed (use assms(4) in simp)
qed

text \<open>A goroutine counts on, or owns, one object at a time.\<close>

lemma users_other: "\<not> counted_on (p t) a \<Longrightarrow> \<not> counted_on q a \<Longrightarrow> users (p(t := q)) a = users p a"
  by (auto simp: users_def)

lemma owners_other: "\<not> owns (p t) a \<Longrightarrow> \<not> owns q a \<Longrightarrow> owners (p(t := q)) a = owners p a"
  by (auto simp: owners_def)

lemma users_same: "counted_on (p t) a \<Longrightarrow> counted_on q a \<Longrightarrow> users (p(t := q)) a = users p a"
  by (auto simp: users_def)

lemma owners_same: "owns (p t) a \<Longrightarrow> owns q a \<Longrightarrow> owners (p(t := q)) a = owners p a"
  by (auto simp: owners_def)

lemma Lock_enter_inv:
  assumes "inv_map km p" "inv_key km p" "inv_own km p" "finite (active p)"
    and t: "p t = Idle" and enter: "Lock_enter k km = (km', m)"
  shows "inv_map km' (p(t := Waiting k m)) \<and> inv_key km' (p(t := Waiting k m))
    \<and> inv_own km' (p(t := Waiting k m))"
proof (intro conjI)
  let ?p = "p(t := Waiting k m)"
  have t': "t \<notin> users p m" using t by simp
  have fin: "finite (users p m)" using assms(4) by (rule finite_users)
  have mono: "next_addr km \<le> next_addr km'" and entry: "locks km' k = Some m"
    and other: "\<And>k'. k' \<noteq> k \<Longrightarrow> locks km' k' = locks km k'"
    and heap: "\<And>a. a \<noteq> m \<Longrightarrow> heap km' a = heap km a"
    using enter by (cases "locks km k"; auto simp: Lock_enter_new Lock_enter_known)+
  have lk: "km_locked (heap km' m) = km_locked (heap km m)" and m: "m < next_addr km'"
    and ref: "refcount (heap km' m) = int (card (users p m)) + 1"
    and fresh: "\<And>k'. k' \<noteq> k \<Longrightarrow> locks km k' \<noteq> Some m"
  proof -
    have *: "locks km k' \<noteq> Some (next_addr km)" for k'
      using inv_map_entry [OF assms(1)] by blast
    have **: "\<not> km_locked (heap km (next_addr km))" using inv_own_locked [OF assms(3)] by blast
    have "km_locked (heap km' m) = km_locked (heap km m) \<and> m < next_addr km'
      \<and> refcount (heap km' m) = int (card (users p m)) + 1
      \<and> (\<forall>k'. k' \<noteq> k \<longrightarrow> locks km k' \<noteq> Some m)"
    proof (cases "locks km k")
      case None
      then show ?thesis
        using enter * ** users_fresh [OF assms(1,2)] by (auto simp: Lock_enter_new)
    next
      case (Some a)
      then show ?thesis
        using enter inv_map_entry [OF assms(1) Some] inv_map_other [OF assms(1) Some]
        by (auto simp: Lock_enter_known)
    qed
    then show "km_locked (heap km' m) = km_locked (heap km m)" "m < next_addr km'"
      "refcount (heap km' m) = int (card (users p m)) + 1"
      "\<And>k'. k' \<noteq> k \<Longrightarrow> locks km k' \<noteq> Some m" by blast+
  qed
  show "inv_map km' ?p"
    by (rule inv_map_frame [OF assms(1) mono, of k m])
      (use other fresh heap entry m ref fin t' t in \<open>auto simp: users_upd users_other\<close>)
  show "inv_own km' ?p"
    by (rule inv_own_frame [OF assms(3) mono, of m])
      (use heap lk m t inv_own_locked [OF assms(3), of m] inv_own_free [OF assms(3), of m]
        in \<open>simp_all add: owners_other\<close>)
  show "inv_key km' ?p"
    using assms(2) entry other unfolding inv_key_def by (metis fun_upd_apply key_of.simps(1)
        option.inject prod.inject enter Lock_enter_known snd_conv)
qed

lemma Lock_acquire_inv:
  assumes "inv_map km p" "inv_key km p" "inv_own km p"
    and t: "p t = Waiting k m" and acq: "Lock_acquire m km = Some km'"
  shows "inv_map km' (p(t := Holding k m)) \<and> inv_key km' (p(t := Holding k m))
    \<and> inv_own km' (p(t := Holding k m))"
proof (intro conjI)
  let ?p = "p(t := Holding k m)"
  have k: "locks km k = Some m" using assms(2) t by (rule inv_key_Waiting)
  have km': "km' = km\<lparr>heap := (heap km)(m := (heap km m)\<lparr>km_locked := True\<rparr>)\<rparr>"
    and free: "\<not> km_locked (heap km m)"
    using acq by (auto simp: Lock_acquire_def split: if_splits)
  have users: "users ?p a = users p a" for a
    using t by (cases "a = m") (simp_all add: users_same users_other)
  have "owners p m = {}" using assms(3) free by (rule inv_own_free)
  then have own: "owners ?p m = {t}" by (simp add: owners_upd)
  show "inv_map km' ?p"
    by (rule inv_map_frame [OF assms(1), of _ k m])
      (use inv_map_entry [OF assms(1) k] inv_map_other [OF assms(1) k] k
        in \<open>simp_all add: km' users\<close>)
  show "inv_own km' ?p"
    by (rule inv_own_frame [OF assms(3), of _ m])
      (use inv_map_entry [OF assms(1) k] t in \<open>simp_all add: km' own owners_other\<close>)
  show "inv_key km' ?p"
    using assms(2) k by (auto simp: inv_key_def km')
qed

lemma Unlock_enter_inv:
  assumes "inv_map km p" "inv_key km p" "inv_own km p" "finite (active p)"
    and t: "p t = Holding k h" and enter: "Unlock_enter k km = (km', Some m)"
  shows "inv_map km' (p(t := Releasing m)) \<and> inv_key km' (p(t := Releasing m))
    \<and> inv_own km' (p(t := Releasing m))"
proof (intro conjI)
  have k: "locks km k = Some h" using assms(2) t by (rule inv_key_Holding)
  then have m: "m = h" using enter by (simp add: Unlock_enter_known)
  let ?p = "p(t := Releasing m)"
  have fin: "finite (users p h)" using assms(4) by (rule finite_users)
  have th: "t \<in> users p h" using t by simp
  have ref: "refcount (heap km h) = int (card (users p h))"
    using inv_map_entry [OF assms(1) k] by simp
  have card: "card (users p h) = Suc (card (users p h - {t}))" using fin th by (rule card.remove)
  have last: "refcount (heap km h) = 1 \<longleftrightarrow> users p h - {t} = {}" using ref card fin by auto
  have km': "km' = km\<lparr>locks := (if refcount (heap km h) = 1 then (locks km)(k := None) else locks km),
      heap := (heap km)(h := (heap km h)\<lparr>refcount := refcount (heap km h) - 1\<rparr>)\<rparr>"
    using enter [symmetric] unfolding Unlock_enter_known [OF k] prod.inject by (rule conjunct1)
  have uh: "users ?p h = users p h - {t}" by (simp add: users_upd)
  have left: "locks km' k = None \<or> locks km' k = Some h \<and> h < next_addr km' \<and> users ?p h \<noteq> {}
      \<and> refcount (heap km' h) = int (card (users ?p h))"
  proof (cases "users p h - {t} = {}")
    case True
    with last show ?thesis by (simp add: km')
  next
    case False
    with last have "refcount (heap km h) \<noteq> 1" by blast
    with False k ref card inv_map_entry [OF assms(1) k] show ?thesis by (simp add: km' uh)
  qed
  show "inv_map km' ?p"
    by (rule inv_map_frame [OF assms(1) _ _ _ left])
      (use inv_map_other [OF assms(1) k] t in \<open>simp_all add: km' users_other\<close>)
  show "inv_own km' ?p"
    by (rule inv_own_frame [OF assms(3), of _ h])
      (use inv_own_owner [OF assms(3), of t h] inv_map_entry [OF assms(1) k] t m
        in \<open>simp_all add: km' owners_other owners_same\<close>)
  show "inv_key km' ?p"
    unfolding inv_key_def
  proof (intro allI impI)
    fix u k' a assume u: "key_of (?p u) = Some (k', a)"
    then have "u \<noteq> t" and pu: "key_of (p u) = Some (k', a)" by (auto split: if_splits)
    from assms(2) pu have lk: "locks km k' = Some a" by (rule inv_keyD)
    have "u \<in> users p h - {t}" if "k' = k"
      using that lk k pu \<open>u \<noteq> t\<close> by (auto simp: counted_on_key_of)
    with lk last show "locks km' k' = Some a" by (auto simp: km')
  qed
qed

lemma Unlock_release_inv:
  assumes "inv_map km p" "inv_key km p" "inv_own km p"
    and t: "p t = Releasing m" and rel: "Unlock_release m km = Some km'"
  shows "inv_map km' (p(t := Idle)) \<and> inv_key km' (p(t := Idle)) \<and> inv_own km' (p(t := Idle))"
proof (intro conjI)
  have km': "km' = km\<lparr>heap := (heap km)(m := (heap km m)\<lparr>km_locked := False\<rparr>)\<rparr>"
    using rel by (auto simp: Unlock_release_def split: if_splits)
  have users: "users (p(t := Idle)) a = users p a" for a using t by (simp add: users_other)
  have "owners p m = {t}" using assms(3) t by (simp add: inv_own_owner)
  then have own: "owners (p(t := Idle)) m = {}" by (simp add: owners_upd)
  show "inv_map km' (p(t := Idle))"
    using assms(1) by (simp add: inv_map_def km' users)
  show "inv_own km' (p(t := Idle))"
    by (rule inv_own_frame [OF assms(3), of _ m])
      (use t in \<open>simp_all add: km' own owners_other\<close>)
  show "inv_key km' (p(t := Idle))"
    using assms(2) by (auto simp: inv_key_def km')
qed

lemma minv_step:
  assumes "mstep s s'" and "minv s"
  shows "minv s'"
  using assms
proof (cases rule: mstep.cases)
  case (call_Lock t k km m)
  then show ?thesis
    using assms(2) Lock_enter_inv [of "shared s" "pcs s" t k km m]
    by (auto simp: minv_def active_upd)
next
  case (Lock_returns t k m km)
  then show ?thesis
    using assms(2) Lock_acquire_inv [of "shared s" "pcs s" t k m km]
    by (auto simp: minv_def active_upd)
next
  case (call_Unlock t k h km m)
  then show ?thesis
    using assms(2) Unlock_enter_inv [of "shared s" "pcs s" t k h km m]
    by (auto simp: minv_def active_upd)
next
  case (Unlock_lost t k h km)
  then have "locks (shared s) k = Some h" using assms(2) by (auto simp: minv_def intro: inv_key_Holding)
  with Unlock_lost show ?thesis by (simp add: Unlock_enter_none)
next
  case (Unlock_returns t m km)
  then show ?thesis
    using assms(2) Unlock_release_inv [of "shared s" "pcs s" t m km]
    by (auto simp: minv_def active_upd)
next
  case (Unlock_fatal t m)
  then show ?thesis
    using assms(2) inv_own_owner(1) [of "shared s" "pcs s" t m]
    by (auto simp: minv_def Unlock_release_def split: if_splits)
next
  case (stray_Unlock t k km)
  then show ?thesis using assms(2) by (simp add: minv_def Unlock_enter_none)
qed

interpretation mutex: step_system "\<lambda>s. s = msys_init" mstep minv
  by unfold_locales (simp add: minv_init, rule minv_step)

lemma mreach_run: "mreach s \<longleftrightarrow> mstep\<^sup>*\<^sup>* msys_init s"
proof
  show "mreach s \<Longrightarrow> mstep\<^sup>*\<^sup>* msys_init s" by (induction rule: mreach.induct) auto
  show "mstep\<^sup>*\<^sup>* msys_init s \<Longrightarrow> mreach s"
    by (induction rule: rtranclp_induct) (auto intro: mreach.intros)
qed

lemma minv_reach: "mreach s \<Longrightarrow> minv s"
  unfolding mreach_run by (rule mutex.reach_inv) simp_all

subsection \<open>Goroutines with several keys\<close>

text \<open>
  \<open>who\<close> says which goroutine made a \<open>Lock\<close>. While it is inside \<open>Lock\<close> or \<open>Unlock\<close> it can do nothing
  else, so the keys it holds stay locked; this is the only restriction on the steps above.
\<close>

fun inside_call :: "pc \<Rightarrow> bool" where
  "inside_call (Waiting k m) = True"
| "inside_call (Releasing m) = True"
| "inside_call _ = False"

definition engaged :: "(nat \<Rightarrow> goroutine) \<Rightarrow> msys \<Rightarrow> goroutine \<Rightarrow> bool" where
  "engaged who s g \<longleftrightarrow> (\<exists>t. who t = g \<and> inside_call (pcs s t))"

definition gstep :: "(nat \<Rightarrow> goroutine) \<Rightarrow> msys \<Rightarrow> msys \<Rightarrow> bool" where
  "gstep who s s' \<longleftrightarrow> mstep s s'
     \<and> (\<forall>t. pcs s' t \<noteq> pcs s t \<longrightarrow> engaged who s (who t) \<longrightarrow> inside_call (pcs s t))"

lemma gstep_run: "(gstep who)\<^sup>*\<^sup>* s s' \<Longrightarrow> mstep\<^sup>*\<^sup>* s s'"
  by (induction rule: rtranclp_induct) (auto simp: gstep_def)

lemma gstep_own:
  assumes "mstep s (s\<lparr>shared := km, pcs := (pcs s)(t := q)\<rparr>)" "engaged who s (who t) \<longrightarrow> inside_call (pcs s t)"
    and "q \<noteq> pcs s t" "pcs s t \<noteq> Idle"
  shows "\<exists>u s'. pcs s u \<noteq> Idle \<and> gstep who s s' \<and> pcs s' u \<noteq> pcs s u"
proof -
  have "gstep who s (s\<lparr>shared := km, pcs := (pcs s)(t := q)\<rparr>)" using assms(1,2) by (simp add: gstep_def)
  with assms(3,4) show ?thesis by (metis fun_upd_same msys.select_convs(2) msys.surjective msys.update_convs(1,2))
qed

text \<open>Who stands in the way of a blocked \<open>Lock\<close>.\<close>

lemma blocked_by:
  assumes "minv s" "pcs s t = Waiting k a" "Lock_acquire a (shared s) = None"
  shows "\<exists>u. pcs s u = Holding k a \<or> pcs s u = Releasing a"
proof -
  have I: "inv_map (shared s) (pcs s)" "inv_key (shared s) (pcs s)" "inv_own (shared s) (pcs s)"
    using assms(1) by (simp_all add: minv_def)
  have "km_locked (heap (shared s) a)" using assms(3) by (simp add: Lock_acquire_def split: if_splits)
  then obtain u where "owners (pcs s) a = {u}" using inv_own_locked [OF I(3)] by blast
  then have "u \<in> owners (pcs s) a" by simp
  then have u: "owns (pcs s u) a" by simp
  show ?thesis
  proof (cases "pcs s u")
    case (Holding k' a')
    then have "locks (shared s) k' = Some a" "locks (shared s) k = Some a"
      using u inv_key_Holding [OF I(2)] inv_key_Waiting [OF I(2) assms(2)] by auto
    then have "k' = k" using inv_map_other [OF I(1)] by blast
    then show ?thesis using u Holding by auto
  qed (use u in auto)
qed

text \<open>A goroutine that is inside and cannot go on waits for a key that somebody holds.\<close>

lemma stuck_waits:
  assumes inv: "minv s" and stuck: "\<not> (\<exists>u s'. pcs s u \<noteq> Idle \<and> gstep who s s' \<and> pcs s' u \<noteq> pcs s u)"
  shows "pcs s v = Waiting k a \<Longrightarrow> \<exists>u. pcs s u = Holding k a"
    and "pcs s t \<noteq> Idle \<Longrightarrow> \<exists>v k a. who v = who t \<and> pcs s v = Waiting k a"
proof -
  have I: "\<not> fatal s" "inv_key (shared s) (pcs s)" "inv_own (shared s) (pcs s)" using inv by (simp_all add: minv_def)
  have releasing: "pcs s v \<noteq> Releasing m" for v m
  proof
    assume v: "pcs s v = Releasing m"
    then obtain km where "Unlock_release m (shared s) = Some km"
      using inv_own_owner(1) [OF I(3), of v m] by (simp add: Unlock_release_def)
    from gstep_own [OF Unlock_returns [OF I(1) v this], of who] v stuck show False by simp
  qed
  show "\<exists>u. pcs s u = Holding k a" if v: "pcs s v = Waiting k a"
  proof (cases "Lock_acquire a (shared s)")
    case None
    from blocked_by [OF inv v this] releasing show ?thesis by blast
  next
    case (Some km)
    from gstep_own [OF Lock_returns [OF I(1) v Some], of who] v stuck show ?thesis by simp
  qed
  show "\<exists>v k a. who v = who t \<and> pcs s v = Waiting k a" if t: "pcs s t \<noteq> Idle"
  proof (cases "engaged who s (who t)")
    case True
    then obtain v where v: "who v = who t" "inside_call (pcs s v)" by (auto simp: engaged_def)
    with releasing show ?thesis by (cases "pcs s v") auto
  next
    case False
    show ?thesis
    proof (cases "pcs s t")
      case (Holding k h)
      then obtain km where "Unlock_enter k (shared s) = (km, Some h)"
        using inv_key_Holding [OF I(2) Holding] by (simp add: Unlock_enter_known)
      from gstep_own [OF call_Unlock [OF I(1) Holding this], of who] False Holding stuck show ?thesis by simp
    qed (use t releasing in auto)
  qed
qed

subsection \<open>A run\<close>

text \<open>
  Goroutine 0 holds key \<open>a\<close>, goroutine 1 waits for it and goroutine 2 holds key \<open>b\<close>.
\<close>

definition run_state :: msys where
  "run_state = \<lparr>shared = \<lparr>locks = [''a'' \<mapsto> 0, ''b'' \<mapsto> 1],
       heap = (\<lambda>_. empty_keyMutex)(0 := \<lparr>km_locked = True, refcount = 2\<rparr>,
                                    1 := \<lparr>km_locked = True, refcount = 1\<rparr>),
       next_addr = 2\<rparr>,
     pcs = (\<lambda>_. Idle)(0 := Holding ''a'' 0, 1 := Waiting ''a'' 0, 2 := Holding ''b'' 1),
     fatal = False\<rparr>"

definition run_prefix :: "nat \<Rightarrow> msys" where
  "run_prefix n =
     (let hold = (\<lambda>c. \<lparr>km_locked = True, refcount = c\<rparr>);
          open_b = \<lparr>km_locked = False, refcount = 1\<rparr>;
          st = (\<lambda>l h x p. \<lparr>shared = \<lparr>locks = l, heap = h, next_addr = x\<rparr>, pcs = p, fatal = False\<rparr>);
          h0 = (\<lambda>_. empty_keyMutex)
      in if n = 1 then st [''a'' \<mapsto> 0] (h0(0 := open_b)) 1 ((\<lambda>_. Idle)(0 := Waiting ''a'' 0))
         else if n = 2 then st [''a'' \<mapsto> 0] (h0(0 := hold 1)) 1 ((\<lambda>_. Idle)(0 := Holding ''a'' 0))
         else if n = 3 then st [''a'' \<mapsto> 0] (h0(0 := hold 2)) 1
                ((\<lambda>_. Idle)(0 := Holding ''a'' 0, 1 := Waiting ''a'' 0))
         else st [''a'' \<mapsto> 0, ''b'' \<mapsto> 1] (h0(0 := hold 2, 1 := open_b)) 2
                ((\<lambda>_. Idle)(0 := Holding ''a'' 0, 1 := Waiting ''a'' 0, 2 := Waiting ''b'' 1)))"

lemmas run_defs = run_prefix_def run_state_def msys_init_def NewMutex_def empty_keyMutex_def
  Lock_enter_def Lock_acquire_def Let_def

lemma run_state_reach: "mreach run_state"
proof -
  have "mstep msys_init (run_prefix 1)"
    using call_Lock [of msys_init 0 "''a''"] by (simp add: run_defs numeral_2_eq_2)
  moreover have "mstep (run_prefix 1) (run_prefix 2)"
    using Lock_returns [of "run_prefix 1" 0 "''a''" 0] by (simp add: run_defs numeral_2_eq_2)
  moreover have "mstep (run_prefix 2) (run_prefix 3)"
    using call_Lock [of "run_prefix 2" 1 "''a''"] by (simp add: run_defs numeral_2_eq_2)
  moreover have "mstep (run_prefix 3) (run_prefix 4)"
    using call_Lock [of "run_prefix 3" 2 "''b''"] by (simp add: run_defs numeral_2_eq_2)
  moreover have "mstep (run_prefix 4) run_state"
    using Lock_returns [of "run_prefix 4" 2 "''b''" 1] by (simp add: run_defs numeral_2_eq_2)
  ultimately show ?thesis by (meson mreach_init mreach_step)
qed

subsection \<open>Properties\<close>

definition critical :: "msys \<Rightarrow> string \<Rightarrow> goroutine set" where
  "critical s k = {t. \<exists>a. pcs s t = Holding k a}"

definition in_use :: "msys \<Rightarrow> string \<Rightarrow> goroutine set" where
  "in_use s k = {t. \<exists>a. key_of (pcs s t) = Some (k, a)}"

text \<open>
  C1: mutual exclusion per key. In every interleaving, at most one goroutine is between the
  return of \<open>Lock(k)\<close> and its \<open>Unlock(k)\<close>, although the entry of \<open>k\<close> may have been
  deleted and created again in the meantime.
\<close>

theorem Mutex_exclusion:
  assumes "mreach s"
  shows "\<exists>t. critical s k \<subseteq> {t}"
proof -
  have I: "inv_key (shared s) (pcs s)" "inv_own (shared s) (pcs s)"
    using minv_reach [OF assms] by (simp_all add: minv_def)
  have "t = u" if tu: "t \<in> critical s k" "u \<in> critical s k" for t u
  proof -
    obtain a b where ab: "pcs s t = Holding k a" "pcs s u = Holding k b"
      using tu by (auto simp: critical_def)
    then have "a = b"
      using inv_key_Holding [OF I(1) ab(1)] inv_key_Holding [OF I(1) ab(2)] by simp
    with ab show "t = u" using inv_own_owner(2) [OF I(2), of t a] inv_own_owner(2) [OF I(2), of u a]
      by simp
  qed
  then show ?thesis by blast
qed

theorem Mutex_exclusion_witness:
  "mreach run_state \<and> 0 \<in> critical run_state ''a'' \<and> (\<exists>t. critical run_state ''a'' \<subseteq> {t})"
  using run_state_reach Mutex_exclusion [OF run_state_reach, of "''a''"]
  by (simp add: critical_def run_state_def)

text \<open>
  C2: the reference counts are exact and the map is bounded. The map has an entry for exactly
  the keys some goroutine holds or waits for, the entry's count is the number of those
  goroutines, and when nobody holds or waits for a key the map is empty.
\<close>

theorem Mutex_map_bounded:
  assumes "mreach s"
  shows "dom (locks (shared s)) = {k. in_use s k \<noteq> {}}
    \<and> (\<forall>k a. locks (shared s) k = Some a \<longrightarrow>
         refcount (heap (shared s) a) = int (card (in_use s k)) \<and> 0 < card (in_use s k))"
proof -
  have I: "inv_map (shared s) (pcs s)" "inv_key (shared s) (pcs s)" "finite (active (pcs s))"
    using minv_reach [OF assms] by (simp_all add: minv_def)
  have users: "users (pcs s) a = in_use s k" if "locks (shared s) k = Some a" for k a
    using that I(1,2) inv_keyD [OF I(2)] inv_map_other [OF I(1) that]
    by (auto simp: users_def in_use_def counted_on_key_of) metis
  have "k \<in> dom (locks (shared s)) \<longleftrightarrow> in_use s k \<noteq> {}" for k
  proof
    assume "k \<in> dom (locks (shared s))"
    then obtain a where a: "locks (shared s) k = Some a" by blast
    with inv_map_entry [OF I(1) a] users [OF a] show "in_use s k \<noteq> {}" by simp
  next
    assume "in_use s k \<noteq> {}"
    then show "k \<in> dom (locks (shared s))" using inv_keyD [OF I(2)] by (auto simp: in_use_def)
  qed
  moreover have "refcount (heap (shared s) a) = int (card (in_use s k)) \<and> 0 < card (in_use s k)"
    if a: "locks (shared s) k = Some a" for k a
    using inv_map_entry [OF I(1) a] users [OF a] finite_users [OF I(3), of a]
    by (simp add: card_gt_0_iff)
  ultimately show ?thesis by blast
qed

theorem Mutex_map_bounded_witness:
  "mreach run_state \<and> dom (locks (shared run_state)) = {k. in_use run_state k \<noteq> {}}
    \<and> refcount (heap (shared run_state) 0) = 2"
  using run_state_reach Mutex_map_bounded [OF run_state_reach] by (simp add: run_state_def)

text \<open>
  C3: \<open>Unlock\<close> by the holder releases the very \<open>sync.Mutex\<close> its \<open>Lock\<close> acquired and
  never takes the early return, and no goroutine ever unlocks an unlocked \<open>sync.Mutex\<close>
  (a fatal error), also when the map entry is already gone by the second half.
\<close>

theorem Mutex_unlock_safe:
  assumes "mreach s"
  shows "\<not> fatal s
    \<and> (\<forall>t k a. pcs s t = Holding k a \<longrightarrow>
         snd (Unlock_enter k (shared s)) = Some a \<and> km_locked (heap (shared s) a))
    \<and> (\<forall>t a. pcs s t = Releasing a \<longrightarrow> Unlock_release a (shared s) \<noteq> None)"
proof -
  have I: "\<not> fatal s" "inv_key (shared s) (pcs s)" "inv_own (shared s) (pcs s)"
    using minv_reach [OF assms] by (simp_all add: minv_def)
  have "snd (Unlock_enter k (shared s)) = Some a \<and> km_locked (heap (shared s) a)"
    if "pcs s t = Holding k a" for t k a
    using that inv_key_Holding [OF I(2) that] inv_own_owner(1) [OF I(3), of t a]
    by (simp add: Unlock_enter_known)
  moreover have "Unlock_release a (shared s) \<noteq> None" if "pcs s t = Releasing a" for t a
    using that inv_own_owner(1) [OF I(3), of t a] by (simp add: Unlock_release_def)
  ultimately show ?thesis using I(1) by blast
qed

theorem Mutex_unlock_safe_witness:
  "mreach run_state \<and> pcs run_state 0 = Holding ''a'' 0
    \<and> snd (Unlock_enter ''a'' (shared run_state)) = Some 0 \<and> \<not> fatal run_state"
proof -
  have h: "pcs run_state 0 = Holding ''a'' 0" by (simp add: run_state_def)
  with Mutex_unlock_safe [OF run_state_reach] have
    "snd (Unlock_enter ''a'' (shared run_state)) = Some 0" "\<not> fatal run_state" by blast+
  with h run_state_reach show ?thesis by simp
qed

text \<open>
  C6: keys do not wait on each other, and what deadlocks there are the callers make themselves. Goroutines
  lock any keys, also while they hold others or the same one. Then a \<open>Lock\<close> is blocked only while somebody
  holds that same key or is just releasing it. If none of those inside can take a step, each of them
  waits for a key that one of them holds: a circle of goroutines that wait for each other. And when
  every goroutine takes its keys in an ascending order, whatever the order, this cannot
  be: as long as one is inside, one of those inside can go on. A goroutine with one key at a time always does.
\<close>

theorem Mutex_progress:
  fixes order :: "string \<Rightarrow> nat"
  assumes "(gstep who)\<^sup>*\<^sup>* msys_init s"
  shows "(\<forall>t k a. pcs s t = Waiting k a \<longrightarrow> Lock_acquire a (shared s) = None \<longrightarrow>
           (\<exists>u. pcs s u = Holding k a \<or> pcs s u = Releasing a))
    \<and> ((\<exists>u s'. pcs s u \<noteq> Idle \<and> gstep who s s' \<and> pcs s' u \<noteq> pcs s u)
       \<or> (\<forall>t. pcs s t \<noteq> Idle \<longrightarrow>
            (\<exists>v k a u. who v = who t \<and> pcs s v = Waiting k a \<and> pcs s u = Holding k a)))
    \<and> ((\<forall>t u k a l b. who t = who u \<longrightarrow> pcs s t = Holding k a \<longrightarrow> pcs s u = Waiting l b \<longrightarrow> order k < order l) \<longrightarrow>
       (\<forall>t. pcs s t \<noteq> Idle \<longrightarrow> (\<exists>u s'. pcs s u \<noteq> Idle \<and> gstep who s s' \<and> pcs s' u \<noteq> pcs s u)))"
proof -
  have inv: "minv s" by (rule mutex.reach_inv [OF refl gstep_run [OF assms]])
  let ?goes = "\<exists>u s'. pcs s u \<noteq> Idle \<and> gstep who s s' \<and> pcs s' u \<noteq> pcs s u"
  note stuck = stuck_waits [OF inv, of who]
  have ?goes if ord: "\<forall>t u k a l b. who t = who u \<longrightarrow> pcs s t = Holding k a \<longrightarrow> pcs s u = Waiting l b \<longrightarrow> order k < order l"
    and t: "pcs s t \<noteq> Idle" for t
  proof (rule ccontr)
    assume no: "\<not> ?goes"
    define W where "W = {order k | v k a. pcs s v = Waiting k a}"
    have "W \<subseteq> (\<lambda>v. order (fst (the (key_of (pcs s v))))) ` active (pcs s)"
    proof
      fix x assume "x \<in> W"
      then obtain v k a where "x = order k" "pcs s v = Waiting k a" by (auto simp: W_def)
      then have "x = order (fst (the (key_of (pcs s v))))" "v \<in> active (pcs s)" by (simp_all add: active_def)
      then show "x \<in> (\<lambda>v. order (fst (the (key_of (pcs s v))))) ` active (pcs s)" by (rule image_eqI)
    qed
    then have fin: "finite W" using inv by (auto simp: minv_def intro: finite_subset)
    obtain v k a where "pcs s v = Waiting k a" using stuck(2) [OF no t] by blast
    then have "W \<noteq> {}" by (auto simp: W_def)
    with fin have "Max W \<in> W" by (rule Max_in)
    then obtain v k a where v: "pcs s v = Waiting k a" "order k = Max W" by (auto simp: W_def)
    obtain u where u: "pcs s u = Holding k a" using stuck(1) [OF no v(1)] by blast
    with stuck(2) [OF no, of u] obtain w l b where w: "who w = who u" "pcs s w = Waiting l b" by auto
    with ord u have "order k < order l" by metis
    moreover have "order l \<le> Max W" using fin w(2) by (intro Max_ge) (auto simp: W_def)
    ultimately show False using v(2) by simp
  qed
  moreover have "?goes \<or> (\<forall>t. pcs s t \<noteq> Idle \<longrightarrow>
      (\<exists>v k a u. who v = who t \<and> pcs s v = Waiting k a \<and> pcs s u = Holding k a))"
    using stuck by metis
  ultimately show ?thesis using blocked_by [OF inv] by blast
qed

text \<open>
  Goroutine 0 holds \<open>a\<close>, goroutine 1 waits for it, and goroutine 0 goes on to lock \<open>b\<close>.
\<close>

definition nested_who :: "nat \<Rightarrow> goroutine" where
  "nested_who t = (if t = 2 then 0 else t)"

lemma nested_run: "(gstep nested_who)\<^sup>*\<^sup>* msys_init (run_prefix 4)"
proof -
  note defs = gstep_def engaged_def nested_who_def run_defs numeral_2_eq_2
  have "gstep nested_who msys_init (run_prefix 1)"
    using call_Lock [of msys_init 0 "''a''"] by (simp add: defs)
  moreover have "gstep nested_who (run_prefix 1) (run_prefix 2)"
    using Lock_returns [of "run_prefix 1" 0 "''a''" 0] by (simp add: defs)
  moreover have "gstep nested_who (run_prefix 2) (run_prefix 3)"
    using call_Lock [of "run_prefix 2" 1 "''a''"] by (simp add: defs)
  moreover have "gstep nested_who (run_prefix 3) (run_prefix 4)"
    using call_Lock [of "run_prefix 3" 2 "''b''"] by (simp add: defs)
  ultimately show ?thesis by (meson converse_rtranclp_into_rtranclp rtranclp.rtrancl_refl)
qed

theorem Mutex_progress_witness:
  "pcs (run_prefix 4) 0 = Holding ''a'' 0 \<and> pcs (run_prefix 4) 1 = Waiting ''a'' 0 \<and> pcs (run_prefix 4) 2 = Waiting ''b'' 1
    \<and> Lock_acquire 0 (shared (run_prefix 4)) = None
    \<and> (\<exists>u. pcs (run_prefix 4) u = Holding ''a'' 0 \<or> pcs (run_prefix 4) u = Releasing 0)
    \<and> (\<exists>u s'. pcs (run_prefix 4) u \<noteq> Idle \<and> gstep nested_who (run_prefix 4) s' \<and> pcs s' u \<noteq> pcs (run_prefix 4) u)"
proof -
  have p: "pcs (run_prefix 4) 0 = Holding ''a'' 0" "pcs (run_prefix 4) 1 = Waiting ''a'' 0"
    "pcs (run_prefix 4) 2 = Waiting ''b'' 1" "Lock_acquire 0 (shared (run_prefix 4)) = None"
    by (simp_all add: run_prefix_def Let_def Lock_acquire_def)
  note go = Mutex_progress [OF nested_run, where order = "\<lambda>k. if k = ''b'' then 1 else 0"]
  have "\<exists>u. pcs (run_prefix 4) u = Holding ''a'' 0 \<or> pcs (run_prefix 4) u = Releasing 0"
    using go [THEN conjunct1] p by blast
  moreover have "\<exists>u s'. pcs (run_prefix 4) u \<noteq> Idle \<and> gstep nested_who (run_prefix 4) s' \<and> pcs s' u \<noteq> pcs (run_prefix 4) u"
  proof (rule go [THEN conjunct2, THEN conjunct2, rule_format])
    show "(if k = ''b'' then 1 else 0 :: nat) < (if l = ''b'' then 1 else 0)"
      if "nested_who t = nested_who u" "pcs (run_prefix 4) t = Holding k a" "pcs (run_prefix 4) u = Waiting l b" for t u k a l b
      using that by (auto simp: run_prefix_def Let_def nested_who_def split: if_splits)
    show "pcs (run_prefix 4) 0 \<noteq> Idle" by (simp add: p)
  qed
  ultimately show ?thesis using p by blast
qed

text \<open>
  Without an order there is no such promise: a goroutine that locks a key it holds waits for ever.
\<close>

lemma Lock_twice_hangs:
  "(gstep (\<lambda>t. 0))\<^sup>*\<^sup>* msys_init (run_prefix 3) \<and> (\<forall>s'. gstep (\<lambda>t. 0) (run_prefix 3) s' \<longrightarrow> s' = run_prefix 3)"
proof
  note defs = gstep_def engaged_def run_defs numeral_2_eq_2
  have "gstep (\<lambda>t. 0) msys_init (run_prefix 1)"
    using call_Lock [of msys_init 0 "''a''"] by (simp add: defs)
  moreover have "gstep (\<lambda>t. 0) (run_prefix 1) (run_prefix 2)"
    using Lock_returns [of "run_prefix 1" 0 "''a''" 0] by (simp add: defs)
  moreover have "gstep (\<lambda>t. 0) (run_prefix 2) (run_prefix 3)"
    using call_Lock [of "run_prefix 2" 1 "''a''"] by (simp add: defs)
  ultimately show "(gstep (\<lambda>t. 0))\<^sup>*\<^sup>* msys_init (run_prefix 3)"
    by (meson converse_rtranclp_into_rtranclp rtranclp.rtrancl_refl)
next
  have p: "pcs (run_prefix 3) = (\<lambda>_. Idle)(0 := Holding ''a'' 0, 1 := Waiting ''a'' 0)"
    and l: "Lock_acquire 0 (shared (run_prefix 3)) = None"
    by (simp_all add: run_prefix_def Let_def Lock_acquire_def)
  have e: "engaged (\<lambda>t. 0) (run_prefix 3) 0" by (auto simp: engaged_def p intro: exI [of _ 1])
  have "s' = run_prefix 3" if "gstep (\<lambda>t. 0) (run_prefix 3) s'" for s'
  proof -
    have m: "mstep (run_prefix 3) s'" and only: "\<And>t. pcs s' t \<noteq> pcs (run_prefix 3) t \<Longrightarrow> inside_call (pcs (run_prefix 3) t)"
      using that e by (auto simp: gstep_def)
    from m show ?thesis
    proof (cases rule: mstep.cases)
      case (call_Lock t k km m)
      with only [of t] show ?thesis by simp
    next
      case (Lock_returns t k m km)
      with l show ?thesis by (auto simp: p split: if_splits)
    next
      case (call_Unlock t k h km m)
      with only [of t] show ?thesis by simp
    next
      case (Unlock_lost t k h km)
      with only [of t] show ?thesis by simp
    next
      case (stray_Unlock t k km)
      then show ?thesis by (simp add: Unlock_enter_none)
    qed (auto simp: p split: if_splits)
  qed
  then show "\<forall>s'. gstep (\<lambda>t. 0) (run_prefix 3) s' \<longrightarrow> s' = run_prefix 3" by blast
qed

text \<open>
  What \<open>Unlock\<close> does for a goroutine that does not hold the key: there is no panic, it
  releases the lock of whoever holds it.
\<close>

lemma Unlock_by_stranger:
  assumes "Lock_enter k km = (km1, m)" and "locks km k = None" and "Lock_acquire m km1 = Some km2"
  shows "snd (Unlock_enter k km2) = Some m
    \<and> (\<exists>km4. Unlock_release m (fst (Unlock_enter k km2)) = Some km4 \<and> \<not> km_locked (heap km4 m))"
  using assms
  by (auto simp: Lock_enter_new Lock_acquire_def Unlock_enter_known Unlock_release_def)

end
