(* ===== verification/Go_Errors.thy ===== *)
theory Go_Errors
  imports Go_Prelude
begin

section \<open>Error values and the chains errors.Is and errors.As walk\<close>

text \<open>
  A non-nil Go \<open>error\<close> is a dynamic value together with the errors its \<open>Unwrap\<close> method
  returns (none, one, or several); nil is \<open>None\<close> of \<open>goerror option\<close>. A pointer-shaped
  error carries its identity as a number, so that equal terms are equal interface values.
  The kinds are the error types of the packages and, of other code, what the packages can
  observe of it: an identity, and whether it implements \<open>net.Error\<close> or \<open>DelayHinter\<close>.
\<close>

datatype errkind =
    Sentinel string          \<comment> \<open>an \<open>errors.New\<close> variable of a package, by name\<close>
  | HintError int            \<comment> \<open>\<open>retry.hintError\<close>, by value\<close>
  | StatusError int int      \<comment> \<open>\<open>httpclient.retryableStatusError\<close>, by value\<close>
  | Errno nat bool           \<comment> \<open>\<open>syscall.Errno\<close> and the answer of its \<open>Timeout\<close>\<close>
  | NetError nat bool        \<comment> \<open>another \<open>net.Error\<close> and the answer of its \<open>Timeout\<close>\<close>
  | Hinter nat int           \<comment> \<open>another \<open>DelayHinter\<close> and its suggested delay\<close>
  | Aggregate nat            \<comment> \<open>\<open>*kit.AggregateError\<close>\<close>
  | Response int string nat  \<comment> \<open>\<open>*kit.ErrorResponse\<close>: status, message, identity\<close>
  | OtherError nat           \<comment> \<open>any other error, such as \<open>fmt.Errorf\<close> makes\<close>

datatype goerror = GoError (kind: errkind) (unwrap: "goerror list")

abbreviation sentinel :: "string \<Rightarrow> goerror" where
  "sentinel name \<equiv> GoError (Sentinel name) []"

text \<open>\<open>context.Canceled\<close> and \<open>context.DeadlineExceeded\<close>; the latter is a \<open>net.Error\<close>.\<close>

abbreviation ctx_Canceled :: goerror where
  "ctx_Canceled \<equiv> sentinel ''context canceled''"

abbreviation ctx_DeadlineExceeded :: goerror where
  "ctx_DeadlineExceeded \<equiv> sentinel ''context deadline exceeded''"

text \<open>\<open>errors.Is\<close>: the error itself or any error below it equals the target.\<close>

fun errors_Is :: "goerror \<Rightarrow> goerror \<Rightarrow> bool" where
  "errors_Is (GoError k es) target =
     (GoError k es = target \<or> list_ex (\<lambda>e. errors_Is e target) es)"

text \<open>
  \<open>errors.As\<close>: the first error, in pre-order, whose kind the target type accepts, with what
  is read from it.
\<close>

fun errors_As :: "(errkind \<Rightarrow> 'a option) \<Rightarrow> goerror \<Rightarrow> 'a option" where
  "errors_As f (GoError k es) =
     (case f k of
        Some a \<Rightarrow> Some a
      | None \<Rightarrow> foldr (\<lambda>e r. case errors_As f e of Some a \<Rightarrow> Some a | None \<Rightarrow> r) es None)"

text \<open>Which kinds implement \<open>SuggestedRetryDelay\<close>, and which \<open>net.Error\<close>.\<close>

fun as_DelayHinter :: "errkind \<Rightarrow> int option" where
  "as_DelayHinter (HintError d) = Some d"
| "as_DelayHinter (StatusError s d) = Some d"
| "as_DelayHinter (Hinter n d) = Some d"
| "as_DelayHinter _ = None"

fun as_NetError :: "errkind \<Rightarrow> bool option" where
  "as_NetError (Errno n t) = Some t"
| "as_NetError (NetError n t) = Some t"
| "as_NetError (Sentinel name) = (if name = ''context deadline exceeded'' then Some True else None)"
| "as_NetError _ = None"

text \<open>All errors of a chain, in the order \<open>errors.Is\<close> and \<open>errors.As\<close> visit them.\<close>

fun chain :: "goerror \<Rightarrow> goerror list" where
  "chain (GoError k es) = GoError k es # concat (map chain es)"

lemma errors_Is_chain: "errors_Is e t \<longleftrightarrow> t \<in> set (chain e)"
  by (induction e rule: chain.induct) (auto simp: list_ex_iff)

lemma errors_Is_refl [simp]: "errors_Is e e"
  by (cases e) simp

fun first_some :: "('a \<Rightarrow> 'b option) \<Rightarrow> 'a list \<Rightarrow> 'b option" where
  "first_some f [] = None"
| "first_some f (x # xs) = (case f x of Some b \<Rightarrow> Some b | None \<Rightarrow> first_some f xs)"

lemma first_some_append:
  "first_some f (xs @ ys) = (case first_some f xs of Some b \<Rightarrow> Some b | None \<Rightarrow> first_some f ys)"
  by (induction xs) (auto split: option.splits)

lemma errors_As_chain: "errors_As f e = first_some (\<lambda>x. f (kind x)) (chain e)"
proof (induction e rule: chain.induct)
  case (1 k es)
  then have "foldr (\<lambda>e r. case errors_As f e of Some a \<Rightarrow> Some a | None \<Rightarrow> r) es None
      = first_some (\<lambda>x. f (kind x)) (concat (map chain es))"
    by (induction es) (auto simp: first_some_append split: option.splits)
  then show ?case by (simp split: option.splits)
qed

lemma first_some_None: "first_some f xs = None \<longleftrightarrow> (\<forall>x \<in> set xs. f x = None)"
  by (induction xs) (auto split: option.splits)

lemma first_some_Some: "first_some f xs = Some b \<Longrightarrow> \<exists>x \<in> set xs. f x = Some b"
  by (induction xs) (auto split: option.splits)

end
