(* ===== verification/Go_Strings.thy ===== *)
theory Go_Strings
  imports Go_Prelude
begin

section \<open>The parts of packages strings and strconv the code uses\<close>

text \<open>
  \<open>strings.HasPrefix\<close>, \<open>HasSuffix\<close>, \<open>Contains\<close>, \<open>Cut\<close>, \<open>Split\<close>, \<open>Join\<close>,
  \<open>Fields\<close>, \<open>TrimSpace\<close>, \<open>strconv.Atoi\<close> and \<open>Itoa\<close> on byte
  strings. Separators are single bytes where the code's are.
\<close>

named_theorems go_str \<open>equations of the string functions on strings built by concatenation\<close>

subsection \<open>Searching\<close>

definition HasPrefix :: "string \<Rightarrow> string \<Rightarrow> bool" where
  "HasPrefix s p = (take (length p) s = p)"

definition HasSuffix :: "string \<Rightarrow> string \<Rightarrow> bool" where
  "HasSuffix s p = (length p \<le> length s \<and> drop (length s - length p) s = p)"

fun Contains :: "string \<Rightarrow> string \<Rightarrow> bool" where
  "Contains [] p = (p = [])"
| "Contains (c # s) p = (HasPrefix (c # s) p \<or> Contains s p)"

lemma HasPrefix_append [go_str, simp]: "HasPrefix (p @ s) p"
  by (simp add: HasPrefix_def)

lemma HasPrefix_iff: "HasPrefix s p \<longleftrightarrow> (\<exists>r. s = p @ r)"
  by (metis HasPrefix_append HasPrefix_def append_take_drop_id)

lemma HasSuffix_append [go_str, simp]: "HasSuffix (s @ p) p"
  by (simp add: HasSuffix_def)

lemma HasSuffix_iff: "HasSuffix s p \<longleftrightarrow> (\<exists>r. s = r @ p)"
  by (metis HasSuffix_append HasSuffix_def append_take_drop_id)

lemma Contains_iff: "Contains s p \<longleftrightarrow> (\<exists>u v. s = u @ p @ v)"
proof (induction s)
  case Nil
  then show ?case by simp
next
  case (Cons c s)
  have "(\<exists>u v. c # s = u @ p @ v) \<longleftrightarrow> (\<exists>v. c # s = p @ v) \<or> (\<exists>u v. s = u @ p @ v)"
  proof
    assume "\<exists>u v. c # s = u @ p @ v"
    then obtain u v where uv: "c # s = u @ p @ v" by blast
    then show "(\<exists>v. c # s = p @ v) \<or> (\<exists>u v. s = u @ p @ v)"
      by (cases u) auto
  next
    assume "(\<exists>v. c # s = p @ v) \<or> (\<exists>u v. s = u @ p @ v)"
    then show "\<exists>u v. c # s = u @ p @ v"
      by (metis append_Cons append_Nil)
  qed
  with Cons show ?case by (simp add: HasPrefix_iff)
qed

subsection \<open>Splitting and joining\<close>

text \<open>\<open>Cut\<close> returns what is before and after the first separator, and whether there was one.\<close>

fun Cut :: "string \<Rightarrow> char \<Rightarrow> string \<times> string \<times> bool" where
  "Cut [] sep = ([], [], False)"
| "Cut (c # s) sep =
     (if c = sep then ([], s, True)
      else (case Cut s sep of (b, a, found) \<Rightarrow> (c # b, a, found)))"

fun Split :: "string \<Rightarrow> char \<Rightarrow> string list" where
  "Split [] sep = [[]]"
| "Split (c # s) sep =
     (if c = sep then [] # Split s sep
      else (case Split s sep of p # ps \<Rightarrow> (c # p) # ps | [] \<Rightarrow> [[c]]))"

fun Join :: "string list \<Rightarrow> string \<Rightarrow> string" where
  "Join [] sep = []"
| "Join [x] sep = x"
| "Join (x # xs) sep = x @ sep @ Join xs sep"

lemma Cut_none [go_str]: "sep \<notin> set s \<Longrightarrow> Cut s sep = (s, [], False)"
  by (induction s) auto

lemma Cut_append [go_str]: "sep \<notin> set b \<Longrightarrow> Cut (b @ sep # a) sep = (b, a, True)"
  by (induction b) auto

lemma Cut_found: "Cut s sep = (b, a, True) \<Longrightarrow> s = b @ sep # a \<and> sep \<notin> set b"
  by (induction s arbitrary: b) (auto split: if_splits prod.splits)

lemma Split_nonempty [simp]: "Split s sep \<noteq> []"
  by (induction s) (auto split: list.splits)

lemma Split_none [go_str]: "sep \<notin> set s \<Longrightarrow> Split s sep = [s]"
  by (induction s) auto

lemma Split_append [go_str]: "sep \<notin> set p \<Longrightarrow> Split (p @ sep # s) sep = p # Split s sep"
  by (induction p) auto

lemma Split_Join [go_str]:
  "xs \<noteq> [] \<Longrightarrow> \<forall>x \<in> set xs. sep \<notin> set x \<Longrightarrow> Split (Join xs [sep]) sep = xs"
proof (induction xs rule: induct_list012)
  case (3 x y zs)
  then show ?case by (simp add: Split_append)
qed (simp_all add: Split_none)

lemma Join_Split: "Join (Split s sep) [sep] = s"
proof (induction s)
  case (Cons c s)
  obtain p ps where "Split s sep = p # ps" by (metis Split_nonempty neq_Nil_conv)
  with Cons show ?case by (cases ps) auto
qed simp

lemma set_Join_subset: "set (Join xs sep) \<subseteq> (\<Union>x \<in> set xs. set x) \<union> set sep"
  by (induction xs rule: induct_list012) auto

subsection \<open>White space\<close>

text \<open>
  The UTF-8 encodings of the code points \<open>unicode.IsSpace\<close> accepts. None of their first
  bytes is a continuation byte, so a match of the bytes is a match of the decoded rune at
  that position, whatever the rest of the string decodes to.
\<close>

definition space_seqs :: "string list" where
  "space_seqs =
     [[CHR 0x20], [CHR 0x09], [CHR 0x0A], [CHR 0x0B], [CHR 0x0C], [CHR 0x0D],
      [CHR 0xC2, CHR 0x85], [CHR 0xC2, CHR 0xA0], [CHR 0xE1, CHR 0x9A, CHR 0x80],
      [CHR 0xE2, CHR 0x80, CHR 0x80], [CHR 0xE2, CHR 0x80, CHR 0x81],
      [CHR 0xE2, CHR 0x80, CHR 0x82], [CHR 0xE2, CHR 0x80, CHR 0x83],
      [CHR 0xE2, CHR 0x80, CHR 0x84], [CHR 0xE2, CHR 0x80, CHR 0x85],
      [CHR 0xE2, CHR 0x80, CHR 0x86], [CHR 0xE2, CHR 0x80, CHR 0x87],
      [CHR 0xE2, CHR 0x80, CHR 0x88], [CHR 0xE2, CHR 0x80, CHR 0x89],
      [CHR 0xE2, CHR 0x80, CHR 0x8A], [CHR 0xE2, CHR 0x80, CHR 0xA8],
      [CHR 0xE2, CHR 0x80, CHR 0xA9], [CHR 0xE2, CHR 0x80, CHR 0xAF],
      [CHR 0xE2, CHR 0x81, CHR 0x9F], [CHR 0xE3, CHR 0x80, CHR 0x80]]"

text \<open>Width of the white-space rune at the front (0: there is none), and at the end.\<close>

fun first_match :: "string list \<Rightarrow> string \<Rightarrow> nat" where
  "first_match [] s = 0"
| "first_match (w # ws) s = (if HasPrefix s w then length w else first_match ws s)"

definition space_at :: "string \<Rightarrow> nat" where
  "space_at s = first_match space_seqs s"

definition space_before :: "string \<Rightarrow> nat" where
  "space_before r = first_match (map rev space_seqs) r"

lemma first_match_le: "first_match ws s \<le> length s"
  by (induction ws) (auto simp: HasPrefix_iff)

lemma first_match_drop: "0 < first_match ws s \<Longrightarrow> length (drop (first_match ws s) s) < length s"
  using first_match_le [of ws s] by simp

lemma first_match_miss:
  "\<forall>w \<in> set ws. w \<noteq> [] \<and> hd w \<noteq> c \<Longrightarrow> first_match ws (c # s) = 0"
  by (induction ws) (auto simp: HasPrefix_def neq_Nil_conv)

function TrimLeftSpace :: "string \<Rightarrow> string" where
  "TrimLeftSpace s = (if 0 < space_at s then TrimLeftSpace (drop (space_at s) s) else s)"
  by pat_completeness auto
termination
  by (relation "measure length") (simp_all add: space_at_def first_match_drop del: length_drop)

text \<open>The right end is trimmed on the reversed string.\<close>

function TrimRevSpace :: "string \<Rightarrow> string" where
  "TrimRevSpace r = (if 0 < space_before r then TrimRevSpace (drop (space_before r) r) else r)"
  by pat_completeness auto
termination
  by (relation "measure length") (simp_all add: space_before_def first_match_drop del: length_drop)

declare TrimLeftSpace.simps [simp del] TrimRevSpace.simps [simp del]

definition TrimSpace :: "string \<Rightarrow> string" where
  "TrimSpace s = rev (TrimRevSpace (rev (TrimLeftSpace s)))"

text \<open>\<open>Fields\<close> splits around runs of white space and never returns an empty field.\<close>

function fields_loop :: "string \<Rightarrow> string \<Rightarrow> string list" where
  "fields_loop cur s =
     (if s = [] then (if cur = [] then [] else [cur])
      else if 0 < space_at s
      then (if cur = [] then [] else [cur]) @ fields_loop [] (drop (space_at s) s)
      else fields_loop (cur @ [hd s]) (tl s))"
  by pat_completeness auto
termination
proof (relation "measure (\<lambda>(cur, s). length s)")
  fix cur s :: string
  assume "s \<noteq> []" "0 < space_at s"
  then show "(([], drop (space_at s) s), cur, s) \<in> measure (\<lambda>(cur, s). length s)"
    by (simp add: length_greater_0_conv)
qed (auto simp: Suc_le_eq)

declare fields_loop.simps [simp del]

definition Fields :: "string \<Rightarrow> string list" where
  "Fields s = fields_loop [] s"

text \<open>Bytes that neither are nor start white space.\<close>

definition plain :: "char \<Rightarrow> bool" where
  "plain c \<longleftrightarrow> (let n = (of_char c :: nat) in 0x20 < n \<and> n < 0x80)"

lemma plain_not_space:
  assumes "plain c"
  shows "\<forall>w \<in> set space_seqs. w \<noteq> [] \<and> hd w \<noteq> c"
    and "\<forall>w \<in> set (map rev space_seqs). w \<noteq> [] \<and> hd w \<noteq> c"
  using assms by (auto simp: space_seqs_def plain_def)

lemma space_at_plain [simp]: "plain c \<Longrightarrow> space_at (c # s) = 0"
  by (simp add: space_at_def first_match_miss plain_not_space)

lemma space_before_plain [simp]: "plain c \<Longrightarrow> space_before (c # s) = 0"
  unfolding space_before_def by (rule first_match_miss) (rule plain_not_space)

lemma space_at_blank [simp]: "space_at (CHR '' '' # s) = 1"
  by (simp add: space_at_def space_seqs_def HasPrefix_def)

lemma space_at_Nil [simp]: "space_at [] = 0"
  by (simp add: space_at_def space_seqs_def HasPrefix_def)

lemma space_before_Nil [simp]: "space_before [] = 0"
  by (simp add: space_before_def space_seqs_def HasPrefix_def)

lemma fields_plain:
  "\<forall>c \<in> set w. plain c \<Longrightarrow> fields_loop cur (w @ CHR '' '' # s) =
     (if cur @ w = [] then [] else [cur @ w]) @ fields_loop [] s"
proof (induction w arbitrary: cur)
  case Nil
  then show ?case by (simp add: fields_loop.simps [of cur "CHR '' '' # s"])
next
  case (Cons c w)
  then show ?case by (simp add: fields_loop.simps [of cur "c # _"])
qed

lemma fields_plain_end:
  "\<forall>c \<in> set w. plain c \<Longrightarrow> fields_loop cur w = (if cur @ w = [] then [] else [cur @ w])"
proof (induction w arbitrary: cur)
  case Nil
  then show ?case by (simp add: fields_loop.simps [of cur "[]"])
next
  case (Cons c w)
  then show ?case by (simp add: fields_loop.simps [of cur "c # _"])
qed

lemma Fields_Join [go_str]:
  "\<forall>x \<in> set xs. x \<noteq> [] \<and> (\<forall>c \<in> set x. plain c) \<Longrightarrow> Fields (Join xs '' '') = xs"
  unfolding Fields_def
proof (induction xs rule: induct_list012)
  case 1
  then show ?case by (simp add: fields_loop.simps)
next
  case (2 x)
  then show ?case by (simp add: fields_plain_end)
next
  case (3 x y zs)
  then show ?case by (simp add: fields_plain)
qed

lemma TrimSpace_plain [go_str]:
  assumes "\<forall>c \<in> set s. plain c"
  shows "TrimSpace s = s"
proof -
  have l: "TrimLeftSpace s = s" using assms by (cases s) (simp_all add: TrimLeftSpace.simps)
  have "TrimRevSpace (rev s) = rev s"
    using assms by (cases "rev s") (auto simp: TrimRevSpace.simps dest: arg_cong [of "rev s" _ set])
  with l show ?thesis by (simp add: TrimSpace_def)
qed

subsection \<open>Atoi and decimal notation\<close>

definition is_digit :: "char \<Rightarrow> bool" where
  "is_digit c \<longleftrightarrow> (let n = (of_char c :: nat) in 48 \<le> n \<and> n \<le> 57)"

definition digit_val :: "char \<Rightarrow> int" where
  "digit_val c = int (of_char c) - 48"

fun digits_acc :: "int \<Rightarrow> string \<Rightarrow> int option" where
  "digits_acc acc [] = Some acc"
| "digits_acc acc (c # s) =
     (if is_digit c then digits_acc (10 * acc + digit_val c) s else None)"

definition parse_digits :: "string \<Rightarrow> int option" where
  "parse_digits s = (if s = [] then None else digits_acc 0 s)"

text \<open>
  \<open>strconv.Atoi\<close>: an optional sign, at least one decimal digit and nothing else, within
  \<open>int64\<close>; \<open>None\<close> stands for any error.
\<close>

definition Atoi :: "string \<Rightarrow> int option" where
  "Atoi s =
     (let (neg, t) = (case s of [] \<Rightarrow> (False, [])
                      | c # r \<Rightarrow> if c = CHR ''-'' then (True, r)
                                else if c = CHR ''+'' then (False, r) else (False, s))
      in case parse_digits t of
           None \<Rightarrow> None
         | Some n \<Rightarrow> (let v = (if neg then - n else n) in if int64 v then Some v else None))"

lemma Atoi_int64: "Atoi s = Some v \<Longrightarrow> int64 v"
  by (auto simp: Atoi_def Let_def split: prod.splits option.splits if_splits)

definition digit_char :: "nat \<Rightarrow> char" where
  "digit_char d = char_of (48 + d)"

fun decimal :: "nat \<Rightarrow> string" where
  "decimal n = (if n < 10 then [digit_char n] else decimal (n div 10) @ [digit_char (n mod 10)])"

declare decimal.simps [simp del]

definition Itoa :: "int \<Rightarrow> string" where
  "Itoa v = (if v < 0 then CHR ''-'' # decimal (nat (- v)) else decimal (nat v))"

lemma of_char_digit: "d < 10 \<Longrightarrow> (of_char (digit_char d) :: nat) = 48 + d"
  by (simp add: digit_char_def)

lemma digit_char_props:
  assumes "d < 10"
  shows "is_digit (digit_char d)" "digit_val (digit_char d) = int d"
  using assms by (simp_all add: is_digit_def digit_val_def of_char_digit)

lemma decimal_digits: "\<forall>c \<in> set (decimal n). is_digit c"
proof (induction n rule: decimal.induct)
  case (1 n)
  then show ?case
    by (subst decimal.simps) (auto simp: digit_char_props)
qed

lemma decimal_nonempty [simp]: "decimal n \<noteq> []"
  by (subst decimal.simps) simp

lemma digits_acc_append:
  "digits_acc a (s @ t) = (case digits_acc a s of None \<Rightarrow> None | Some b \<Rightarrow> digits_acc b t)"
  by (induction s arbitrary: a) auto

lemma digits_acc_decimal: "digits_acc 0 (decimal n) = Some (int n)"
proof (induction n rule: decimal.induct)
  case (1 n)
  show ?case
  proof (cases "n < 10")
    case True
    then show ?thesis by (subst decimal.simps) (simp add: digit_char_props)
  next
    case False
    then have "digits_acc 0 (decimal n) = digits_acc (int (n div 10)) [digit_char (n mod 10)]"
      using 1 by (subst decimal.simps) (simp add: digits_acc_append)
    also have "\<dots> = Some (int n)"
      by (simp add: digit_char_props zdiv_int zmod_int)
    finally show ?thesis .
  qed
qed

lemma is_digit_not_sign: "is_digit c \<Longrightarrow> c \<noteq> CHR ''-'' \<and> c \<noteq> CHR ''+''"
  by (auto simp: is_digit_def Let_def)

lemma is_digit_plain: "is_digit c \<Longrightarrow> plain c"
  by (auto simp: is_digit_def plain_def Let_def)

lemma Atoi_decimal_any: "Atoi (decimal n) = (if int64 (int n) then Some (int n) else None)"
proof -
  obtain c s where d: "decimal n = c # s" by (metis decimal_nonempty neq_Nil_conv)
  then have "is_digit c" using decimal_digits [of n] by simp
  then show ?thesis
    using digits_acc_decimal [of n] is_digit_not_sign [of c]
    unfolding Atoi_def d by (simp add: parse_digits_def)
qed

lemma Atoi_decimal [go_str]: "int64 (int n) \<Longrightarrow> Atoi (decimal n) = Some (int n)"
  by (simp add: Atoi_decimal_any)

lemma Atoi_Itoa: "int64 v \<Longrightarrow> Atoi (Itoa v) = Some v"
proof (cases "v < 0")
  case True
  assume "int64 v"
  with True show ?thesis
    using digits_acc_decimal [of "nat (- v)"] by (simp add: Itoa_def Atoi_def parse_digits_def)
next
  case False
  assume "int64 v"
  with False show ?thesis using Atoi_decimal [of "nat v"] by (simp add: Itoa_def)
qed

end
