(* ===== verification/Go_Utf8.thy ===== *)
theory Go_Utf8
  imports Go_Strings
begin

section \<open>Package unicode/utf8\<close>

text \<open>
  Decoding and encoding of runes as \<open>unicode/utf8\<close> does them, for byte strings that need not be valid:
  the first rune of a string with its width, the bytes of each rune, and what encoding a decoded rune gives.
\<close>

definition RuneError :: nat where
  "RuneError = 65533"

abbreviation byte :: "char \<Rightarrow> nat" where
  "byte c \<equiv> of_char c"

definition cont :: "nat \<Rightarrow> nat \<Rightarrow> char \<Rightarrow> bool" where
  "cont lo hi c \<longleftrightarrow> lo \<le> byte c \<and> byte c \<le> hi"

text \<open>The range of the second byte after a lead byte of three and of four bytes.\<close>

definition lead3 :: "nat \<Rightarrow> nat \<times> nat" where
  "lead3 b = (if b = 224 then (160, 191) else if b = 237 then (128, 159) else (128, 191))"

definition lead4 :: "nat \<Rightarrow> nat \<times> nat" where
  "lead4 b = (if b = 240 then (144, 191) else if b = 244 then (128, 143) else (128, 191))"

text \<open>\<open>DecodeRuneInString\<close>: the first rune and its width; a byte that starts none is an error of width 1.\<close>

fun DecodeRune :: "string \<Rightarrow> nat \<times> nat" where
  "DecodeRune [] = (RuneError, 0)"
| "DecodeRune (c # s) =
     (let b = byte c in
      if b < 128 then (b, 1)
      else if 194 \<le> b \<and> b \<le> 223 then
        (case s of
           c1 # s1 \<Rightarrow> if cont 128 191 c1 then (b mod 32 * 64 + byte c1 mod 64, 2) else (RuneError, 1)
         | [] \<Rightarrow> (RuneError, 1))
      else if 224 \<le> b \<and> b \<le> 239 then
        (case s of
           c1 # c2 # s2 \<Rightarrow>
             if cont (fst (lead3 b)) (snd (lead3 b)) c1 \<and> cont 128 191 c2
             then (b mod 16 * 4096 + byte c1 mod 64 * 64 + byte c2 mod 64, 3) else (RuneError, 1)
         | _ \<Rightarrow> (RuneError, 1))
      else if 240 \<le> b \<and> b \<le> 244 then
        (case s of
           c1 # c2 # c3 # s3 \<Rightarrow>
             if cont (fst (lead4 b)) (snd (lead4 b)) c1 \<and> cont 128 191 c2 \<and> cont 128 191 c3
             then (b mod 8 * 262144 + byte c1 mod 64 * 4096 + byte c2 mod 64 * 64 + byte c3 mod 64, 4)
             else (RuneError, 1)
         | _ \<Rightarrow> (RuneError, 1))
      else (RuneError, 1))"

text \<open>\<open>AppendRune\<close>: the encoding of a rune, and of \<open>RuneError\<close> for what is none.\<close>

definition error_bytes :: string where
  "error_bytes = [char_of (239 :: nat), char_of (191 :: nat), char_of (189 :: nat)]"

definition EncodeRune :: "int \<Rightarrow> string" where
  "EncodeRune i =
     (if i < 0 then error_bytes
      else let r = nat i in
        if r < 128 then [char_of r]
        else if r < 2048 then [char_of (192 + r div 64), char_of (128 + r mod 64)]
        else if r < 55296 \<or> (57343 < r \<and> r < 65536)
          then [char_of (224 + r div 4096), char_of (128 + r div 64 mod 64), char_of (128 + r mod 64)]
        else if 65535 < r \<and> r \<le> 1114111
          then [char_of (240 + r div 262144), char_of (128 + r div 4096 mod 64),
                char_of (128 + r div 64 mod 64), char_of (128 + r mod 64)]
        else error_bytes)"

abbreviation rune_at :: "string \<Rightarrow> nat" where
  "rune_at s \<equiv> fst (DecodeRune s)"

abbreviation width_at :: "string \<Rightarrow> nat" where
  "width_at s \<equiv> snd (DecodeRune s)"

lemma width_pos: "s \<noteq> [] \<Longrightarrow> 0 < width_at s"
  by (cases s) (auto simp: Let_def split: list.splits if_splits)

lemma width_le: "width_at s \<le> length s"
  by (cases s) (auto simp: Let_def split: list.splits if_splits)

lemma drop_width: "s \<noteq> [] \<Longrightarrow> length (drop (width_at s) s) < length s"
  using width_pos by simp

text \<open>\<open>utf8.RuneCountInString\<close>, and the bytes of each rune.\<close>

function RuneCount :: "string \<Rightarrow> nat" where
  "RuneCount s = (if s = [] then 0 else Suc (RuneCount (drop (width_at s) s)))"
  by auto
termination by (relation "measure length") (auto intro!: diff_less width_pos)

function runes :: "string \<Rightarrow> string list" where
  "runes s = (if s = [] then [] else take (width_at s) s # runes (drop (width_at s) s))"
  by auto
termination by (relation "measure length") (auto intro!: diff_less width_pos)

declare RuneCount.simps [simp del] runes.simps [simp del]

definition bad_rune :: "string \<Rightarrow> bool" where
  "bad_rune s \<longleftrightarrow> DecodeRune s = (RuneError, 1)"

lemma runes_concat: "concat (runes s) = s"
  by (induction s rule: runes.induct) (subst runes.simps, simp)

lemma length_runes: "length (runes s) = RuneCount s"
  by (induction s rule: runes.induct) (subst runes.simps, subst RuneCount.simps, simp)

text \<open>Writing back a decoded rune gives its bytes again, and the replacement for a bad one.\<close>

lemma Encode_error: "EncodeRune (int RuneError) = error_bytes"
  by (simp add: EncodeRune_def RuneError_def error_bytes_def)

lemma char_of_byte: "n = byte c \<Longrightarrow> char_of n = c"
  by simp

lemma mod_leads:
  fixes a :: nat
  shows "a < 32 \<Longrightarrow> (192 + a) mod 32 = a" "a < 64 \<Longrightarrow> (128 + a) mod 64 = a"
    "a < 16 \<Longrightarrow> (224 + a) mod 16 = a" "a < 8 \<Longrightarrow> (240 + a) mod 8 = a"
  using mod_mult_self3 [of 6 32 a] mod_mult_self3 [of 2 64 a] mod_mult_self3 [of 14 16 a] mod_mult_self3 [of 30 8 a]
  by simp_all

lemma split_bits:
  fixes a b :: nat
  assumes "b < 64"
  shows "(a * 64 + b) div 64 = a" "(a * 64 + b) mod 64 = b"
  using assms by simp_all

lemma lead2_bytes:
  fixes b :: nat
  assumes "194 \<le> b" "b \<le> 223" "128 \<le> b1" "b1 \<le> 191" "r = b mod 32 * 64 + b1 mod 64"
  shows "\<not> r < 128" "r < 2048" "192 + r div 64 = b" "128 + r mod 64 = b1"
proof -
  obtain a a1 where a: "b = 192 + a" "b1 = 128 + a1"
    using assms(1,3) le_Suc_ex [of 192 b] le_Suc_ex [of 128 b1] by auto
  have l: "a < 32" "a1 < 64" "2 \<le> a" using assms(1-4) a by simp_all
  have r: "r = a * 64 + a1" using assms(5) l by (simp add: a mod_leads)
  show "\<not> r < 128" "r < 2048" using r l by simp_all
  show "192 + r div 64 = b" "128 + r mod 64 = b1" by (simp_all only: r a split_bits [OF l(2)])
qed

lemma lead3_bytes:
  fixes b :: nat
  assumes "224 \<le> b" "b \<le> 239" "fst (lead3 b) \<le> b1" "b1 \<le> snd (lead3 b)" "128 \<le> b2" "b2 \<le> 191"
    and "r = b mod 16 * 4096 + b1 mod 64 * 64 + b2 mod 64"
  shows "\<not> r < 2048" "r < 55296 \<or> 57343 < r \<and> r < 65536"
    "224 + r div 4096 = b" "128 + r div 64 mod 64 = b1" "128 + r mod 64 = b2"
proof -
  have k: "128 \<le> b1" "b1 \<le> 191" "b = 224 \<longrightarrow> 160 \<le> b1" "b = 237 \<longrightarrow> b1 \<le> 159"
    using assms(3,4) by (auto simp: lead3_def split: if_splits)
  obtain a a1 a2 where a: "b = 224 + a" "b1 = 128 + a1" "b2 = 128 + a2"
    using assms(1,5) k(1) le_Suc_ex [of 224 b] le_Suc_ex [of 128 b1] le_Suc_ex [of 128 b2] by auto
  have l: "a < 16" "a1 < 64" "a2 < 64" "a = 0 \<longrightarrow> 32 \<le> a1" "a = 13 \<longrightarrow> a1 < 32"
    using assms(2,6) k a by auto
  have r: "r = (a * 64 + a1) * 64 + a2" using assms(7) l by (simp add: a mod_leads)
  show "\<not> r < 2048" using r l by (cases "a = 0") auto
  show "r < 55296 \<or> 57343 < r \<and> r < 65536"
    using r l by (cases "a = 13"; cases "a < 13") auto
  have "r div 64 = a * 64 + a1" by (simp only: r split_bits [OF l(3)])
  moreover have "r div 4096 = r div 64 div 64" by (simp flip: div_mult2_eq)
  ultimately show "224 + r div 4096 = b" "128 + r div 64 mod 64 = b1" "128 + r mod 64 = b2"
    by (simp_all only: r a split_bits [OF l(2)] split_bits [OF l(3)])
qed

lemma lead4_bytes:
  fixes b :: nat
  assumes "240 \<le> b" "b \<le> 244" "fst (lead4 b) \<le> b1" "b1 \<le> snd (lead4 b)" "128 \<le> b2" "b2 \<le> 191"
    "128 \<le> b3" "b3 \<le> 191"
    and "r = b mod 8 * 262144 + b1 mod 64 * 4096 + b2 mod 64 * 64 + b3 mod 64"
  shows "65535 < r" "r \<le> 1114111" "240 + r div 262144 = b" "128 + r div 4096 mod 64 = b1"
    "128 + r div 64 mod 64 = b2" "128 + r mod 64 = b3"
proof -
  have k: "128 \<le> b1" "b1 \<le> 191" "b = 240 \<longrightarrow> 144 \<le> b1" "b = 244 \<longrightarrow> b1 \<le> 143"
    using assms(3,4) by (auto simp: lead4_def split: if_splits)
  obtain a a1 a2 a3 where a: "b = 240 + a" "b1 = 128 + a1" "b2 = 128 + a2" "b3 = 128 + a3"
    using assms(1,5,7) k(1) le_Suc_ex [of 240 b] le_Suc_ex [of 128 b1] le_Suc_ex [of 128 b2] le_Suc_ex [of 128 b3]
    by auto
  have l: "a < 5" "a1 < 64" "a2 < 64" "a3 < 64" "a = 0 \<longrightarrow> 16 \<le> a1" "a = 4 \<longrightarrow> a1 < 16"
    using assms(2,6,8) k a by auto
  have r: "r = ((a * 64 + a1) * 64 + a2) * 64 + a3" using assms(9) l by (simp add: a mod_leads)
  show "65535 < r" using r l by (cases "a = 0") auto
  show "r \<le> 1114111" using r l by (cases "a = 4") auto
  have d: "r div 64 = (a * 64 + a1) * 64 + a2" by (simp only: r split_bits [OF l(4)])
  have e: "r div 4096 = r div 64 div 64" "r div 262144 = r div 64 div 64 div 64" by (simp_all flip: div_mult2_eq)
  show "240 + r div 262144 = b" "128 + r div 4096 mod 64 = b1" "128 + r div 64 mod 64 = b2" "128 + r mod 64 = b3"
    by (simp_all only: e d a split_bits [OF l(2)] split_bits [OF l(3)]) (simp only: r split_bits [OF l(4)])
qed

lemma Encode_1: "r < 128 \<Longrightarrow> EncodeRune (int r) = [char_of r]"
  by (simp add: EncodeRune_def)

lemma Encode_2: "\<not> r < 128 \<Longrightarrow> r < 2048 \<Longrightarrow> EncodeRune (int r) = [char_of (192 + r div 64), char_of (128 + r mod 64)]"
  by (simp add: EncodeRune_def)

lemma Encode_3:
  "\<not> r < 2048 \<Longrightarrow> r < 55296 \<or> 57343 < r \<and> r < 65536 \<Longrightarrow>
   EncodeRune (int r) = [char_of (224 + r div 4096), char_of (128 + r div 64 mod 64), char_of (128 + r mod 64)]"
  by (simp add: EncodeRune_def)

lemma Encode_4:
  "65535 < r \<Longrightarrow> r \<le> 1114111 \<Longrightarrow>
   EncodeRune (int r) = [char_of (240 + r div 262144), char_of (128 + r div 4096 mod 64),
     char_of (128 + r div 64 mod 64), char_of (128 + r mod 64)]"
  by (simp add: EncodeRune_def)

text \<open>How the first rune of a string can look.\<close>

lemma DecodeRune_cases:
  assumes "s \<noteq> []" "\<not> bad_rune s"
  obtains (one) c t where "s = c # t" "byte c < 128" "DecodeRune s = (byte c, 1)"
  | (two) c c1 t where "s = c # c1 # t" "194 \<le> byte c" "byte c \<le> 223" "cont 128 191 c1"
      "DecodeRune s = (byte c mod 32 * 64 + byte c1 mod 64, 2)"
  | (three) c c1 c2 t where "s = c # c1 # c2 # t" "224 \<le> byte c" "byte c \<le> 239"
      "cont (fst (lead3 (byte c))) (snd (lead3 (byte c))) c1" "cont 128 191 c2"
      "DecodeRune s = (byte c mod 16 * 4096 + byte c1 mod 64 * 64 + byte c2 mod 64, 3)"
  | (four) c c1 c2 c3 t where "s = c # c1 # c2 # c3 # t" "240 \<le> byte c" "byte c \<le> 244"
      "cont (fst (lead4 (byte c))) (snd (lead4 (byte c))) c1" "cont 128 191 c2" "cont 128 191 c3"
      "DecodeRune s = (byte c mod 8 * 262144 + byte c1 mod 64 * 4096 + byte c2 mod 64 * 64 + byte c3 mod 64, 4)"
proof (cases s)
  case (Cons c t)
  show thesis
  proof (cases "byte c < 128")
    case True
    then show thesis using one Cons by simp
  next
    case c1: False
    show thesis
    proof (cases "194 \<le> byte c \<and> byte c \<le> 223")
      case True
      then obtain d u where "t = d # u" "cont 128 191 d"
        using assms(2) c1 Cons by (auto simp: bad_rune_def Let_def split: list.splits if_splits)
      then show thesis using two [of c d u] True c1 Cons by simp
    next
      case c2: False
      show thesis
      proof (cases "224 \<le> byte c \<and> byte c \<le> 239")
        case True
        then obtain d e u where "t = d # e # u" "cont (fst (lead3 (byte c))) (snd (lead3 (byte c))) d" "cont 128 191 e"
          using assms(2) c1 c2 Cons by (auto simp: bad_rune_def Let_def split: list.splits if_splits)
        then show thesis using three [of c d e u] True c1 c2 Cons by simp
      next
        case c3: False
        have "240 \<le> byte c \<and> byte c \<le> 244"
          using assms(2) c1 c2 c3 Cons by (auto simp: bad_rune_def Let_def split: if_splits)
        moreover from this obtain d e f u where "t = d # e # f # u"
          "cont (fst (lead4 (byte c))) (snd (lead4 (byte c))) d" "cont 128 191 e" "cont 128 191 f"
          using assms(2) c1 c2 c3 Cons by (auto simp: bad_rune_def Let_def split: list.splits if_splits)
        ultimately show thesis using four [of c d e f u] c1 c2 c3 Cons by simp
      qed
    qed
  qed
qed (use assms in simp)

lemma Encode_Decode:
  assumes "s \<noteq> []" "\<not> bad_rune s"
  shows "EncodeRune (int (rune_at s)) = take (width_at s) s"
  using assms
proof (cases rule: DecodeRune_cases)
  case (one c t)
  then show ?thesis by (simp only: fst_conv snd_conv Encode_1 char_of_char) simp
next
  case (two c c1 t)
  note b = lead2_bytes [OF two(2,3) _ _ refl, of "byte c1"]
  have "128 \<le> byte c1" "byte c1 \<le> 191" using two(4) by (simp_all add: cont_def)
  note b = b [OF this]
  have "EncodeRune (int (byte c mod 32 * 64 + byte c1 mod 64)) = [c, c1]"
    by (simp only: Encode_2 [OF b(1,2)] b(3,4) char_of_char)
  then show ?thesis using two(1,5) by simp
next
  case (three c c1 c2 t)
  have k: "fst (lead3 (byte c)) \<le> byte c1" "byte c1 \<le> snd (lead3 (byte c))" "128 \<le> byte c2" "byte c2 \<le> 191"
    using three(4,5) by (simp_all add: cont_def)
  note b = lead3_bytes [OF three(2,3) k refl]
  have "EncodeRune (int (byte c mod 16 * 4096 + byte c1 mod 64 * 64 + byte c2 mod 64)) = [c, c1, c2]"
    by (simp only: Encode_3 [OF b(1,2)] b(3-5) char_of_char)
  then show ?thesis using three(1,6) by simp
next
  case (four c c1 c2 c3 t)
  have k: "fst (lead4 (byte c)) \<le> byte c1" "byte c1 \<le> snd (lead4 (byte c))" "128 \<le> byte c2" "byte c2 \<le> 191"
    "128 \<le> byte c3" "byte c3 \<le> 191"
    using four(4-6) by (simp_all add: cont_def)
  note b = lead4_bytes [OF four(2,3) k refl]
  have "EncodeRune (int (byte c mod 8 * 262144 + byte c1 mod 64 * 4096 + byte c2 mod 64 * 64 + byte c3 mod 64)) = [c, c1, c2, c3]"
    by (simp only: Encode_4 [OF b(1,2)] b(3-6) char_of_char)
  then show ?thesis using four(1,7) by simp
qed

lemma Decode_error_bytes: "DecodeRune (error_bytes @ s) = (RuneError, 3)"
  by (simp add: error_bytes_def RuneError_def cont_def lead3_def)

lemma DecodeRune_prefix:
  assumes "s \<noteq> []" "\<not> bad_rune s"
  shows "DecodeRune (take (width_at s) s) = DecodeRune s"
  using assms
proof (cases rule: DecodeRune_cases)
  case (one c t)
  then have "take (width_at s) s = [c]" by simp
  then show ?thesis using one by simp
next
  case (two c c1 t)
  then have "take (width_at s) s = [c, c1]" by simp
  then show ?thesis using two by simp
next
  case (three c c1 c2 t)
  then have "take (width_at s) s = [c, c1, c2]" by simp
  then show ?thesis using three by simp
next
  case (four c c1 c2 c3 t)
  then have "take (width_at s) s = [c, c1, c2, c3]" by simp
  then show ?thesis using four by simp
qed

lemma bad_rune_prefix: "s \<noteq> [] \<Longrightarrow> bad_rune (take (width_at s) s) \<longleftrightarrow> bad_rune s"
proof (cases "bad_rune s")
  case True
  moreover assume "s \<noteq> []"
  ultimately show ?thesis
    by (cases s) (auto simp: bad_rune_def Let_def split: if_splits)
next
  case False
  moreover assume "s \<noteq> []"
  ultimately show ?thesis using DecodeRune_prefix [of s] by (simp add: bad_rune_def)
qed

end
