(* ===== verification/Go_Quote.thy ===== *)
theory Go_Quote
  imports Go_Utf8
begin

section \<open>Unquoting of Go literals\<close>

text \<open>
  \<open>strconv.Unquote\<close>: raw strings, interpreted strings and character literals with their escapes;
  \<open>None\<close> is a syntax error.
\<close>

abbreviation dquote :: char where "dquote \<equiv> CHR 0x22"
abbreviation squote :: char where "squote \<equiv> CHR 0x27"
abbreviation backquote :: char where "backquote \<equiv> CHR 0x60"
abbreviation backslash :: char where "backslash \<equiv> CHR 0x5C"

definition unhex :: "char \<Rightarrow> nat option" where
  "unhex c =
     (let b = byte c in
      if 48 \<le> b \<and> b \<le> 57 then Some (b - 48)
      else if 97 \<le> b \<and> b \<le> 102 then Some (b - 97 + 10)
      else if 65 \<le> b \<and> b \<le> 70 then Some (b - 65 + 10)
      else None)"

fun hex_value :: "nat \<Rightarrow> string \<Rightarrow> nat option" where
  "hex_value v [] = Some v"
| "hex_value v (c # s) = (case unhex c of None \<Rightarrow> None | Some x \<Rightarrow> hex_value (16 * v + x) s)"

definition octal :: "char \<Rightarrow> nat option" where
  "octal c = (if 48 \<le> byte c \<and> byte c \<le> 55 then Some (byte c - 48) else None)"

definition ValidRune :: "nat \<Rightarrow> bool" where
  "ValidRune r \<longleftrightarrow> r < 55296 \<or> (57343 < r \<and> r \<le> 1114111)"

text \<open>The escapes of one letter.\<close>

definition simple_escape :: "char \<Rightarrow> nat option" where
  "simple_escape c =
     (if c = CHR ''a'' then Some 7 else if c = CHR ''b'' then Some 8 else if c = CHR ''f'' then Some 12
      else if c = CHR ''n'' then Some 10 else if c = CHR ''r'' then Some 13 else if c = CHR ''t'' then Some 9
      else if c = CHR ''v'' then Some 11 else if c = backslash then Some 92 else None)"

text \<open>\<open>UnquoteChar\<close>: the value, whether it is a rune of several bytes, and the rest.\<close>

fun unescape :: "char \<Rightarrow> string \<Rightarrow> (nat \<times> bool \<times> string) option" where
  "unescape q [] = None"
| "unescape q (c # s) =
     (case simple_escape c of
        Some v \<Rightarrow> Some (v, False, s)
      | None \<Rightarrow>
          if c = CHR ''x'' \<or> c = CHR ''u'' \<or> c = CHR ''U'' then
            (let n = (if c = CHR ''x'' then 2 else if c = CHR ''u'' then 4 else 8) in
             if length s < n then None
             else (case hex_value 0 (take n s) of
                     None \<Rightarrow> None
                   | Some v \<Rightarrow>
                       if c = CHR ''x'' then Some (v, False, drop n s)
                       else if ValidRune v then Some (v, True, drop n s) else None))
          else (case octal c of
                  Some v \<Rightarrow>
                    (case s of
                       c1 # c2 # r \<Rightarrow>
                         (case (octal c1, octal c2) of
                            (Some x, Some y) \<Rightarrow> if 64 * v + 8 * x + y > 255 then None else Some (64 * v + 8 * x + y, False, r)
                          | _ \<Rightarrow> None)
                     | _ \<Rightarrow> None)
                | None \<Rightarrow> if (c = squote \<or> c = dquote) \<and> c = q then Some (byte c, False, s) else None))"

fun UnquoteChar :: "char \<Rightarrow> string \<Rightarrow> (nat \<times> bool \<times> string) option" where
  "UnquoteChar q [] = None"
| "UnquoteChar q (c # s) =
     (if c = q \<and> (q = squote \<or> q = dquote) then None
      else if byte c \<ge> 128 then Some (rune_at (c # s), True, drop (width_at (c # s)) (c # s))
      else if c \<noteq> backslash then Some (byte c, False, s)
      else unescape q s)"

lemma unescape_shorter: "unescape q s = Some (v, m, r) \<Longrightarrow> length r < length s"
  by (cases s) (auto simp: Let_def split: option.splits if_splits list.splits prod.splits)

lemma UnquoteChar_shorter: "UnquoteChar q s = Some (v, m, r) \<Longrightarrow> length r < length s"
proof (cases s)
  case (Cons c t)
  assume u: "UnquoteChar q s = Some (v, m, r)"
  show ?thesis
  proof (cases "byte c \<ge> 128")
    case True
    with u Cons have "r = drop (width_at s) s" by (auto split: if_splits)
    then show ?thesis using drop_width [of s] Cons by simp
  next
    case False
    then show ?thesis using u Cons unescape_shorter [of q t v m r] by (auto split: if_splits)
  qed
qed simp

text \<open>The loop over an interpreted literal: what it wrote, and the rest from where it stopped.\<close>

function unquote_loop :: "char \<Rightarrow> string \<Rightarrow> string \<Rightarrow> (string \<times> string) option" where
  "unquote_loop q s out =
     (if s = [] \<or> hd s = q then Some (out, s)
      else
        (case UnquoteChar q s of
           None \<Rightarrow> None
         | Some (r, multibyte, rem) \<Rightarrow>
             if hd s = CHR 0x0A then None
             else
               (let out = out @ (if r < 128 \<or> \<not> multibyte then [char_of r] else EncodeRune (int r))
                in if q = squote then Some (out, rem) else unquote_loop q rem out)))"
  by auto
termination by (relation "measure (\<lambda>(q, s, out). length s)") (auto dest: UnquoteChar_shorter)

declare unquote_loop.simps [simp del]

definition ValidString :: "string \<Rightarrow> bool" where
  "ValidString s \<longleftrightarrow> (\<forall>r \<in> set (runes s). \<not> bad_rune r)"

fun index_of :: "char \<Rightarrow> string \<Rightarrow> nat option" where
  "index_of c [] = None"
| "index_of c (d # s) = (if d = c then Some 0 else map_option Suc (index_of c s))"

definition strconv_Unquote :: "string \<Rightarrow> string option" where
  "strconv_Unquote s =
     (if length s < 2 then None
      else
        (let q = hd s in
         case index_of q (tl s) of
           None \<Rightarrow> None
         | Some i \<Rightarrow>
             (let body = take i (tl s); rem = drop (i + 2) s in
              if q = backquote then
                (if rem \<noteq> [] then None else Some (filter (\<lambda>c. c \<noteq> CHR 0x0D) body))
              else if q = dquote \<or> q = squote then
                (if backslash \<notin> set body \<and> CHR 0x0A \<notin> set body
                    \<and> (if q = dquote then ValidString body
                       else width_at body = length body \<and> \<not> bad_rune body)
                 then (if rem \<noteq> [] then None else Some body)
                 else
                   (case unquote_loop q (tl s) [] of
                      None \<Rightarrow> None
                    | Some (out, r) \<Rightarrow> if r \<noteq> [] \<and> hd r = q \<and> tl r = [] then Some out else None))
              else None)))"

end
