(* ===== verification/Go_Json.thy ===== *)
theory Go_Json
  imports Go_Quote
begin

section \<open>Decoding of JSON objects of strings\<close>

text \<open>
  \<open>encoding/json\<close> as far as decoding into a pointer to a struct of strings uses it: the tokens of a
  text, the grammar with its limit of nesting, the strings with their escapes, and what every member of
  the object at the top does to the struct.
\<close>

subsection \<open>Tokens\<close>

datatype token =
    LBrace | RBrace | LBrack | RBrack | Colon | Comma
  | Str string | Num | Word_true | Word_false | Word_null

text \<open>
  The body of a string up to its quote, as it is written; a control character and an escape JSON does
  not have are errors.
\<close>

definition json_escape :: "char \<Rightarrow> bool" where
  "json_escape c \<longleftrightarrow> c \<in> set [dquote, backslash, CHR ''/'', CHR ''b'', CHR ''f'', CHR ''n'', CHR ''r'', CHR ''t'']"

fun scan_string :: "string \<Rightarrow> (string \<times> string) option" where
  "scan_string [] = None"
| "scan_string (c # s) =
     (if c = dquote then Some ([], s)
      else if byte c < 32 then None
      else if c = backslash then
        (case s of
           [] \<Rightarrow> None
         | e # s1 \<Rightarrow>
             if json_escape e then (case scan_string s1 of None \<Rightarrow> None | Some (b, r) \<Rightarrow> Some (c # e # b, r))
             else if e = CHR ''u'' then
               (case s1 of
                  h1 # h2 # h3 # h4 # s2 \<Rightarrow>
                    if list_all (\<lambda>h. unhex h \<noteq> None) [h1, h2, h3, h4]
                    then (case scan_string s2 of
                            None \<Rightarrow> None | Some (b, r) \<Rightarrow> Some (c # e # h1 # h2 # h3 # h4 # b, r))
                    else None
                | _ \<Rightarrow> None)
             else None)
      else (case scan_string s of None \<Rightarrow> None | Some (b, r) \<Rightarrow> Some (c # b, r)))"

text \<open>Numbers: sign, integer, fraction, exponent.\<close>

definition scan_digits :: "string \<Rightarrow> string option" where
  "scan_digits s = (if s \<noteq> [] \<and> is_digit (hd s) then Some (dropWhile is_digit s) else None)"

definition scan_int :: "string \<Rightarrow> string option" where
  "scan_int s = (case s of c # r \<Rightarrow> if c = CHR ''0'' then Some r else scan_digits s | [] \<Rightarrow> None)"

definition scan_frac :: "string \<Rightarrow> string option" where
  "scan_frac s = (case s of c # r \<Rightarrow> if c = CHR ''.'' then scan_digits r else Some s | [] \<Rightarrow> Some s)"

definition scan_exp :: "string \<Rightarrow> string option" where
  "scan_exp s =
     (case s of
        c # r \<Rightarrow>
          if c = CHR ''e'' \<or> c = CHR ''E'' then
            (case r of
               d # r1 \<Rightarrow> if d = CHR ''+'' \<or> d = CHR ''-'' then scan_digits r1 else scan_digits r
             | [] \<Rightarrow> None)
          else Some s
      | [] \<Rightarrow> Some s)"

definition scan_number :: "string \<Rightarrow> string option" where
  "scan_number s =
     (let s = (case s of c # r \<Rightarrow> if c = CHR ''-'' then r else s | [] \<Rightarrow> s)
      in Option.bind (Option.bind (scan_int s) scan_frac) scan_exp)"

definition json_space :: "char \<Rightarrow> bool" where
  "json_space c \<longleftrightarrow> c = CHR '' '' \<or> c = CHR 0x09 \<or> c = CHR 0x0D \<or> c = CHR 0x0A"

definition punctuation :: "char \<Rightarrow> token option" where
  "punctuation c =
     (if c = CHR 0x7B then Some LBrace else if c = CHR 0x7D then Some RBrace
      else if c = CHR 0x5B then Some LBrack else if c = CHR 0x5D then Some RBrack
      else if c = CHR '':'' then Some Colon else if c = CHR '','' then Some Comma else None)"

text \<open>The next token and the rest; spaces are skipped before.\<close>

definition scan_token :: "string \<Rightarrow> (token \<times> string) option" where
  "scan_token s =
     (case s of
        [] \<Rightarrow> None
      | c # r \<Rightarrow>
          (case punctuation c of
             Some t \<Rightarrow> Some (t, r)
           | None \<Rightarrow>
               if c = dquote then map_option (\<lambda>(b, r). (Str b, r)) (scan_string r)
               else if HasPrefix s ''true'' then Some (Word_true, drop 4 s)
               else if HasPrefix s ''false'' then Some (Word_false, drop 5 s)
               else if HasPrefix s ''null'' then Some (Word_null, drop 4 s)
               else map_option (\<lambda>r. (Num, r)) (scan_number s)))"

lemma scan_string_shorter: "scan_string s = Some (b, r) \<Longrightarrow> length r < length s"
proof (induction "length s" arbitrary: s b r rule: less_induct)
  case less
  show ?case
  proof (cases s)
    case (Cons c t)
    have ih: "scan_string u = Some (b, r) \<Longrightarrow> length u < length s \<Longrightarrow> length r < length u" for u b r
      using less.hyps by blast
    show ?thesis
      using less.prems Cons
      by (auto split: if_splits list.splits option.splits dest!: ih)
  qed (use less.prems in simp)
qed

lemma scan_digits_shorter: "scan_digits s = Some r \<Longrightarrow> length r < length s"
proof (cases s)
  case (Cons c t)
  assume "scan_digits s = Some r"
  then have "r = dropWhile is_digit t" using Cons by (auto simp: scan_digits_def split: if_splits)
  then show ?thesis using Cons length_dropWhile_le [of is_digit t] by simp
qed (simp add: scan_digits_def)

lemma scan_number_shorter: "scan_number s = Some r \<Longrightarrow> length r < length s"
proof -
  have i: "scan_int s = Some r \<Longrightarrow> length r < length s" for s r
    by (auto simp: scan_int_def split: list.splits if_splits dest: scan_digits_shorter)
  have f: "scan_frac s = Some r \<Longrightarrow> length r \<le> length s" for s r
    by (auto simp: scan_frac_def split: list.splits if_splits dest!: scan_digits_shorter)
  have e: "scan_exp s = Some r \<Longrightarrow> length r \<le> length s" for s r
    by (auto simp: scan_exp_def split: list.splits if_splits dest!: scan_digits_shorter)
  assume "scan_number s = Some r"
  then obtain a b u where "length u \<le> length s" "scan_int u = Some a" "scan_frac a = Some b" "scan_exp b = Some r"
    by (auto simp: scan_number_def Let_def bind_eq_Some_conv split: list.splits if_splits)
      (metis le_Suc_eq length_Cons order_refl)+
  with i [of u a] f [of a b] e [of b r] show ?thesis by simp
qed

lemma scan_token_shorter: "scan_token s = Some (t, r) \<Longrightarrow> length r < length s"
  by (auto simp: scan_token_def HasPrefix_iff split: list.splits option.splits if_splits
      dest!: scan_string_shorter scan_number_shorter)

function tokens :: "string \<Rightarrow> token list option" where
  "tokens s =
     (let s = dropWhile json_space s in
      if s = [] then Some []
      else (case scan_token s of
              None \<Rightarrow> None
            | Some (t, r) \<Rightarrow> map_option ((#) t) (tokens r)))"
  by auto
termination
  by (relation "measure length") (auto dest!: scan_token_shorter intro: less_le_trans length_dropWhile_le)

declare tokens.simps [simp del]

subsection \<open>The grammar\<close>

text \<open>
  What may come next, and the open objects (true) and arrays; at most 10000 may be open. Recorded are the
  members of the object at the top: their keys and what kind of value they have.
\<close>

datatype expects = Value | Value_or_end | Key | Key_or_end | Key_colon | After

datatype member_value = Member_string string | Member_null | Member_other

definition maxNestingDepth :: nat where
  "maxNestingDepth = 10000"

definition push :: "bool \<Rightarrow> expects \<Rightarrow> bool list \<Rightarrow> (expects \<times> bool list) option" where
  "push b e st = (if length st < maxNestingDepth then Some (e, b # st) else None)"

definition value_step :: "token \<Rightarrow> bool list \<Rightarrow> (expects \<times> bool list) option" where
  "value_step t st =
     (case t of
        LBrace \<Rightarrow> push True Key_or_end st
      | LBrack \<Rightarrow> push False Value_or_end st
      | Str b \<Rightarrow> Some (After, st) | Num \<Rightarrow> Some (After, st)
      | Word_true \<Rightarrow> Some (After, st) | Word_false \<Rightarrow> Some (After, st) | Word_null \<Rightarrow> Some (After, st)
      | _ \<Rightarrow> None)"

definition key_step :: "token \<Rightarrow> bool list \<Rightarrow> (expects \<times> bool list) option" where
  "key_step t st = (case t of Str k \<Rightarrow> Some (Key_colon, st) | _ \<Rightarrow> None)"

fun parse_step :: "token \<Rightarrow> expects \<Rightarrow> bool list \<Rightarrow> (expects \<times> bool list) option" where
  "parse_step t Value st = value_step t st"
| "parse_step t Value_or_end st = (if t = RBrack then Some (After, tl st) else value_step t st)"
| "parse_step t Key st = key_step t st"
| "parse_step t Key_or_end st = (if t = RBrace then Some (After, tl st) else key_step t st)"
| "parse_step t Key_colon st = (if t = Colon then Some (Value, st) else None)"
| "parse_step t After st =
     (case st of
        [] \<Rightarrow> None
      | obj # st' \<Rightarrow>
          if t = Comma then Some (if obj then Key else Value, st)
          else if t = (if obj then RBrace else RBrack) then Some (After, st')
          else None)"

fun value_of :: "token \<Rightarrow> member_value" where
  "value_of (Str b) = Member_string b"
| "value_of Word_null = Member_null"
| "value_of _ = Member_other"

fun parse_loop :: "token list \<Rightarrow> expects \<Rightarrow> bool list \<Rightarrow> string \<Rightarrow> (string \<times> member_value) list option" where
  "parse_loop [] e st key = (if e = After \<and> st = [] then Some [] else None)"
| "parse_loop (t # ts) e st key =
     (case parse_step t e st of
        None \<Rightarrow> None
      | Some (e', st') \<Rightarrow>
          (let key' = (case t of Str b \<Rightarrow> if e' = Key_colon \<and> st = [True] then b else key | _ \<Rightarrow> key);
               rest = parse_loop ts e' st' key'
           in if e = Value \<and> st = [True] then map_option ((#) (key, value_of t)) rest else rest))"

subsection \<open>Strings\<close>

text \<open>\<open>\\uXXXX\<close> at the front, and the runes two of them may make together.\<close>

fun getu4 :: "string \<Rightarrow> nat option" where
  "getu4 (b # u # h1 # h2 # h3 # h4 # s) =
     (if b = backslash \<and> u = CHR ''u'' then hex_value 0 [h1, h2, h3, h4] else None)"
| "getu4 _ = None"

definition IsSurrogate :: "nat \<Rightarrow> bool" where
  "IsSurrogate r \<longleftrightarrow> 0xD800 \<le> r \<and> r < 0xE000"

definition utf16_DecodeRune :: "nat \<Rightarrow> nat option \<Rightarrow> nat option" where
  "utf16_DecodeRune r1 o2 =
     (case o2 of
        None \<Rightarrow> None
      | Some r2 \<Rightarrow>
          if r1 < 0xDC00 \<and> 0xDC00 \<le> r2 \<and> r2 < 0xE000
          then Some ((r1 - 0xD800) * 1024 + (r2 - 0xDC00) + 0x10000) else None)"

definition escape_value :: "char \<Rightarrow> nat" where
  "escape_value e =
     (if e = CHR ''b'' then 8 else if e = CHR ''f'' then 12 else if e = CHR ''n'' then 10
      else if e = CHR ''r'' then 13 else if e = CHR ''t'' then 9 else byte e)"

lemma width_Cons: "Suc (length s) - width_at (c # s) \<le> length s"
  using width_pos [of "c # s"] by (simp del: DecodeRune.simps)

function json_unquote :: "string \<Rightarrow> string" where
  "json_unquote [] = []"
| "json_unquote (c # s) =
     (if c = backslash then
        (case s of
           [] \<Rightarrow> []
         | e # r \<Rightarrow>
             if e = CHR ''u'' then
               (case getu4 (c # s) of
                  None \<Rightarrow> []
                | Some rr \<Rightarrow>
                    if IsSurrogate rr then
                      (case utf16_DecodeRune rr (getu4 (drop 5 s)) of
                         Some d \<Rightarrow> EncodeRune (int d) @ json_unquote (drop 11 s)
                       | None \<Rightarrow> EncodeRune (int RuneError) @ json_unquote (drop 5 s))
                    else EncodeRune (int rr) @ json_unquote (drop 5 s))
             else char_of (escape_value e) # json_unquote r)
      else if byte c < 128 then c # json_unquote s
      else EncodeRune (int (rune_at (c # s))) @ json_unquote (drop (width_at (c # s)) (c # s)))"
  by pat_completeness auto
termination
  by (relation "measure length") (auto simp: width_Cons less_Suc_eq_le simp del: DecodeRune.simps)

declare json_unquote.simps(2) [simp del]

subsection \<open>Decoding into a struct\<close>

text \<open>
  Keys find their field without regard to case. (The letters k and s, which other letters than their
  own upper case fold to, occur in no field name here.)
\<close>

definition to_lower :: "char \<Rightarrow> char" where
  "to_lower c = (if 65 \<le> byte c \<and> byte c \<le> 90 then char_of (byte c + 32) else c)"

definition field_of :: "string list \<Rightarrow> string \<Rightarrow> string option" where
  "field_of fields key = List.find (\<lambda>f. map to_lower f = map to_lower key) fields"

datatype json_error = SyntaxError | UnmarshalTypeError

text \<open>The fields, and whether a member did not fit; later members overwrite earlier ones.\<close>

definition assign :: "string list \<Rightarrow> string \<times> member_value \<Rightarrow> (string \<Rightarrow> string) \<times> bool \<Rightarrow> (string \<Rightarrow> string) \<times> bool" where
  "assign fields m v =
     (case field_of fields (json_unquote (fst m)) of
        None \<Rightarrow> v
      | Some f \<Rightarrow>
          (case snd m of
             Member_string b \<Rightarrow> ((fst v)(f := json_unquote b), snd v)
           | Member_null \<Rightarrow> v
           | Member_other \<Rightarrow> (fst v, True)))"

definition Unmarshal :: "string list \<Rightarrow> string \<Rightarrow> json_error + (string \<Rightarrow> string) option" where
  "Unmarshal fields data =
     (case tokens data of
        None \<Rightarrow> Inl SyntaxError
      | Some ts \<Rightarrow>
          (case parse_loop ts Value [] [] of
             None \<Rightarrow> Inl SyntaxError
           | Some ms \<Rightarrow>
               if hd ts = Word_null then Inr None
               else if hd ts = LBrace then
                 (case fold (assign fields) ms (\<lambda>f. [], False) of
                    (v, failed) \<Rightarrow> if failed then Inl UnmarshalTypeError else Inr (Some v))
               else Inl UnmarshalTypeError))"

subsection \<open>What is written as JSON is read back\<close>

text \<open>A writer of strings: quotes, backslashes and control characters are escaped.\<close>

definition hexdigit :: "nat \<Rightarrow> char" where
  "hexdigit n = ''0123456789abcdef'' ! n"

definition json_char :: "char \<Rightarrow> string" where
  "json_char c =
     (if c = dquote \<or> c = backslash then [backslash, c]
      else if byte c < 32 then [backslash, CHR ''u'', CHR ''0'', CHR ''0'', hexdigit (byte c div 16), hexdigit (byte c mod 16)]
      else [c])"

definition json_body :: "string \<Rightarrow> string" where
  "json_body s = concat (map json_char s)"

definition json_string :: "string \<Rightarrow> string" where
  "json_string s = dquote # json_body s @ [dquote]"

lemma json_body_simps [simp]:
  "json_body [] = []" "json_body (c # s) = json_char c @ json_body s" "json_body (s @ t) = json_body s @ json_body t"
  by (simp_all add: json_body_def)

lemma unhex_hexdigit: "n < 16 \<Longrightarrow> unhex (hexdigit n) = Some n"
proof -
  have "\<forall>n \<in> set [0..<16]. unhex (hexdigit n) = Some n" by (simp add: hexdigit_def unhex_def upt_rec)
  then show "n < 16 \<Longrightarrow> ?thesis" by simp
qed

lemma control_char:
  assumes "byte c < 32"
  shows "unhex (hexdigit (byte c div 16)) = Some (byte c div 16)"
    "unhex (hexdigit (byte c mod 16)) = Some (byte c mod 16)" "c \<noteq> backslash" "c \<noteq> dquote"
proof -
  have "byte c div 16 < 16" using assms by simp
  then show "unhex (hexdigit (byte c div 16)) = Some (byte c div 16)" by (rule unhex_hexdigit)
qed (use assms in \<open>auto intro!: unhex_hexdigit\<close>)

lemma unhex_zero: "unhex CHR ''0'' = Some 0"
  by (simp add: unhex_def)

lemma json_char_cases:
  obtains (quoted) "c = dquote \<or> c = backslash" "json_char c = [backslash, c]"
  | (control) "byte c < 32"
      "json_char c = [backslash, CHR ''u'', CHR ''0'', CHR ''0'', hexdigit (byte c div 16), hexdigit (byte c mod 16)]"
  | (plain) "c \<noteq> dquote" "c \<noteq> backslash" "\<not> byte c < 32" "json_char c = [c]"
  by (cases "c = dquote \<or> c = backslash"; cases "byte c < 32"; simp add: json_char_def)

lemma scan_json_char:
  "scan_string (json_char c @ s) = map_option (\<lambda>(b, r). (json_char c @ b, r)) (scan_string s)"
proof (cases c rule: json_char_cases)
  case quoted
  then show ?thesis by (auto simp: json_escape_def split: option.splits)
next
  case control
  then show ?thesis using control_char(1,2) [OF control(1)] by (simp add: json_escape_def unhex_zero split: option.splits)
next
  case plain
  then show ?thesis by (simp split: option.splits)
qed

lemma scan_json_body: "scan_string (json_body s @ dquote # r) = Some (json_body s, r)"
  by (induction s) (simp_all add: scan_json_char del: scan_string.simps, simp)

lemma unquote_ascii:
  assumes "byte c < 128"
  shows "json_unquote (json_char c @ s) = c # json_unquote s"
proof (cases c rule: json_char_cases)
  case quoted
  then show ?thesis by (auto simp: json_unquote.simps escape_value_def)
next
  case control
  have "16 * (byte c div 16) + byte c mod 16 = byte c" by simp
  moreover have "\<not> IsSurrogate (byte c)" "EncodeRune (int (byte c)) = [c]"
    using assms by (simp_all add: IsSurrogate_def Encode_1)
  ultimately show ?thesis
    using control control_char(1,2) [OF control(1)] by (simp add: json_unquote.simps(2) unhex_zero del: mult_div_mod_eq)
next
  case plain
  then show ?thesis using assms by (simp add: json_unquote.simps)
qed

text \<open>A rune of several bytes is copied.\<close>

lemma multibyte:
  assumes "s \<noteq> []" "\<not> bad_rune s" "\<not> byte (hd s) < 128"
  shows "\<forall>c \<in> set (take (width_at s) s). \<not> byte c < 128" and "DecodeRune (take (width_at s) s @ t) = DecodeRune s"
proof -
  from assms(1,2) have "(\<forall>c \<in> set (take (width_at s) s). \<not> byte c < 128) \<and> DecodeRune (take (width_at s) s @ t) = DecodeRune s"
  proof (cases rule: DecodeRune_cases)
    case (one c u)
    with assms(3) show ?thesis by simp
  next
    case (two c c1 u)
    then have t: "take (width_at s) s = [c, c1]" by simp
    show ?thesis unfolding t using two by (simp add: cont_def)
  next
    case (three c c1 c2 u)
    then have t: "take (width_at s) s = [c, c1, c2]" by simp
    have "128 \<le> fst (lead3 (byte c))" by (simp add: lead3_def)
    then show ?thesis unfolding t using three by (simp add: cont_def)
  next
    case (four c c1 c2 c3 u)
    then have t: "take (width_at s) s = [c, c1, c2, c3]" by simp
    have "128 \<le> fst (lead4 (byte c))" by (simp add: lead4_def)
    then show ?thesis unfolding t using four by (simp add: cont_def)
  qed
  then show "\<forall>c \<in> set (take (width_at s) s). \<not> byte c < 128" "DecodeRune (take (width_at s) s @ t) = DecodeRune s"
    by blast+
qed

lemma json_body_high: "\<forall>c \<in> set s. \<not> byte c < 128 \<Longrightarrow> json_body s = s"
  by (induction s) (auto simp: json_char_def)

lemma ValidString_unfold:
  "ValidString s \<longleftrightarrow> s = [] \<or> \<not> bad_rune s \<and> ValidString (drop (width_at s) s)"
  by (cases "s = []") (auto simp: ValidString_def runes.simps [of s] bad_rune_prefix runes.simps [of "[]"])

lemma json_unquote_high:
  assumes "s \<noteq> []" "\<not> byte (hd s) < 128"
  shows "json_unquote s = EncodeRune (int (rune_at s)) @ json_unquote (drop (width_at s) s)"
proof (cases s)
  case (Cons c t)
  with assms have "c \<noteq> backslash" by auto
  then show ?thesis using assms Cons by (simp add: json_unquote.simps(2) del: DecodeRune.simps)
qed (use assms in simp)

lemma unquote_body: "ValidString s \<Longrightarrow> json_unquote (json_body s) = s"
proof (induction s rule: runes.induct)
  case (1 s)
  show ?case
  proof (cases "s = []")
    case False
    let ?w = "width_at s"
    have v: "\<not> bad_rune s" "ValidString (drop ?w s)" using 1(2) ValidString_unfold False by blast+
    have ih: "json_unquote (json_body (drop ?w s)) = drop ?w s" by (rule 1(1) [OF False v(2)])
    show ?thesis
    proof (cases "byte (hd s) < 128")
      case True
      obtain c t where s: "s = c # t" using False by (cases s) auto
      with True have "?w = 1" by simp
      then show ?thesis using ih s True unquote_ascii [of c "json_body t"] by simp
    next
      case high: False
      let ?x = "take ?w s @ json_body (drop ?w s)"
      note m = multibyte [OF False v(1) high]
      have "json_body s = json_body (take ?w s) @ json_body (drop ?w s)"
        by (metis append_take_drop_id json_body_simps(3))
      then have b: "json_body s = ?x" using json_body_high [OF m(1)] by simp
      have d: "DecodeRune ?x = DecodeRune s" by (rule m(2))
      have w: "length (take ?w s) = ?w" using width_le [of s] by simp
      have "0 < ?w" by (rule width_pos [OF False])
      then have x: "?x \<noteq> []" "hd ?x = hd s" using False by (cases s; simp add: take_Cons')+
      have "json_unquote ?x = EncodeRune (int (rune_at s)) @ json_unquote (json_body (drop ?w s))"
        using json_unquote_high [OF x(1)] x(2) high w unfolding d by simp
      then show ?thesis using b ih Encode_Decode [OF False v(1)] by simp
    qed
  qed simp
qed

lemma tokens_step:
  assumes "scan_token s = Some (t, r)" "s \<noteq> []" "\<not> json_space (hd s)"
  shows "tokens s = map_option ((#) t) (tokens r)"
proof -
  have "dropWhile json_space s = s" using assms(2,3) by (cases s) auto
  then show ?thesis using assms(1,2) by (subst tokens.simps) simp
qed

lemma tokens_punctuation: "punctuation c = Some t \<Longrightarrow> tokens (c # r) = map_option ((#) t) (tokens r)"
  by (rule tokens_step) (auto simp: scan_token_def json_space_def punctuation_def split: if_splits)

lemma tokens_string: "tokens (json_string s @ r) = map_option ((#) (Str (json_body s))) (tokens r)"
proof (rule tokens_step)
  show "scan_token (json_string s @ r) = Some (Str (json_body s), r)"
    using scan_json_body [of s r] by (simp add: scan_token_def json_string_def punctuation_def)
qed (simp_all add: json_string_def json_space_def)

text \<open>An object of strings.\<close>

fun json_members :: "(string \<times> string) list \<Rightarrow> string" where
  "json_members [] = ''}''"
| "json_members [(k, v)] = json_string k @ '':'' @ json_string v @ ''}''"
| "json_members ((k, v) # m # ms) = json_string k @ '':'' @ json_string v @ '','' @ json_members (m # ms)"

definition json_object :: "(string \<times> string) list \<Rightarrow> string" where
  "json_object ms = ''{'' @ json_members ms"

definition member_tokens :: "string \<times> string \<Rightarrow> token list" where
  "member_tokens m = [Str (json_body (fst m)), Colon, Str (json_body (snd m))]"

fun members_tokens :: "(string \<times> string) list \<Rightarrow> token list" where
  "members_tokens [] = [RBrace]"
| "members_tokens [m] = member_tokens m @ [RBrace]"
| "members_tokens (m # n # ms) = member_tokens m @ Comma # members_tokens (n # ms)"

lemma tokens_end: "tokens [] = Some []"
  by (simp add: tokens.simps)

lemma tokens_members: "tokens (json_members ms) = Some (members_tokens ms)"
  by (induction ms rule: json_members.induct)
    (simp_all add: tokens_punctuation tokens_string punctuation_def tokens_end member_tokens_def)

lemma parse_members:
  "ms \<noteq> [] \<Longrightarrow> e = Key \<or> e = Key_or_end \<Longrightarrow> parse_loop (members_tokens ms) e [True] key
     = Some (map (\<lambda>m. (json_body (fst m), Member_string (json_body (snd m)))) ms)"
  by (induction ms arbitrary: e key rule: members_tokens.induct)
    (auto simp: member_tokens_def key_step_def value_step_def)

definition written :: "string \<times> string \<Rightarrow> string \<times> member_value" where
  "written m = (json_body (fst m), Member_string (json_body (snd m)))"

lemma parse_object:
  "tokens (json_object ms) = Some (LBrace # members_tokens ms)"
  "parse_loop (LBrace # members_tokens ms) Value [] [] = Some (map written ms)"
proof -
  show "tokens (json_object ms) = Some (LBrace # members_tokens ms)"
    by (simp add: json_object_def tokens_punctuation punctuation_def tokens_members)
  show "parse_loop (LBrace # members_tokens ms) Value [] [] = Some (map written ms)"
  proof (cases ms)
    case Nil
    then show ?thesis by (simp add: value_step_def push_def maxNestingDepth_def)
  next
    case (Cons m n)
    have "parse_loop (members_tokens ms) Key_or_end [True] [] = Some (map written ms)"
      unfolding written_def by (rule parse_members) (use Cons in auto)
    then show ?thesis by (simp add: value_step_def push_def maxNestingDepth_def)
  qed
qed

text \<open>Every member goes to its field, in order.\<close>

definition put :: "string list \<Rightarrow> string \<times> string \<Rightarrow> (string \<Rightarrow> string) \<Rightarrow> (string \<Rightarrow> string)" where
  "put fields m v = (case field_of fields (fst m) of None \<Rightarrow> v | Some f \<Rightarrow> v(f := snd m))"

lemma assign_written:
  "ValidString (fst m) \<Longrightarrow> ValidString (snd m) \<Longrightarrow> assign fields (written m) (v, failed) = (put fields m v, failed)"
  by (simp add: assign_def put_def written_def unquote_body split: option.splits)

theorem Unmarshal_object:
  assumes "\<forall>m \<in> set ms. ValidString (fst m) \<and> ValidString (snd m)"
  shows "Unmarshal fields (json_object ms) = Inr (Some (fold (put fields) ms (\<lambda>f. [])))"
proof -
  have "fold (assign fields) (map written ms) (v, False) = (fold (put fields) ms v, False)" for v
    using assms by (induction ms arbitrary: v) (simp_all add: assign_written)
  then show ?thesis by (simp add: Unmarshal_def parse_object del: parse_loop.simps)
qed

lemma ValidString_ascii: "\<forall>c \<in> set s. byte c < 128 \<Longrightarrow> ValidString s"
proof (induction s)
  case (Cons c s)
  then show ?case by (subst ValidString_unfold) (simp add: bad_rune_def RuneError_def)
qed (simp add: ValidString_def runes.simps)

text \<open>The pointer stays nil exactly for the text \<open>null\<close>.\<close>

lemma Unmarshal_null: "Unmarshal fields data = Inr None \<longleftrightarrow> tokens data = Some [Word_null]"
proof
  assume "Unmarshal fields data = Inr None"
  then obtain ts ms where t: "tokens data = Some ts" "parse_loop ts Value [] [] = Some ms" "hd ts = Word_null"
    by (auto simp: Unmarshal_def split: option.splits if_splits prod.splits)
  then obtain us where u: "ts = Word_null # us" by (cases ts) auto
  with t(2) have "parse_loop us After [] [] \<noteq> None" by (auto simp: value_step_def)
  then have "us = []" by (cases us) auto
  with t u show "tokens data = Some [Word_null]" by simp
qed (simp add: Unmarshal_def value_step_def)

end
