(* ===== verification/Kit_Errors.thy ===== *)
theory Kit_Errors
  imports Go_Errors Go_Json
begin

section \<open>Package kit: errors\<close>

text \<open>
  Models \<open>errors.go\<close>. An error value is a \<open>goerror\<close>, a nil interface \<open>None\<close>; the message of an error
  of other code is a parameter. An aggregate that contains itself has no value here (its methods
  would not return). Every method holds the lock of its aggregate, so concurrent calls act in some
  order, as sequences of calls.
\<close>

subsection \<open>AggregateError\<close>

text \<open>Its identity and its slice, which is nil in the zero value.\<close>

record AggregateError =
  agg_id :: nat
  Errors :: "goerror list option"

definition agg_errors :: "AggregateError \<Rightarrow> goerror list" where
  "agg_errors a = (case Errors a of None \<Rightarrow> [] | Some es \<Rightarrow> es)"

definition Aggregate_Error :: "(goerror \<Rightarrow> string) \<Rightarrow> AggregateError \<Rightarrow> string" where
  "Aggregate_Error Error a =
     (if agg_errors a = [] then [] else Join (map Error (agg_errors a)) ''; '')"

definition Aggregate_Unwrap :: "AggregateError \<Rightarrow> goerror list option" where
  "Aggregate_Unwrap a = (if agg_errors a = [] then None else Errors a)"

fun is_loop :: "goerror list \<Rightarrow> goerror \<Rightarrow> bool" where
  "is_loop [] target = False"
| "is_loop (e # es) target = (if errors_Is e target then True else is_loop es target)"

definition Aggregate_Is :: "AggregateError \<Rightarrow> goerror \<Rightarrow> bool" where
  "Aggregate_Is a target = is_loop (agg_errors a) target"

fun as_loop :: "goerror list \<Rightarrow> (errkind \<Rightarrow> 'a option) \<Rightarrow> 'a option" where
  "as_loop [] target = None"
| "as_loop (e # es) target = (case errors_As target e of Some x \<Rightarrow> Some x | None \<Rightarrow> as_loop es target)"

definition Aggregate_As :: "AggregateError \<Rightarrow> (errkind \<Rightarrow> 'a option) \<Rightarrow> 'a option" where
  "Aggregate_As a target = as_loop (agg_errors a) target"

text \<open>\<open>Join\<close>: the pointer it returns (nil is \<open>None\<close>) and the aggregate after the call.\<close>

fun join_loop :: "goerror option list \<Rightarrow> goerror list \<Rightarrow> goerror list" where
  "join_loop [] es = es"
| "join_loop (err # errs) es = join_loop errs (case err of None \<Rightarrow> es | Some e \<Rightarrow> es @ [e])"

definition Aggregate_Join :: "goerror option list \<Rightarrow> AggregateError \<Rightarrow> nat option \<times> AggregateError" where
  "Aggregate_Join errs a =
     (let a = (if Errors a = None then a\<lparr>Errors := Some []\<rparr> else a);
          a = a\<lparr>Errors := Some (join_loop errs (agg_errors a))\<rparr>
      in if agg_errors a = [] then (None, a) else (Some (agg_id a), a))"

definition NewAggregateError :: "nat \<Rightarrow> goerror option list \<Rightarrow> AggregateError option" where
  "NewAggregateError p errs =
     (case Aggregate_Join errs \<lparr>agg_id = p, Errors = None\<rparr> of
        (None, a) \<Rightarrow> None
      | (Some q, a) \<Rightarrow> Some a)"

text \<open>The aggregate as an error value, as it is when the call is made.\<close>

definition agg_error :: "AggregateError \<Rightarrow> goerror" where
  "agg_error a = GoError (Aggregate (agg_id a)) (agg_errors a)"

subsection \<open>ErrorResponse and MatrixError\<close>

definition ErrUnknown :: goerror where
  "ErrUnknown = sentinel ''unknown error''"

record ErrorResponse =
  StatusCode :: int
  Response_Err :: string
  Response_err :: "goerror option"

definition Response_Error :: "ErrorResponse \<Rightarrow> string" where
  "Response_Error e = Response_Err e"

definition Response_Unwrap :: "ErrorResponse \<Rightarrow> goerror option" where
  "Response_Unwrap e = Response_err e"

definition NewErrorResponse :: "(goerror \<Rightarrow> string) \<Rightarrow> goerror option \<Rightarrow> int list \<Rightarrow> ErrorResponse" where
  "NewErrorResponse Error err optionalStatusCode =
     (let statusCode = (case optionalStatusCode of [] \<Rightarrow> 400 | c # cs \<Rightarrow> if c > 0 then c else 400)
      in case err of
           None \<Rightarrow> \<lparr>StatusCode = statusCode, Response_Err = ''unknown error'', Response_err = None\<rparr>
         | Some e \<Rightarrow> \<lparr>StatusCode = statusCode, Response_Err = Error e, Response_err = Some e\<rparr>)"

definition response_error :: "nat \<Rightarrow> ErrorResponse \<Rightarrow> goerror" where
  "response_error p e = GoError (Response (StatusCode e) (Response_Err e) p) (case Response_Unwrap e of None \<Rightarrow> [] | Some x \<Rightarrow> [x])"

record MatrixError =
  Code :: string
  Matrix_Err :: string

definition Matrix_Error :: "MatrixError \<Rightarrow> string" where
  "Matrix_Error e = Matrix_Err e"

definition NewMatrixError :: "string \<Rightarrow> string \<Rightarrow> MatrixError" where
  "NewMatrixError code err = \<lparr>Code = code, Matrix_Err = err\<rparr>"

definition maxMatrixErrorBody :: nat where
  "maxMatrixErrorBody = 64 * 2 ^ 10"

text \<open>The JSON names of the fields, and the struct with the fields decoding has set.\<close>

definition matrix_fields :: "string list" where
  "matrix_fields = [''errcode'', ''error'']"

definition matrix_of :: "(string \<Rightarrow> string) \<Rightarrow> MatrixError" where
  "matrix_of v = \<lparr>Code = v ''errcode'', Matrix_Err = v ''error''\<rparr>"

text \<open>
  The reader is nil or the bytes it gives before it ends or fails. The parameter prints the message for a body that
  cannot be decoded.
\<close>

definition MatrixErrorFrom :: "(string \<Rightarrow> json_error \<Rightarrow> string) \<Rightarrow> string option \<Rightarrow> MatrixError option" where
  "MatrixErrorFrom report r =
     (case r of
        None \<Rightarrow> None
      | Some body \<Rightarrow>
          (let data = take maxMatrixErrorBody body
           in case Unmarshal matrix_fields data of
                Inl err \<Rightarrow> Some (NewMatrixError ''M_UNKNOWN'' (report data err))
              | Inr matrixErr \<Rightarrow> map_option matrix_of matrixErr))"

definition IsContextError :: "goerror option \<Rightarrow> bool" where
  "IsContextError err =
     (case err of None \<Rightarrow> False | Some e \<Rightarrow> errors_Is e ctx_Canceled \<or> errors_Is e ctx_DeadlineExceeded)"

subsection \<open>What they promise\<close>

lemma is_loop_ex: "is_loop es t \<longleftrightarrow> (\<exists>e \<in> set es. errors_Is e t)"
  by (induction es) auto

lemma as_loop_first: "as_loop es f = first_some (errors_As f) es"
  by (induction es) (auto split: option.splits)

lemma join_loop_append: "join_loop errs es = es @ List.map_filter (\<lambda>e. e) errs"
  by (induction errs arbitrary: es) (auto simp: map_filter_simps split: option.splits)

lemma Join_errors: "agg_errors (snd (Aggregate_Join errs a)) = agg_errors a @ List.map_filter (\<lambda>e. e) errs"
  by (auto simp: Aggregate_Join_def agg_errors_def join_loop_append Let_def split: option.splits)

lemma Join_id: "agg_id (snd (Aggregate_Join errs a)) = agg_id a"
  by (simp add: Aggregate_Join_def Let_def)

lemma Join_result:
  "fst (Aggregate_Join errs a) = (if agg_errors (snd (Aggregate_Join errs a)) = [] then None else Some (agg_id a))"
  by (simp add: Aggregate_Join_def Let_def)

text \<open>The methods of an aggregate are what the chain of its error value gives.\<close>

lemma Aggregate_Is_chain: "errors_Is (agg_error a) t \<longleftrightarrow> t = agg_error a \<or> Aggregate_Is a t"
  by (auto simp: agg_error_def Aggregate_Is_def is_loop_ex list_ex_iff)

lemma first_some_As: "first_some (errors_As f) es = first_some (\<lambda>x. f (kind x)) (concat (map chain es))"
  by (induction es) (auto simp: first_some_append errors_As_chain split: option.splits)

lemma Aggregate_As_chain: "(\<And>p. f (Aggregate p) = None) \<Longrightarrow> errors_As f (agg_error a) = Aggregate_As a f"
  by (simp add: agg_error_def Aggregate_As_def as_loop_first first_some_As errors_As_chain del: errors_As.simps)

definition join_all :: "goerror option list list \<Rightarrow> AggregateError \<Rightarrow> AggregateError" where
  "join_all calls a = fold (\<lambda>errs a. snd (Aggregate_Join errs a)) calls a"

lemma join_all_errors: "agg_errors (join_all calls a) = agg_errors a @ List.map_filter (\<lambda>e. e) (concat calls)"
  by (induction calls arbitrary: a) (simp_all add: join_all_def Join_errors map_filter_def)

lemma map_filter_mem: "x \<in> set (List.map_filter (\<lambda>e. e) errs) \<longleftrightarrow> Some x \<in> set errs"
  by (induction errs) (auto simp: map_filter_simps split: option.splits)

text \<open>
  An aggregate filled by any sequence of \<open>Join\<close> calls holds exactly the non-nil errors it was given,
  in the order of the calls; \<open>Join\<close> returns nil exactly while it holds none, and otherwise itself; its
  message joins theirs, and \<open>Is\<close> and \<open>As\<close> find exactly what can be found in one of them.
\<close>

lemma aggregate_collects:
  "let a = join_all calls \<lparr>agg_id = p, Errors = None\<rparr>; given = List.map_filter (\<lambda>e. e) (concat calls)
   in agg_errors a = given
     \<and> (\<forall>errs. fst (Aggregate_Join errs a) = (if given = [] \<and> set errs \<subseteq> {None} then None else Some p))
     \<and> Aggregate_Error Error a = Join (map Error given) ''; ''
     \<and> Aggregate_Unwrap a = (if given = [] then None else Some given)
     \<and> (\<forall>t. Aggregate_Is a t \<longleftrightarrow> (\<exists>e. Some e \<in> set (concat calls) \<and> errors_Is e t))
     \<and> (\<forall>t. errors_Is (agg_error a) t \<longleftrightarrow> t = agg_error a \<or> Aggregate_Is a t)
     \<and> Aggregate_As a f = first_some (errors_As f) given"
proof -
  define a where "a = join_all calls \<lparr>agg_id = p, Errors = None\<rparr>"
  define given where "given = List.map_filter (\<lambda>e. e) (concat calls)"
  have e: "agg_errors a = given" unfolding a_def given_def by (subst join_all_errors) (simp add: agg_errors_def)
  have id: "agg_id (join_all cs b) = agg_id b" for cs b
    by (induction cs arbitrary: b) (simp_all add: join_all_def Join_id)
  have p: "agg_id a = p" unfolding a_def by (simp add: id)
  have none: "List.map_filter (\<lambda>e. e) errs = [] \<longleftrightarrow> set errs \<subseteq> {None}" for errs :: "goerror option list"
    by (induction errs) (auto simp: map_filter_simps split: option.splits)
  have "fst (Aggregate_Join errs a) = (if given = [] \<and> set errs \<subseteq> {None} then None else Some p)" for errs
    by (simp add: Join_result Join_errors e p none)
  moreover have "Aggregate_Is a t \<longleftrightarrow> (\<exists>e. Some e \<in> set (concat calls) \<and> errors_Is e t)" for t
    unfolding Aggregate_Is_def is_loop_ex e given_def by (simp only: Bex_def map_filter_mem)
  moreover have "Aggregate_Unwrap a = (if given = [] then None else Some given)"
    using e by (auto simp: Aggregate_Unwrap_def agg_errors_def split: option.splits)
  moreover have "Aggregate_As a f = first_some (errors_As f) given"
    by (simp add: Aggregate_As_def as_loop_first e)
  ultimately show ?thesis
    unfolding Let_def a_def [symmetric] given_def [symmetric]
    by (auto simp: e Aggregate_Error_def Aggregate_Is_chain)
qed

lemma NewAggregateError_cases:
  "NewAggregateError p errs =
     (if set errs \<subseteq> {None} then None
      else Some \<lparr>agg_id = p, Errors = Some (List.map_filter (\<lambda>e. e) errs)\<rparr>)"
proof -
  have "List.map_filter (\<lambda>e. e) errs = [] \<longleftrightarrow> set errs \<subseteq> {None}"
    by (induction errs) (auto simp: map_filter_simps split: option.splits)
  then show ?thesis
    by (auto simp: NewAggregateError_def Aggregate_Join_def Let_def agg_errors_def join_loop_append)
qed

text \<open>
  A response keeps the chain of what it wraps, and sends its message to the client; a nil error is
  reported as unknown. The status is the first one given if that is positive, and 400 otherwise.
\<close>

lemma response_status:
  "StatusCode (NewErrorResponse Error err codes) = (if codes \<noteq> [] \<and> 0 < hd codes then hd codes else 400)"
  by (auto simp: NewErrorResponse_def Let_def split: option.splits list.splits)

lemma response_chain:
  "errors_Is e t \<Longrightarrow> errors_Is (response_error p (NewErrorResponse Error (Some e) codes)) t"
  by (simp add: response_error_def NewErrorResponse_def Response_Unwrap_def Let_def)

lemma response_carries_message:
  "Response_Error (NewErrorResponse Error (Some e) codes) = Error e"
  "Response_Error (NewErrorResponse Error None codes) = ''unknown error''"
  by (simp_all add: Response_Error_def NewErrorResponse_def Let_def)

text \<open>
  Of a body \<open>MatrixErrorFrom\<close> looks at the first 64 KiB only. One that is not JSON gives an error with
  the code M_UNKNOWN; the only bodies that give nil are \<open>null\<close>, with spaces around it.
\<close>

lemma MatrixErrorFrom_capped:
  "MatrixErrorFrom report (Some body) = MatrixErrorFrom report (Some (take 65536 body))"
  by (simp add: MatrixErrorFrom_def maxMatrixErrorBody_def)

lemma MatrixErrorFrom_nil:
  "MatrixErrorFrom report (Some body) = None \<longleftrightarrow> tokens (take 65536 body) = Some [Word_null]"
  unfolding Unmarshal_null [symmetric, of _ matrix_fields]
  by (simp add: MatrixErrorFrom_def maxMatrixErrorBody_def Let_def split: sum.splits)

lemma MatrixErrorFrom_null: "MatrixErrorFrom report (Some ''null'') = None"
  unfolding MatrixErrorFrom_nil
  by (simp add: tokens.simps scan_token_def punctuation_def HasPrefix_def json_space_def)

lemma field_of_matrix:
  "field_of matrix_fields ''errcode'' = Some ''errcode''" "field_of matrix_fields ''error'' = Some ''error''"
  by code_simp+

text \<open>
  C36: A Matrix error written as JSON, in either order of its members and among members of other names, is
  decoded to exactly the code and the message it has; a body with a syntax error, or with a member
  that is no string, gives M_UNKNOWN with the report of the first 64 KiB; and the result is nil only
  for a nil reader and for \<open>null\<close>.
\<close>

theorem MatrixErrorFrom_decodes:
  assumes "\<forall>m \<in> set ms. ValidString (fst m) \<and> ValidString (snd m) \<and> field_of matrix_fields (fst m) = None"
    and "\<forall>m \<in> set ns. ValidString (fst m) \<and> ValidString (snd m) \<and> field_of matrix_fields (fst m) = None"
    and "ValidString code" and "ValidString msg"
    and "body \<in> {json_object (ms @ [(''errcode'', code), (''error'', msg)] @ ns),
                 json_object (ms @ [(''error'', msg), (''errcode'', code)] @ ns)}"
    and "length body \<le> 65536"
  shows "MatrixErrorFrom report (Some body) = Some (NewMatrixError code msg)
    \<and> (\<forall>other. MatrixErrorFrom report (Some other) = None \<longleftrightarrow> tokens (take 65536 other) = Some [Word_null])
    \<and> (\<forall>other err. Unmarshal matrix_fields (take 65536 other) = Inl err \<longrightarrow>
         MatrixErrorFrom report (Some other) = Some (NewMatrixError ''M_UNKNOWN'' (report (take 65536 other) err)))
    \<and> MatrixErrorFrom report None = None"
proof -
  have skip: "fold (put matrix_fields) xs v = v" if "\<forall>m \<in> set xs. field_of matrix_fields (fst m) = None" for xs v
    using that by (induction xs) (simp_all add: put_def)
  have e: "ValidString ''errcode''" "ValidString ''error''" by (simp_all add: ValidString_ascii)
  have t: "take maxMatrixErrorBody body = body" using assms(6) by (simp add: maxMatrixErrorBody_def)
  have "Unmarshal matrix_fields body = Inr (Some ((\<lambda>f. [])(''errcode'' := code, ''error'' := msg)))
      \<or> Unmarshal matrix_fields body = Inr (Some ((\<lambda>f. [])(''error'' := msg, ''errcode'' := code)))"
    using assms(5)
  proof (elim insertE emptyE)
    assume b: "body = json_object (ms @ [(''errcode'', code), (''error'', msg)] @ ns)"
    show ?thesis
      unfolding b by (subst Unmarshal_object, use assms e in force, rule disjI1)
        (use assms skip in \<open>simp add: put_def field_of_matrix\<close>)
  next
    assume b: "body = json_object (ms @ [(''error'', msg), (''errcode'', code)] @ ns)"
    show ?thesis
      unfolding b by (subst Unmarshal_object, use assms e in force, rule disjI2)
        (use assms skip in \<open>simp add: put_def field_of_matrix\<close>)
  qed
  then have "MatrixErrorFrom report (Some body) = Some (NewMatrixError code msg)"
    by (auto simp: MatrixErrorFrom_def t matrix_of_def NewMatrixError_def)
  then show ?thesis
    unfolding MatrixErrorFrom_nil by (simp add: MatrixErrorFrom_def maxMatrixErrorBody_def)
qed

lemma MatrixErrorFrom_decodes_witness:
  "MatrixErrorFrom (\<lambda>d e. ''?'') (Some (json_object [(''errcode'', ''M_FORBIDDEN''), (''error'', ''no'')]))
     = Some (NewMatrixError ''M_FORBIDDEN'' ''no'')"
proof -
  have v: "ValidString ''M_FORBIDDEN''" "ValidString ''no''" by (simp_all add: ValidString_ascii)
  have l: "length (json_object [(''errcode'', ''M_FORBIDDEN''), (''error'', ''no'')]) \<le> 65536"
    by (simp add: json_object_def json_string_def json_char_def)
  show ?thesis
    using MatrixErrorFrom_decodes [of "[]" "[]", OF _ _ v _ l] by simp
qed

lemma IsContextError_wrapped:
  "IsContextError (Some (GoError k [e])) \<longleftrightarrow> GoError k [e] \<in> {ctx_Canceled, ctx_DeadlineExceeded} \<or> IsContextError (Some e)"
  by (auto simp: IsContextError_def)

end
