(* ===== verification/Go_Sha256.thy ===== *)
theory Go_Sha256
  imports Go_Prelude "HOL-Library.Word"
begin

section \<open>Package crypto/sha256\<close>

text \<open>
  The digest of a byte string: padding to blocks of 64 bytes, the message schedule, the 64 rounds over
  eight 32-bit words, and the big-endian bytes of the result.
\<close>

unbundle bit_operations_syntax

type_synonym word32 = "32 word"

text \<open>The constants are the first 32 bits of the fractional parts of the cube and square roots of the first primes.\<close>

definition sha_K :: "word32 list" where
  "sha_K =
    [1116352408, 1899447441, 3049323471, 3921009573, 961987163, 1508970993, 2453635748, 2870763221,
     3624381080, 310598401, 607225278, 1426881987, 1925078388, 2162078206, 2614888103, 3248222580,
     3835390401, 4022224774, 264347078, 604807628, 770255983, 1249150122, 1555081692, 1996064986,
     2554220882, 2821834349, 2952996808, 3210313671, 3336571891, 3584528711, 113926993, 338241895,
     666307205, 773529912, 1294757372, 1396182291, 1695183700, 1986661051, 2177026350, 2456956037,
     2730485921, 2820302411, 3259730800, 3345764771, 3516065817, 3600352804, 4094571909, 275423344,
     430227734, 506948616, 659060556, 883997877, 958139571, 1322822218, 1537002063, 1747873779,
     1955562222, 2024104815, 2227730452, 2361852424, 2428436474, 2756734187, 3204031479, 3329325298]"

definition sha_H0 :: "word32 list" where
  "sha_H0 = [1779033703, 3144134277, 1013904242, 2773480762, 1359893119, 2600822924, 528734635, 1541459225]"

subsection \<open>Functions on words\<close>

definition rotr :: "nat \<Rightarrow> word32 \<Rightarrow> word32" where
  "rotr n x = drop_bit n x OR push_bit (32 - n) x"

definition Ch :: "word32 \<Rightarrow> word32 \<Rightarrow> word32 \<Rightarrow> word32" where
  "Ch x y z = (x AND y) XOR (NOT x AND z)"

definition Maj :: "word32 \<Rightarrow> word32 \<Rightarrow> word32 \<Rightarrow> word32" where
  "Maj x y z = (x AND y) XOR (x AND z) XOR (y AND z)"

definition big_sigma0 :: "word32 \<Rightarrow> word32" where
  "big_sigma0 x = rotr 2 x XOR rotr 13 x XOR rotr 22 x"

definition big_sigma1 :: "word32 \<Rightarrow> word32" where
  "big_sigma1 x = rotr 6 x XOR rotr 11 x XOR rotr 25 x"

definition small_sigma0 :: "word32 \<Rightarrow> word32" where
  "small_sigma0 x = rotr 7 x XOR rotr 18 x XOR drop_bit 3 x"

definition small_sigma1 :: "word32 \<Rightarrow> word32" where
  "small_sigma1 x = rotr 17 x XOR rotr 19 x XOR drop_bit 10 x"

subsection \<open>Padding and blocks\<close>

text \<open>Big-endian bytes, most significant first.\<close>

definition be_bytes :: "nat \<Rightarrow> nat \<Rightarrow> string" where
  "be_bytes n x = map (\<lambda>i. char_of (x div 256 ^ i)) (rev [0..<n])"

definition be_word :: "string \<Rightarrow> word32" where
  "be_word bs = of_nat (foldl (\<lambda>v b. 256 * v + of_char b) 0 bs)"

definition sha_pad :: "string \<Rightarrow> string" where
  "sha_pad m =
     (let zeros = (119 - length m mod 64) mod 64
      in m @ char_of (128 :: nat) # replicate zeros (CHR 0x00) @ be_bytes 8 (8 * length m))"

function blocks :: "nat \<Rightarrow> 'a list \<Rightarrow> 'a list list" where
  "blocks n xs = (if n = 0 \<or> xs = [] then [] else take n xs # blocks n (drop n xs))"
  by auto
termination by (relation "measure (\<lambda>(n, xs). length xs)") auto

declare blocks.simps [simp del]

subsection \<open>Compression\<close>

text \<open>The schedule: the 16 words of the block, and each later word from four before it.\<close>

fun extend :: "nat \<Rightarrow> word32 list \<Rightarrow> word32 list" where
  "extend 0 w = w"
| "extend (Suc n) w =
     (let i = length w
      in extend n (w @ [small_sigma1 (w ! (i - 2)) + w ! (i - 7) + small_sigma0 (w ! (i - 15)) + w ! (i - 16)]))"

definition sha_round :: "word32 \<times> word32 \<Rightarrow> word32 list \<Rightarrow> word32 list" where
  "sha_round kw s =
     (case s of
        [a, b, c, d, e, f, g, h] \<Rightarrow>
          (let t1 = h + big_sigma1 e + Ch e f g + fst kw + snd kw;
               t2 = big_sigma0 a + Maj a b c
           in [t1 + t2, a, b, c, d + t1, e, f, g])
      | _ \<Rightarrow> s)"

definition compress :: "string \<Rightarrow> word32 list \<Rightarrow> word32 list" where
  "compress block h =
     (let w = extend 48 (map be_word (blocks 4 block))
      in map2 (+) h (fold sha_round (zip sha_K w) h))"

definition sha256 :: "string \<Rightarrow> string" where
  "sha256 m = concat (map (\<lambda>w. be_bytes 4 (unat w)) (fold compress (blocks 64 (sha_pad m)) sha_H0))"

subsection \<open>The digest has 32 bytes\<close>

lemma length_round: "length (sha_round kw s) = length s"
  by (auto simp: sha_round_def Let_def split: list.splits)

lemma length_rounds: "length (fold sha_round kws s) = length s"
  by (induction kws arbitrary: s) (simp_all add: length_round)

lemma length_compress: "length (compress b h) = length h"
  by (simp add: compress_def Let_def length_rounds)

lemma length_digest: "length (fold compress bs h) = length h"
  by (induction bs arbitrary: h) (simp_all add: length_compress)

lemma length_be_bytes [simp]: "length (be_bytes n x) = n"
  by (simp add: be_bytes_def)

theorem length_sha256: "length (sha256 m) = 32"
proof -
  have "length (concat (map (\<lambda>w. be_bytes 4 (unat w)) ws)) = 4 * length ws" for ws :: "word32 list"
    by (induction ws) simp_all
  then show ?thesis by (simp add: sha256_def length_digest sha_H0_def)
qed

text \<open>The padded message is made of whole blocks and begins with the message.\<close>

lemma sha_pad_blocks: "length (sha_pad m) mod 64 = 0" and "take (length m) (sha_pad m) = m"
proof -
  let ?r = "length m mod 64"
  have "?r < 64" by simp
  have "(?r + 9 + (119 - ?r) mod 64) mod 64 = 0"
  proof (cases "?r < 56")
    case True
    then have "(119 - ?r) mod 64 = 55 - ?r" by (subst le_mod_geq) simp_all
    with True show ?thesis by simp
  next
    case False
    then have "(119 - ?r) mod 64 = 119 - ?r" by simp
    then show ?thesis using \<open>?r < 64\<close> by simp
  qed
  then show "length (sha_pad m) mod 64 = 0"
    by (simp add: sha_pad_def Let_def) (metis (no_types, lifting) add.assoc add.commute mod_add_left_eq)
  show "take (length m) (sha_pad m) = m" by (simp add: sha_pad_def Let_def)
qed

end
