(* ===== verification/Kit_Text.thy ===== *)
theory Kit_Text
  imports Go_Quote Go_Sha256
begin

section \<open>Package kit: strings\<close>

text \<open>
  Models \<open>strings.go\<close> and \<open>stringsbuilder.go\<close>. Strings are byte strings.
\<close>

subsection \<open>strings.go\<close>

text \<open>The loop of \<open>Truncate\<close> over the bytes from \<open>i\<close> on: the rest of the string, and the count.\<close>

function truncate_loop :: "int \<Rightarrow> int \<Rightarrow> string \<Rightarrow> string" where
  "truncate_loop length' count s =
     (if s = [] then []
      else if count \<ge> length' then []
      else EncodeRune (int (rune_at s)) @ truncate_loop length' (count + 1) (drop (width_at s) s))"
  by auto
termination by (relation "measure (\<lambda>(l, c, s). length s)") (auto intro!: diff_less width_pos)

declare truncate_loop.simps [simp del]

definition Truncate :: "string \<Rightarrow> int \<Rightarrow> string" where
  "Truncate s len =
     (if len \<le> 0 \<or> s = [] then []
      else if len \<ge> int (RuneCount s) then s
      else let truncated = truncate_loop len 0 s
           in if truncated \<noteq> s then truncated @ ''...'' else truncated)"

definition Unquote :: "string \<Rightarrow> string" where
  "Unquote s = (case strconv_Unquote s of None \<Rightarrow> s | Some unquoted \<Rightarrow> unquoted)"

text \<open>\<open>hex.EncodeToString\<close>.\<close>

definition hextable :: string where
  "hextable = ''0123456789abcdef''"

definition EncodeToString :: "string \<Rightarrow> string" where
  "EncodeToString bs = concat (map (\<lambda>b. [hextable ! (byte b div 16), hextable ! (byte b mod 16)]) bs)"

definition Hash :: "string \<Rightarrow> string" where
  "Hash str = EncodeToString (sha256 str)"

definition StringToInt :: "string \<Rightarrow> int list \<Rightarrow> int" where
  "StringToInt v optionalDefaultValue =
     (let defaultValue = (case optionalDefaultValue of [] \<Rightarrow> 0 | d # ds \<Rightarrow> d);
          v = TrimSpace v
      in if v = [] then defaultValue
         else (case Atoi v of None \<Rightarrow> defaultValue | Some vInt \<Rightarrow> vInt))"

fun trim_parts :: "string list \<Rightarrow> string list" where
  "trim_parts [] = []"
| "trim_parts (part # parts) = TrimSpace part # trim_parts parts"

definition StringToSlice :: "string \<Rightarrow> string list \<Rightarrow> string list" where
  "StringToSlice v optionalDefaultValue =
     (let defaultValue = (case optionalDefaultValue of [] \<Rightarrow> [] | d # ds \<Rightarrow> d);
          v = TrimSpace v
      in if v = [] then [defaultValue]
         else if \<not> Contains v '','' then [v]
         else trim_parts (Split v CHR '',''))"

fun adjust_loop :: "string list \<Rightarrow> (string \<Rightarrow> string) option \<Rightarrow> string list \<Rightarrow> string list" where
  "adjust_loop [] hook adjusted = adjusted"
| "adjust_loop (item # items) hook adjusted =
     adjust_loop items hook (adjusted @ [case hook of None \<Rightarrow> item | Some h \<Rightarrow> h item])"

definition SliceToString :: "string list \<Rightarrow> string \<Rightarrow> (string \<Rightarrow> string) option \<Rightarrow> string" where
  "SliceToString sl delimiter hook =
     (if sl = [] then [] else Join (adjust_loop sl hook []) delimiter)"

text \<open>What \<open>Truncate\<close> writes for a rune: its bytes, or the replacement of a byte that is none.\<close>

definition clean_rune :: "string \<Rightarrow> string" where
  "clean_rune r = (if bad_rune r then error_bytes else r)"

lemma Encode_clean: "s \<noteq> [] \<Longrightarrow> EncodeRune (int (rune_at s)) = clean_rune (take (width_at s) s)"
  using Encode_Decode [of s] Encode_error bad_rune_prefix [of s]
  by (cases "bad_rune s") (auto simp: clean_rune_def bad_rune_def)

lemma truncate_loop_runes:
  "0 \<le> n \<Longrightarrow> truncate_loop (c + int n) c s = concat (map clean_rune (take n (runes s)))"
proof (induction n arbitrary: c s)
  case (Suc n)
  have "c + int (Suc n) = (c + 1) + int n" by simp
  then show ?case
    using Suc.IH [of "c + 1" "drop (width_at s) s"]
    by (subst truncate_loop.simps, subst runes.simps) (simp add: Encode_clean ac_simps)
qed (subst truncate_loop.simps, simp)

text \<open>A string with more runes is never equal to its cut: the last test of \<open>Truncate\<close> always holds.\<close>

lemma cut_differs: "n < RuneCount s \<Longrightarrow> concat (map clean_rune (take n (runes s))) \<noteq> s"
proof (induction n arbitrary: s)
  case 0
  then show ?case by (auto simp: RuneCount.simps)
next
  case (Suc n)
  let ?t = "drop (width_at s) s"
  have s: "s \<noteq> []" "n < RuneCount ?t"
    using Suc.prems by (auto simp: RuneCount.simps [of s] split: if_splits)
  have r: "concat (map clean_rune (take (Suc n) (runes s)))
      = clean_rune (take (width_at s) s) @ concat (map clean_rune (take n (runes ?t)))"
    using s by (subst runes.simps) simp
  show ?case
  proof (cases "bad_rune s")
    case True
    have "s \<noteq> error_bytes @ x" for x
      using True Decode_error_bytes [of x] by (auto simp: bad_rune_def)
    then show ?thesis using r True bad_rune_prefix [OF s(1)] by (metis clean_rune_def)
  next
    case False
    then have "clean_rune (take (width_at s) s) = take (width_at s) s"
      using bad_rune_prefix [OF s(1)] by (simp add: clean_rune_def)
    with r Suc.IH [OF s(2)] show ?thesis by (metis append_take_drop_id same_append_eq)
  qed
qed

theorem Truncate_runes:
  "Truncate s len =
     (if len \<le> 0 then []
      else if int (RuneCount s) \<le> len then s
      else concat (map clean_rune (take (nat len) (runes s))) @ ''...'')"
proof -
  have z: "s = [] \<Longrightarrow> int (RuneCount s) = 0" by (simp add: RuneCount.simps)
  have l: "0 < len \<Longrightarrow> truncate_loop len 0 s = concat (map clean_rune (take (nat len) (runes s)))"
    using truncate_loop_runes [of "nat len" 0 s] by simp
  have d: "0 < len \<Longrightarrow> len < int (RuneCount s) \<Longrightarrow> concat (map clean_rune (take (nat len) (runes s))) \<noteq> s"
    by (rule cut_differs) simp
  show ?thesis using z l d by (auto simp: Truncate_def Let_def not_le)
qed

lemma clean_runes: "\<forall>r \<in> set rs. \<not> bad_rune r \<Longrightarrow> map clean_rune rs = rs"
  by (simp add: clean_rune_def map_idI)

text \<open>
  A literal without escapes stands for what is between the quotes, one that escapes every byte for these
  bytes, and a text that is no literal for itself.
\<close>

lemma index_of_none: "c \<notin> set s \<Longrightarrow> index_of c (s @ c # r) = Some (length s)"
  by (induction s) auto

lemma Unquote_plain:
  assumes "ValidString s" "set s \<inter> {dquote, backslash, CHR 0x0A} = {}"
  shows "Unquote (dquote # s @ [dquote]) = s"
proof -
  have "index_of dquote (s @ [dquote]) = Some (length s)" using assms(2) by (intro index_of_none) auto
  then show ?thesis using assms by (simp add: Unquote_def strconv_Unquote_def)
qed

definition hex_escape :: "string \<Rightarrow> string" where
  "hex_escape s = concat (map (\<lambda>b. [backslash, CHR ''x'', hextable ! (byte b div 16), hextable ! (byte b mod 16)]) s)"

lemma unhex_table: "n < 16 \<Longrightarrow> unhex (hextable ! n) = Some n"
proof -
  have "\<forall>n \<in> set [0..<16]. unhex (hextable ! n) = Some n" by (simp add: hextable_def unhex_def upt_rec)
  then show "n < 16 \<Longrightarrow> ?thesis" by simp
qed

lemma byte_less: "byte c < 256"
  using of_char_mod_256 [of c, where 'a = nat] by (metis mod_less_divisor zero_less_numeral)

lemma unquote_loop_hex: "unquote_loop dquote (hex_escape s @ [dquote]) out = Some (out @ s, [dquote])"
proof (induction s arbitrary: out)
  case Nil
  then show ?case by (simp add: hex_escape_def unquote_loop.simps)
next
  case (Cons b s)
  have d: "byte b div 16 < 16" using byte_less [of b] by (simp add: less_mult_imp_div_less)
  have "UnquoteChar dquote (hex_escape (b # s) @ [dquote]) = Some (byte b, False, hex_escape s @ [dquote])"
    using d by (simp add: hex_escape_def simple_escape_def unhex_table numeral_2_eq_2)
  moreover have "hd (hex_escape (b # s) @ [dquote]) = backslash" by (simp add: hex_escape_def)
  ultimately show ?case using Cons.IH [of "out @ [b]"]
    by (subst unquote_loop.simps) (simp add: hex_escape_def)
qed

lemma hextable_nth: "n < 16 \<Longrightarrow> hextable ! n \<in> set hextable"
  by (rule nth_mem) (simp add: hextable_def)

lemma Unquote_hex: "Unquote (dquote # hex_escape s @ [dquote]) = s"
proof -
  have d: "byte b div 16 < 16" for b using byte_less [of b] by (simp add: less_mult_imp_div_less)
  have "set (hex_escape s) \<subseteq> insert backslash (insert CHR ''x'' (set hextable))"
    using hextable_nth d by (auto simp: hex_escape_def)
  then have "dquote \<notin> set (hex_escape s)" by (auto simp: hextable_def)
  then have i: "index_of dquote (hex_escape s @ [dquote]) = Some (length (hex_escape s))"
    by (rule index_of_none)
  show ?thesis
  proof (cases "s = []")
    case True
    then show ?thesis by (simp add: Unquote_def strconv_Unquote_def hex_escape_def ValidString_def runes.simps)
  next
    case False
    then have "backslash \<in> set (hex_escape s)" by (cases s) (simp_all add: hex_escape_def)
    then show ?thesis using i unquote_loop_hex [of s "[]"] by (simp add: Unquote_def strconv_Unquote_def)
  qed
qed

lemma adjust_loop_map:
  "adjust_loop xs hook ys = ys @ map (case hook of None \<Rightarrow> (\<lambda>x. x) | Some h \<Rightarrow> h) xs"
  by (induction xs arbitrary: ys) (auto split: option.splits)

lemma trim_parts_map: "trim_parts xs = map TrimSpace xs"
  by (induction xs) auto

text \<open>Lists of printable ASCII without commas survive being written and read, except the empty text.\<close>

lemma StringToSlice_SliceToString:
  assumes "xs \<noteq> []" "xs \<noteq> [[]]" "\<forall>x \<in> set xs. \<forall>c \<in> set x. plain c \<and> c \<noteq> CHR '',''"
  shows "StringToSlice (SliceToString xs '','' None) ds = xs"
proof -
  let ?s = "Join xs '',''"
  have s: "SliceToString xs '','' None = ?s" using assms(1) by (simp add: SliceToString_def adjust_loop_map)
  have "plain CHR '',''" by (simp add: plain_def)
  then have p: "\<forall>c \<in> set ?s. plain c" using set_Join_subset [of xs "'',''"] assms(3) by fastforce
  have split: "Split ?s CHR '','' = xs" by (rule Split_Join) (use assms in auto)
  have t: "map TrimSpace xs = xs" using assms(3) by (intro map_idI TrimSpace_plain) blast
  have "?s \<noteq> []" using split assms(2) by auto
  moreover have "xs = [?s]" if "\<not> Contains ?s '',''"
  proof -
    have "CHR '','' \<notin> set ?s" using that by (metis Contains_iff append_Cons append_Nil split_list)
    then show ?thesis using split by (simp add: Split_none)
  qed
  ultimately show ?thesis
    using s split t TrimSpace_plain [OF p] by (auto simp: StringToSlice_def Let_def trim_parts_map)
qed

lemma StringToInt_Itoa:
  assumes "int64 v"
  shows "StringToInt (Itoa v) ds = v"
proof -
  have "plain CHR ''-''" by (simp add: plain_def)
  then have "\<forall>c \<in> set (Itoa v). plain c"
    using decimal_digits is_digit_plain by (auto simp: Itoa_def)
  moreover have "Itoa v \<noteq> []" by (simp add: Itoa_def)
  ultimately show ?thesis using assms by (simp add: StringToInt_def TrimSpace_plain Atoi_Itoa)
qed

lemma Hash_hex: "length (Hash s) = 64" "set (Hash s) \<subseteq> set hextable"
proof -
  have "length (EncodeToString bs) = 2 * length bs" for bs
    by (induction bs) (simp_all add: EncodeToString_def)
  then show "length (Hash s) = 64" by (simp add: Hash_def length_sha256)
  have "byte c div 16 < 16" for c using byte_less [of c] by (simp add: less_mult_imp_div_less)
  moreover have "length hextable = 16" by (simp add: hextable_def)
  ultimately show "set (Hash s) \<subseteq> set hextable"
    by (auto simp: Hash_def EncodeToString_def intro!: nth_mem)
qed

subsection \<open>stringsbuilder.go\<close>

text \<open>
  The builder inside: the address of its first write (\<open>strings.Builder\<close> panics when it is written to
  at another one, that is, as a copy), what was written, and its capacity. How much memory an append and
  an allocation get is the runtime's choice, the parameter of the methods that write. The address is that of the
  receiver.
\<close>

record StringsBuilder =
  addr :: "nat option"
  buf :: string
  capacity :: nat

record allocator =
  growslice :: "nat \<Rightarrow> nat \<Rightarrow> nat"
  roundup :: "nat \<Rightarrow> nat"

text \<open>Both give at least what was asked for.\<close>

definition allocator_ok :: "allocator \<Rightarrow> bool" where
  "allocator_ok al \<longleftrightarrow> (\<forall>old n. n \<le> growslice al old n) \<and> (\<forall>n. n \<le> roundup al n)"

definition NewStringsBuilder :: StringsBuilder where
  "NewStringsBuilder = \<lparr>addr = None, buf = [], capacity = 0\<rparr>"

definition copied :: "nat \<Rightarrow> StringsBuilder \<Rightarrow> bool" where
  "copied p sb \<longleftrightarrow> addr sb \<noteq> None \<and> addr sb \<noteq> Some p"

definition sb_write :: "allocator \<Rightarrow> nat \<Rightarrow> string \<Rightarrow> StringsBuilder \<Rightarrow> (unit, StringsBuilder) gores" where
  "sb_write al p bs sb =
     (if copied p sb then Panic
      else
        (let n = length (buf sb) + length bs
         in Ok \<lparr>addr = Some p, buf = buf sb @ bs,
              capacity = (if n \<le> capacity sb then capacity sb else growslice al (capacity sb) n)\<rparr>))"

definition sb_S :: "allocator \<Rightarrow> nat \<Rightarrow> string \<Rightarrow> StringsBuilder \<Rightarrow> (unit, StringsBuilder) gores" where
  "sb_S al p s sb = sb_write al p s sb"

definition sb_B :: "allocator \<Rightarrow> nat \<Rightarrow> char \<Rightarrow> StringsBuilder \<Rightarrow> (unit, StringsBuilder) gores" where
  "sb_B al p b sb = sb_write al p [b] sb"

definition sb_R :: "allocator \<Rightarrow> nat \<Rightarrow> int \<Rightarrow> StringsBuilder \<Rightarrow> (unit, StringsBuilder) gores" where
  "sb_R al p r sb = sb_write al p (EncodeRune r) sb"

definition sb_String :: "StringsBuilder \<Rightarrow> string" where
  "sb_String sb = buf sb"

definition sb_Unwrap :: "StringsBuilder \<Rightarrow> StringsBuilder" where
  "sb_Unwrap sb = sb"

definition sb_WriteString :: "allocator \<Rightarrow> nat \<Rightarrow> string \<Rightarrow> StringsBuilder \<Rightarrow> (unit, int \<times> StringsBuilder) gores" where
  "sb_WriteString al p s sb = gobind (sb_write al p s sb) (\<lambda>sb. Ok (int (length s), sb))"

definition sb_Write :: "allocator \<Rightarrow> nat \<Rightarrow> string \<Rightarrow> StringsBuilder \<Rightarrow> (unit, int \<times> StringsBuilder) gores" where
  "sb_Write al p bs sb = gobind (sb_write al p bs sb) (\<lambda>sb. Ok (int (length bs), sb))"

definition sb_WriteRune :: "allocator \<Rightarrow> nat \<Rightarrow> int \<Rightarrow> StringsBuilder \<Rightarrow> (unit, int \<times> StringsBuilder) gores" where
  "sb_WriteRune al p r sb = gobind (sb_write al p (EncodeRune r) sb) (\<lambda>sb. Ok (int (length (EncodeRune r)), sb))"

definition sb_Cap :: "StringsBuilder \<Rightarrow> int" where
  "sb_Cap sb = int (capacity sb)"

definition sb_Grow :: "allocator \<Rightarrow> nat \<Rightarrow> int \<Rightarrow> StringsBuilder \<Rightarrow> (unit, StringsBuilder) gores" where
  "sb_Grow al p n sb =
     (if copied p sb then Panic
      else if n < 0 then Panic
      else if int (capacity sb) - int (length (buf sb)) < n
        then Ok (sb\<lparr>addr := Some p, capacity := roundup al (2 * capacity sb + nat n)\<rparr>)
      else Ok (sb\<lparr>addr := Some p\<rparr>))"

definition sb_Len :: "StringsBuilder \<Rightarrow> int" where
  "sb_Len sb = int (length (buf sb))"

definition sb_Reset :: "StringsBuilder \<Rightarrow> StringsBuilder" where
  "sb_Reset sb = \<lparr>addr = None, buf = [], capacity = 0\<rparr>"

text \<open>The length never exceeds the capacity.\<close>

definition sb_ok :: "StringsBuilder \<Rightarrow> bool" where
  "sb_ok sb \<longleftrightarrow> length (buf sb) \<le> capacity sb"

lemma sb_ok_write: "allocator_ok al \<Longrightarrow> sb_write al p bs sb = Ok r \<Longrightarrow> sb_ok sb \<Longrightarrow> sb_ok r"
  by (auto simp: sb_write_def sb_ok_def allocator_ok_def Let_def split: if_splits)

lemma sb_ok_Grow:
  assumes "allocator_ok al" "sb_Grow al p n sb = Ok r" "sb_ok sb"
  shows "sb_ok r" and "buf r = buf sb" and "length (buf sb) + nat n \<le> capacity r"
proof -
  have "2 * capacity sb + nat n \<le> roundup al (2 * capacity sb + nat n)" using assms(1) by (simp add: allocator_ok_def)
  then show "sb_ok r" "buf r = buf sb" "length (buf sb) + nat n \<le> capacity r"
    using assms(2,3) by (auto simp: sb_Grow_def sb_ok_def split: if_splits)
qed

text \<open>
  Any sequence of writes at one address gives what was written, and after \<open>Grow\<close> of enough bytes it does
  not allocate again; a copy of a used builder panics.
\<close>

fun sb_writes :: "allocator \<Rightarrow> nat \<Rightarrow> string list \<Rightarrow> StringsBuilder \<Rightarrow> (unit, StringsBuilder) gores" where
  "sb_writes al p [] sb = Ok sb"
| "sb_writes al p (s # ss) sb = gobind (sb_S al p s sb) (sb_writes al p ss)"

lemma sb_writes_concat:
  "\<not> copied p sb \<Longrightarrow> \<exists>r. sb_writes al p ss sb = Ok r \<and> sb_String r = sb_String sb @ concat ss
     \<and> (length (buf sb) + length (concat ss) \<le> capacity sb \<longrightarrow> sb_Cap r = sb_Cap sb)"
proof (induction ss arbitrary: sb)
  case (Cons s ss)
  obtain r where r: "sb_S al p s sb = Ok r" "buf r = buf sb @ s" "\<not> copied p r"
    "length (buf sb) + length s \<le> capacity sb \<longrightarrow> capacity r = capacity sb"
    using Cons.prems by (auto simp: sb_S_def sb_write_def copied_def Let_def)
  then show ?case using Cons.IH [OF r(3)] by (auto simp: sb_String_def sb_Cap_def)
qed simp

lemma Grow_writes:
  assumes "allocator_ok al" "sb_ok sb" "\<not> copied p sb" "sb_Grow al p n sb = Ok r" "int (length (concat ss)) \<le> n"
  shows "\<exists>t. sb_writes al p ss r = Ok t \<and> sb_String t = sb_String sb @ concat ss \<and> sb_Cap t = sb_Cap r"
proof -
  have "\<not> copied p r" using assms(4) by (auto simp: sb_Grow_def copied_def split: if_splits)
  from sb_writes_concat [OF this, of al ss] sb_ok_Grow [OF assms(1,4,2)] assms(5) show ?thesis
    by (auto simp: sb_String_def)
qed

lemma Unwrap_copy_panics:
  assumes "sb_S al p s sb = Ok r" "q \<noteq> p"
  shows "sb_S al q t (sb_Unwrap r) = Panic"
  using assms by (auto simp: sb_S_def sb_write_def sb_Unwrap_def copied_def Let_def split: if_splits)

end
