(* ===== verification/Kit_Version.thy ===== *)
theory Kit_Version
  imports Go_Strings
begin

section \<open>Package kit: version and small helpers\<close>

text \<open>
  Models \<open>version.go\<close> and \<open>utils.go\<close>. The build information of the binary is an
  argument (\<open>None\<close>: \<open>ReadBuildInfo\<close> has none).
\<close>

subsection \<open>version.go\<close>

text \<open>What \<open>debug.BuildInfo\<close> and \<open>debug.Module\<close> hold, as far as it is read; settings are key and value.\<close>

record dep_module =
  Path :: string
  module_version :: string

record build_module = dep_module +
  Replace :: "dep_module option"

record build_info =
  Main :: dep_module
  Deps :: "build_module list"
  Settings :: "(string \<times> string) list"

definition cleanVersion :: "string \<Rightarrow> string" where
  "cleanVersion v = (if v = ''(devel)'' then [] else v)"

fun settings_loop :: "(string \<times> string) list \<Rightarrow> string \<Rightarrow> string \<Rightarrow> string \<times> string" where
  "settings_loop [] revision dirty = (revision, dirty)"
| "settings_loop ((key, v) # settings) revision dirty =
     (if key = ''vcs.revision'' then settings_loop settings (if length v > 7 then take 7 v else v) dirty
      else if key = ''vcs.modified'' then settings_loop settings revision (if v = ''true'' then ''-dirty'' else dirty)
      else settings_loop settings revision dirty)"

definition vcsVersion :: "build_info \<Rightarrow> string" where
  "vcsVersion info =
     (case settings_loop (Settings info) [] [] of (revision, dirty) \<Rightarrow> if revision = [] then [] else revision @ dirty)"

definition mainVersion :: "build_info \<Rightarrow> string" where
  "mainVersion info =
     (let v = cleanVersion (module_version (Main info)) in if v \<noteq> [] then v else vcsVersion info)"

fun dep_loop :: "build_module list \<Rightarrow> string \<Rightarrow> string" where
  "dep_loop [] m = []"
| "dep_loop (dep # deps) m =
     (if Path dep \<noteq> m then dep_loop deps m
      else cleanVersion (case Replace dep of None \<Rightarrow> module_version dep | Some r \<Rightarrow> module_version r))"

definition depVersion :: "build_info \<Rightarrow> string \<Rightarrow> string" where
  "depVersion info m = dep_loop (Deps info) m"

definition Version :: "build_info option \<Rightarrow> string \<Rightarrow> string \<Rightarrow> string list \<Rightarrow> string" where
  "Version ReadBuildInfo m fallback override =
     (if override \<noteq> [] \<and> hd override \<noteq> [] then hd override
      else
        (case ReadBuildInfo of
           None \<Rightarrow> fallback
         | Some info \<Rightarrow>
             (let v = (if m = [] \<or> Path (Main info) = m then mainVersion info else depVersion info m)
              in if v \<noteq> [] then v else fallback)))"

definition UserAgent :: "build_info option \<Rightarrow> string \<Rightarrow> string \<Rightarrow> string list \<Rightarrow> string" where
  "UserAgent ReadBuildInfo product m override =
     product @ ''/'' @ Version ReadBuildInfo m ''v0.0.0'' override"

text \<open>
  A library never reports the revision of the binary it is built into; a user agent always has a version.
\<close>

lemma dep_ignores_vcs:
  "m \<noteq> [] \<Longrightarrow> Path (Main info) \<noteq> m \<Longrightarrow> hd (override @ [[]]) = [] \<Longrightarrow>
   Version (Some info) m fallback override = Version (Some (info\<lparr>Settings := ss, Main := (Main info)\<lparr>module_version := v\<rparr>\<rparr>)) m fallback override"
  by (cases override) (simp_all add: Version_def depVersion_def)

lemma UserAgent_version: "\<exists>v. UserAgent info product m override = product @ ''/'' @ v \<and> v \<noteq> []"
  by (auto simp: UserAgent_def Version_def Let_def split: option.splits)

text \<open>Of the overrides only the first one counts, also when it is empty and a later one is not.\<close>

lemma Version_second_override: "Version info m fallback ([] # os) = Version info m fallback []"
  by (simp add: Version_def)

subsection \<open>utils.go\<close>

text \<open>
  \<open>crypto/subtle\<close> answers 1 or 0: equal 32-bit lengths, and equal bytes (0 at once when the lengths differ).
\<close>

definition wrap32 :: "int \<Rightarrow> int" where
  "wrap32 x = (x + 2 ^ 31) mod 2 ^ 32 - 2 ^ 31"

definition ConstantTimeEq :: "int \<Rightarrow> int \<Rightarrow> int" where
  "ConstantTimeEq x y = (if x = y then 1 else 0)"

fun differing :: "string \<Rightarrow> string \<Rightarrow> nat" where
  "differing (c # s) (d # t) = or (xor (of_char c) (of_char d)) (differing s t)"
| "differing _ _ = 0"

definition ConstantTimeCompare :: "string \<Rightarrow> string \<Rightarrow> int" where
  "ConstantTimeCompare s t = (if length s \<noteq> length t then 0 else if differing s t = 0 then 1 else 0)"

definition Eq :: "string \<Rightarrow> string \<Rightarrow> bool" where
  "Eq s1 s2 \<longleftrightarrow> ConstantTimeEq (wrap32 (int (length s1))) (wrap32 (int (length s2))) = 1
     \<and> ConstantTimeCompare s1 s2 = 1"

lemma xor_none: "xor a b = 0 \<longleftrightarrow> a = (b :: nat)"
  by (auto simp: bit_eq_iff bit_xor_iff)

lemma differing_eq: "length s = length t \<Longrightarrow> differing s t = 0 \<longleftrightarrow> s = t"
  by (induction s t rule: differing.induct) (auto simp: xor_none or_eq_0_iff)

theorem Eq_iff: "Eq s1 s2 \<longleftrightarrow> s1 = s2"
  by (auto simp: Eq_def ConstantTimeEq_def ConstantTimeCompare_def differing_eq)

text \<open>
  A value behind an interface: a pointer by its address (\<open>None\<close> is nil), another kind that can be nil,
  or one that cannot. The store says what an address holds; a pointer may lead back to itself.
\<close>

datatype goval = Pointer "nat option" | Nilable bool | Plain_value

partial_function (option) IsNil_loop :: "(nat \<Rightarrow> goval) \<Rightarrow> goval \<Rightarrow> bool option" where
  "IsNil_loop store rv =
     (case rv of
        Pointer None \<Rightarrow> Some True
      | Pointer (Some p) \<Rightarrow> IsNil_loop store (store p)
      | Nilable isnil \<Rightarrow> Some isnil
      | Plain_value \<Rightarrow> Some False)"

definition IsNil :: "(nat \<Rightarrow> goval) \<Rightarrow> goval option \<Rightarrow> bool option" where
  "IsNil store i = (case i of None \<Rightarrow> Some True | Some rv \<Rightarrow> IsNil_loop store rv)"

text \<open>A chain of pointers that ends is followed to its end; one that never does is followed for ever.\<close>

fun follow :: "nat \<Rightarrow> (nat \<Rightarrow> goval) \<Rightarrow> goval \<Rightarrow> goval" where
  "follow (Suc n) store (Pointer (Some p)) = follow n store (store p)"
| "follow n store v = v"

fun ends_nil :: "goval \<Rightarrow> bool option" where
  "ends_nil (Pointer None) = Some True"
| "ends_nil (Pointer (Some p)) = None"
| "ends_nil (Nilable isnil) = Some isnil"
| "ends_nil Plain_value = Some False"

theorem IsNil_follows:
  "ends_nil (follow n store v) = Some b \<Longrightarrow> IsNil store (Some v) = Some b"
  unfolding IsNil_def option.case
  by (induction n store v rule: follow.induct)
    (subst IsNil_loop.simps, auto split: goval.splits option.splits)+

lemma IsNil_cyclic:
  assumes "store p = Pointer (Some p)"
  shows "IsNil store (Some (Pointer (Some p))) = None"
proof -
  have "st = store \<longrightarrow> v \<noteq> Pointer (Some p)" if "IsNil_loop st v = Some b" for st v b
    by (rule IsNil_loop.raw_induct [where P = "\<lambda>st v b. st = store \<longrightarrow> v \<noteq> Pointer (Some p)", OF _ that])
      (use assms in \<open>fastforce split: goval.splits option.splits\<close>)
  then show ?thesis unfolding IsNil_def option.case by (metis not_None_eq)
qed

end
