(* ===== verification/Kit_WaitGroup.thy ===== *)
theory Kit_WaitGroup
  imports Go_Prelude
begin

section \<open>Package kit: WaitGroup\<close>

text \<open>
  Models \<open>waitgroup.go\<close>: the counter, the calls of \<open>Do\<close> and \<open>Wait\<close>, and the goroutines \<open>Do\<close> starts,
  one per function. A function is a name, \<open>None\<close> a nil one; running a nil one, or one that panics, takes
  the process down after the deferred \<open>Done\<close>.
\<close>

datatype 'f member = Started "'f option" | Deferred | Gone

datatype 'f call = Adding "'f option list" | Launching "'f option list" | Waiting | Returned

record 'f group =
  counter :: int
  members :: "'f member list"
  finished :: "'f list"
  down :: bool

definition NewWaitGroup :: "'f group" where
  "NewWaitGroup = \<lparr>counter = 0, members = [], finished = [], down = False\<rparr>"

text \<open>One step of a call; \<open>None\<close>: it is blocked.\<close>

fun call_step :: "'f call \<Rightarrow> 'f group \<Rightarrow> ('f call \<times> 'f group) option" where
  "call_step (Adding fs) g = Some (Launching fs, g\<lparr>counter := counter g + int (length fs)\<rparr>)"
| "call_step (Launching []) g = Some (Returned, g)"
| "call_step (Launching (fn # fs)) g = Some (Launching fs, g\<lparr>members := members g @ [Started fn]\<rparr>)"
| "call_step Waiting g = (if counter g = 0 then Some (Returned, g) else None)"
| "call_step Returned g = None"

text \<open>One step of a goroutine: the function, which may panic, then \<open>Done\<close>, which panics below zero.\<close>

fun member_step :: "bool \<Rightarrow> 'f member \<Rightarrow> 'f group \<Rightarrow> ('f member \<times> 'f group) option" where
  "member_step panics (Started None) g = Some (Deferred, g\<lparr>down := True\<rparr>)"
| "member_step panics (Started (Some f)) g =
     Some (Deferred, if panics then g\<lparr>down := True\<rparr> else g\<lparr>finished := finished g @ [f]\<rparr>)"
| "member_step panics Deferred g =
     Some (Gone, g\<lparr>counter := counter g - 1, down := down g \<or> counter g - 1 < 0\<rparr>)"
| "member_step panics Gone g = None"

record 'f group_system =
  group :: "'f group"
  calls :: "'f call list"

inductive group_step :: "'f group_system \<Rightarrow> 'f group_system \<Rightarrow> bool" where
  new_Do: "group_step s (s\<lparr>calls := calls s @ [Adding fs]\<rparr>)"
| new_Wait: "group_step s (s\<lparr>calls := calls s @ [Waiting]\<rparr>)"
| call: "\<not> down (group s) \<Longrightarrow> calls s = us @ c # vs \<Longrightarrow> call_step c (group s) = Some (c', g) \<Longrightarrow>
    group_step s (s\<lparr>group := g, calls := us @ c' # vs\<rparr>)"
| go: "\<not> down (group s) \<Longrightarrow> members (group s) = us @ m # vs \<Longrightarrow> member_step panics m (group s) = Some (m', g) \<Longrightarrow>
    group_step s (s\<lparr>group := g\<lparr>members := us @ m' # vs\<rparr>\<rparr>)"

inductive_cases group_stepE: "group_step s s'"

fun to_launch :: "'f call \<Rightarrow> int" where
  "to_launch (Launching fs) = int (length fs)"
| "to_launch _ = 0"

fun alive :: "'f member \<Rightarrow> int" where
  "alive Gone = 0"
| "alive _ = 1"

definition group_inv :: "'f group_system \<Rightarrow> bool" where
  "group_inv s \<longleftrightarrow> counter (group s) = sum_list (map to_launch (calls s)) + sum_list (map alive (members (group s)))"

definition group_start :: "'f group_system \<Rightarrow> bool" where
  "group_start s \<longleftrightarrow> s = \<lparr>group = NewWaitGroup, calls = []\<rparr>"

lemma group_step_inv: "group_inv s \<Longrightarrow> group_step s s' \<Longrightarrow> group_inv s'"
proof (erule group_stepE)
  fix us c vs c' g
  assume "group_inv s" "s' = s\<lparr>group := g, calls := us @ c' # vs\<rparr>" "calls s = us @ c # vs"
    "call_step c (group s) = Some (c', g)"
  then show ?thesis
    by (cases "(c, group s)" rule: call_step.cases) (auto simp: group_inv_def split: if_splits)
next
  fix us m vs panics m' g
  assume "group_inv s" "s' = s\<lparr>group := g\<lparr>members := us @ m' # vs\<rparr>\<rparr>" "members (group s) = us @ m # vs"
    "member_step panics m (group s) = Some (m', g)"
  then show ?thesis
    by (cases "(panics, m, group s)" rule: member_step.cases) (auto simp: group_inv_def split: if_splits)
qed (simp_all add: group_inv_def)

interpretation group: step_system group_start group_step group_inv
  by unfold_locales (simp add: group_start_def group_inv_def NewWaitGroup_def, rule group_step_inv)

lemma nonneg_parts: "0 \<le> sum_list (map to_launch cs)" "0 \<le> sum_list (map alive ms)"
proof -
  have "0 \<le> to_launch c" "0 \<le> alive m" for c :: "'a call" and m :: "'b member" by (cases c; simp)(cases m; simp)
  then show "0 \<le> sum_list (map to_launch cs)" "0 \<le> sum_list (map alive ms)"
    by (auto intro!: sum_list_nonneg)
qed

text \<open>
  \<open>Wait\<close> goes on only when every goroutine that any \<open>Do\<close> has counted has been started and has ended, in
  every interleaving.
\<close>

theorem Wait_waits:
  assumes "group_start s0" "group_step\<^sup>*\<^sup>* s0 s" "call_step Waiting (group s) = Some r"
  shows "(\<forall>m \<in> set (members (group s)). m = Gone) \<and> (\<forall>fs. Launching fs \<in> set (calls s) \<longrightarrow> fs = [])"
proof -
  have i: "group_inv s" by (rule group.reach_inv [OF assms(1,2)])
  have "counter (group s) = 0" using assms(3) by (simp split: if_splits)
  then have z: "sum_list (map to_launch (calls s)) = 0" "sum_list (map alive (members (group s))) = 0"
    using i nonneg_parts(1) [of "calls s"] nonneg_parts(2) [of "members (group s)"] by (simp_all add: group_inv_def)
  have "m = Gone" if m: "m \<in> set ms" "sum_list (map alive ms) = 0" for m and ms :: "'a member list"
  proof -
    obtain us vs where "ms = us @ m # vs" using split_list [OF m(1)] by blast
    then show ?thesis using m(2) nonneg_parts(2) [of us] nonneg_parts(2) [of vs] by (cases m) auto
  qed
  moreover have "fs = []" if m: "Launching fs \<in> set cs" "sum_list (map to_launch cs) = 0" for fs and cs :: "'a call list"
  proof -
    obtain us vs where "cs = us @ Launching fs # vs" using split_list [OF m(1)] by blast
    then show ?thesis using m(2) nonneg_parts(1) [of us] nonneg_parts(1) [of vs] by (cases fs) auto
  qed
  ultimately show ?thesis using z by blast
qed

end
