(* ===== verification/Cron_Schedule.thy ===== *)
theory Cron_Schedule
  imports Go_Strings
begin

section \<open>Cron schedules\<close>

text \<open>
  Models \<open>crontab/schedule.go\<close>: parsing a five-field schedule into lookup tables and
  matching a time against them. Indexing a table out of range is the outcome \<open>Panic\<close>;
  the counting loop of \<open>parseTerm\<close> adds in 64-bit arithmetic and is a partial function,
  so that it returns is a theorem.
\<close>

subsection \<open>State\<close>

record schedule =
  sc_minute :: "bool list"
  sc_hour :: "bool list"
  sc_dom :: "bool list"
  sc_month :: "bool list"
  sc_dow :: "bool list"
  domStar :: bool
  dowStar :: bool

text \<open>The errors of the package, with the values their messages carry.\<close>

datatype cron_error =
    WrongFieldCount nat string
  | InvalidStep string string
  | ReversedRange string string
  | InvalidValue string string
  | OutOfRange string int int int

text \<open>What \<open>match\<close> reads of a \<open>time.Time\<close> in its location.\<close>

record civil =
  c_minute :: int
  c_hour :: int
  c_day :: int
  c_month :: int
  c_weekday :: int

subsection \<open>Matching\<close>

definition table_at :: "bool list \<Rightarrow> int \<Rightarrow> (cron_error, bool) gores" where
  "table_at xs i = (if 0 \<le> i \<and> i < int (length xs) then Ok (xs ! nat i) else Panic)"

text \<open>The short-circuit operators of the code.\<close>

definition go_and :: "(cron_error, bool) gores \<Rightarrow> (cron_error, bool) gores \<Rightarrow> (cron_error, bool) gores" where
  "go_and a b = gobind a (\<lambda>x. if x then b else Ok False)"

definition go_or :: "(cron_error, bool) gores \<Rightarrow> (cron_error, bool) gores \<Rightarrow> (cron_error, bool) gores" where
  "go_or a b = gobind a (\<lambda>x. if x then Ok True else b)"

definition go_not :: "(cron_error, bool) gores \<Rightarrow> (cron_error, bool) gores" where
  "go_not a = gobind a (\<lambda>x. Ok (\<not> x))"

definition sched_match :: "schedule \<Rightarrow> civil \<Rightarrow> (cron_error, bool) gores" where
  "sched_match s t =
     gobind (go_or (go_or (go_not (table_at (sc_minute s) (c_minute t)))
                          (go_not (table_at (sc_hour s) (c_hour t))))
                   (go_not (table_at (sc_month s) (c_month t))))
       (\<lambda>miss.
          if miss then Ok False
          else if \<not> domStar s \<and> \<not> dowStar s
          then go_or (table_at (sc_dom s) (c_day t)) (table_at (sc_dow s) (c_weekday t))
          else go_and (table_at (sc_dom s) (c_day t)) (table_at (sc_dow s) (c_weekday t)))"

subsection \<open>Parsing\<close>

definition parseValue :: "string \<Rightarrow> int \<Rightarrow> int \<Rightarrow> string \<Rightarrow> (cron_error, int) gores" where
  "parseValue s minVal maxVal name =
     (case Atoi s of
        None \<Rightarrow> Err (InvalidValue name s)
      | Some v \<Rightarrow> if v < minVal \<or> v > maxVal then Err (OutOfRange name v minVal maxVal) else Ok v)"

definition parseRange ::
    "string \<Rightarrow> int \<Rightarrow> int \<Rightarrow> string \<Rightarrow> bool \<Rightarrow> (cron_error, int \<times> int) gores" where
  "parseRange part minVal maxVal name hasStep =
     (if part = ''*'' then Ok (minVal, maxVal)
      else (case Cut part (CHR ''-'') of
          (loStr, hiStr, found) \<Rightarrow>
            if found then
              gobind (parseValue loStr minVal maxVal name) (\<lambda>lo.
              gobind (parseValue hiStr minVal maxVal name) (\<lambda>hi.
                if hi < lo then Err (ReversedRange name part) else Ok (lo, hi)))
            else
              gobind (parseValue part minVal maxVal name) (\<lambda>v.
                if hasStep then Ok (v, maxVal) else Ok (v, v))))"

text \<open>
  The loop \<open>for v := lo; v <= hi; v += step { set[v] = true }\<close>: the outer option is
  \<open>None\<close> if it never ends, the addition wraps around, a \<open>v\<close> outside the table panics.
\<close>

partial_function (option) fill ::
    "bool list \<Rightarrow> int \<Rightarrow> int \<Rightarrow> int \<Rightarrow> (cron_error, bool list) gores option" where
  "fill tab v hi step =
     (if v \<le> hi
      then (if 0 \<le> v \<and> v < int (length tab)
            then fill (tab[nat v := True]) (wrap64 (v + step)) hi step
            else Some Panic)
      else Some (Ok tab))"

declare fill.simps [code]

definition parseStep :: "string \<Rightarrow> bool \<Rightarrow> string \<Rightarrow> (cron_error, int) gores" where
  "parseStep stepStr hasStep name =
     (if hasStep
      then (case Atoi stepStr of
              None \<Rightarrow> Err (InvalidStep name stepStr)
            | Some n \<Rightarrow> if n \<le> 0 then Err (InvalidStep name stepStr) else Ok n)
      else Ok 1)"

definition parseTerm ::
    "string \<Rightarrow> int \<Rightarrow> int \<Rightarrow> string \<Rightarrow> bool list \<Rightarrow> (cron_error, bool list) gores option" where
  "parseTerm term minVal maxVal name tab =
     (case Cut term (CHR ''/'') of (rangePart, stepStr, hasStep) \<Rightarrow>
        (case gobind (parseStep stepStr hasStep name) (\<lambda>step.
              gobind (parseRange rangePart minVal maxVal name hasStep) (\<lambda>(lo, hi).
                Ok (step, lo, hi))) of
           Ok (step, lo, hi) \<Rightarrow> fill tab lo hi step
         | Err e \<Rightarrow> Some (Err e)
         | Panic \<Rightarrow> Some Panic))"

fun parseTerms ::
    "string list \<Rightarrow> int \<Rightarrow> int \<Rightarrow> string \<Rightarrow> bool list \<Rightarrow> (cron_error, bool list) gores option" where
  "parseTerms [] minVal maxVal name tab = Some (Ok tab)"
| "parseTerms (term # terms) minVal maxVal name tab =
     (case parseTerm term minVal maxVal name tab of
        None \<Rightarrow> None
      | Some (Ok tab) \<Rightarrow> parseTerms terms minVal maxVal name tab
      | Some (Err e) \<Rightarrow> Some (Err e)
      | Some Panic \<Rightarrow> Some Panic)"

definition parseField ::
    "string \<Rightarrow> int \<Rightarrow> int \<Rightarrow> string \<Rightarrow> (cron_error, bool list) gores option" where
  "parseField spec minVal maxVal name =
     parseTerms (Split spec (CHR '','')) minVal maxVal name (replicate (nat (maxVal + 1)) False)"

text \<open>Sequencing of field parsers that may not return, fail or panic.\<close>

definition field_bind ::
    "(cron_error, 'a) gores option \<Rightarrow> ('a \<Rightarrow> (cron_error, 'b) gores option)
      \<Rightarrow> (cron_error, 'b) gores option" where
  "field_bind m f =
     (case m of None \<Rightarrow> None | Some (Ok a) \<Rightarrow> f a | Some (Err e) \<Rightarrow> Some (Err e)
      | Some Panic \<Rightarrow> Some Panic)"

definition parse :: "string \<Rightarrow> (cron_error, schedule) gores option" where
  "parse spec =
     (let fields = Fields spec
      in if length fields \<noteq> 5 then Some (Err (WrongFieldCount (length fields) spec))
         else
           field_bind (parseField (fields ! 0) 0 59 ''minute'') (\<lambda>mi.
           field_bind (parseField (fields ! 1) 0 23 ''hour'') (\<lambda>ho.
           field_bind (parseField (fields ! 2) 1 31 ''day-of-month'') (\<lambda>dm.
           field_bind (parseField (fields ! 3) 1 12 ''month'') (\<lambda>mo.
           field_bind (parseField (fields ! 4) 0 7 ''day-of-week'') (\<lambda>dw.
             let dw = (if dw ! 7 then dw[0 := True] else dw)
             in Some (Ok \<lparr>sc_minute = mi, sc_hour = ho, sc_dom = dm, sc_month = mo, sc_dow = dw,
                         domStar = (fields ! 2 = ''*''), dowStar = (fields ! 4 = ''*'')\<rparr>)))))))"

subsection \<open>The counting loop\<close>

text \<open>
  With a step that cannot carry the counter past \<open>MaxInt64\<close> the loop sets exactly the
  multiples of the step from \<open>lo\<close> up to \<open>hi\<close>.
\<close>

lemma fill_sets:
  assumes "0 < step" "0 \<le> v" "hi < int (length tab)" "int64 hi" "step \<le> MaxInt64 - hi"
  shows "\<exists>tab'. fill tab v hi step = Some (Ok tab') \<and> length tab' = length tab
    \<and> (\<forall>u < length tab. tab' ! u \<longleftrightarrow> tab ! u \<or> (v \<le> int u \<and> int u \<le> hi \<and> step dvd int u - v))"
  using assms
proof (induction "nat (hi - v + 1)" arbitrary: v tab rule: less_induct)
  case less
  show ?case
  proof (cases "v \<le> hi")
    case False
    then show ?thesis by (auto simp: fill.simps [of tab v])
  next
    case True
    have w: "wrap64 (v + step) = v + step"
      using True less.prems by (intro wrap64_id) (simp add: int64_def MinInt64_def)
    let ?tab = "tab[nat v := True]"
    have "nat (hi - (v + step) + 1) < nat (hi - v + 1)" using True less.prems by simp
    from less.hyps [OF this, of ?tab] less.prems obtain tab' where
      tab': "fill ?tab (v + step) hi step = Some (Ok tab')" "length tab' = length tab" and
      nth: "\<forall>u < length tab. tab' ! u \<longleftrightarrow>
        ?tab ! u \<or> (v + step \<le> int u \<and> int u \<le> hi \<and> step dvd int u - (v + step))"
      by auto
    have "fill tab v hi step = Some (Ok tab')"
      using True w tab' less.prems by (simp add: fill.simps [of tab v])
    moreover have "tab' ! u \<longleftrightarrow> tab ! u \<or> (v \<le> int u \<and> int u \<le> hi \<and> step dvd int u - v)"
      if u: "u < length tab" for u
    proof -
      have dvd: "step dvd int u - (v + step) \<longleftrightarrow> step dvd int u - v"
        using dvd_add_left_iff [of step step "int u - (v + step)"] by simp
      have far: "v + step \<le> int u" if "step dvd int u - v" "v \<le> int u" "int u \<noteq> v"
        using zdvd_imp_le [OF that(1)] that by linarith
      show ?thesis
        using nth u dvd far True less.prems
        by (cases "int u = v") (auto simp: nth_list_update)
    qed
    ultimately show ?thesis using tab'(2) by blast
  qed
qed

text \<open>Whatever the step, the loop ends.\<close>

lemma fill_returns:
  assumes "0 < step" "int64 step" "int64 v"
  shows "\<exists>r. fill tab v hi step = Some r"
proof (cases "v < 0")
  case True
  then show ?thesis by (subst fill.simps) simp
next
  case False
  then show ?thesis
    using assms
  proof (induction "nat (hi - v + 1)" arbitrary: v tab rule: less_induct)
    case less
    show ?case
    proof (cases "v \<le> hi \<and> v < int (length tab)")
      case False
      then show ?thesis by (subst fill.simps) auto
    next
      case True
      let ?v = "wrap64 (v + step)"
      have "\<exists>r. fill (tab[nat v := True]) ?v hi step = Some r"
      proof (cases "v + step \<le> MaxInt64")
        case no: True
        then have v: "?v = v + step"
          using less.prems by (intro wrap64_id) (simp add: int64_def MinInt64_def)
        have "int64 ?v" by simp
        then show ?thesis
          using less.hyps [of ?v "tab[nat v := True]"] less.prems True v by simp
      next
        case over: False
        have "?v < 0"
          using over less.prems by (intro wrap64_over(2)) (simp_all add: int64_def)
        then show ?thesis by (subst fill.simps) simp
      qed
      then show ?thesis using True less.prems by (simp add: fill.simps [of tab v])
    qed
  qed
qed

subsection \<open>Schedules as a user writes them\<close>

text \<open>
  The grammar of a schedule, its textual form, and, independently of the code, the values a
  field stands for.
\<close>

datatype crange = Star | Single nat | Span nat nat

datatype cterm = Plain crange | Stepped crange nat

type_synonym cfield = "cterm list"

record cspec =
  f_minute :: cfield
  f_hour :: cfield
  f_dom :: cfield
  f_month :: cfield
  f_dow :: cfield

fun show_range :: "crange \<Rightarrow> string" where
  "show_range Star = ''*''"
| "show_range (Single a) = decimal a"
| "show_range (Span a b) = decimal a @ CHR ''-'' # decimal b"

fun show_term :: "cterm \<Rightarrow> string" where
  "show_term (Plain r) = show_range r"
| "show_term (Stepped r n) = show_range r @ CHR ''/'' # decimal n"

definition show_field :: "cfield \<Rightarrow> string" where
  "show_field ts = Join (map show_term ts) '',''"

definition show_spec :: "cspec \<Rightarrow> string" where
  "show_spec sp =
     Join (map show_field [f_minute sp, f_hour sp, f_dom sp, f_month sp, f_dow sp]) '' ''"

fun range_bounds :: "int \<Rightarrow> int \<Rightarrow> bool \<Rightarrow> crange \<Rightarrow> int \<times> int" where
  "range_bounds lo hi stepped Star = (lo, hi)"
| "range_bounds lo hi stepped (Single a) = (int a, if stepped then hi else int a)"
| "range_bounds lo hi stepped (Span a b) = (int a, int b)"

fun term_values :: "int \<Rightarrow> int \<Rightarrow> cterm \<Rightarrow> int set" where
  "term_values lo hi (Plain r) = (case range_bounds lo hi False r of (a, b) \<Rightarrow> {a..b})"
| "term_values lo hi (Stepped r n) =
     (case range_bounds lo hi True r of (a, b) \<Rightarrow> {v \<in> {a..b}. int n dvd v - a})"

definition field_values :: "int \<Rightarrow> int \<Rightarrow> cfield \<Rightarrow> int set" where
  "field_values lo hi ts = (\<Union>t \<in> set ts. term_values lo hi t)"

fun wf_range :: "int \<Rightarrow> int \<Rightarrow> crange \<Rightarrow> bool" where
  "wf_range lo hi Star = True"
| "wf_range lo hi (Single a) = (lo \<le> int a \<and> int a \<le> hi)"
| "wf_range lo hi (Span a b) = (lo \<le> int a \<and> a \<le> b \<and> int b \<le> hi)"

fun wf_term :: "int \<Rightarrow> int \<Rightarrow> cterm \<Rightarrow> bool" where
  "wf_term lo hi (Plain r) = wf_range lo hi r"
| "wf_term lo hi (Stepped r n) = (wf_range lo hi r \<and> 0 < n \<and> int n \<le> MaxInt64 - hi)"

definition wf_field :: "int \<Rightarrow> int \<Rightarrow> cfield \<Rightarrow> bool" where
  "wf_field lo hi ts \<longleftrightarrow> ts \<noteq> [] \<and> list_all (wf_term lo hi) ts"

definition wf_spec :: "cspec \<Rightarrow> bool" where
  "wf_spec sp \<longleftrightarrow> wf_field 0 59 (f_minute sp) \<and> wf_field 0 23 (f_hour sp)
     \<and> wf_field 1 31 (f_dom sp) \<and> wf_field 1 12 (f_month sp) \<and> wf_field 0 7 (f_dow sp)"

text \<open>
  When a schedule fires: minute, hour and month must match; a day matches by either day field
  when both are restricted and by both when one of them is \<open>*\<close>; day-of-week 7 is Sunday.
\<close>

definition fires :: "cspec \<Rightarrow> civil \<Rightarrow> bool" where
  "fires sp t \<longleftrightarrow>
     c_minute t \<in> field_values 0 59 (f_minute sp) \<and> c_hour t \<in> field_values 0 23 (f_hour sp)
     \<and> c_month t \<in> field_values 1 12 (f_month sp)
     \<and> (let day = (c_day t \<in> field_values 1 31 (f_dom sp));
            weekday = (c_weekday t \<in> (\<lambda>v. v mod 7) ` field_values 0 7 (f_dow sp))
        in if f_dom sp \<noteq> [Plain Star] \<and> f_dow sp \<noteq> [Plain Star]
           then day \<or> weekday else day \<and> weekday)"

definition valid_civil :: "civil \<Rightarrow> bool" where
  "valid_civil t \<longleftrightarrow> 0 \<le> c_minute t \<and> c_minute t \<le> 59 \<and> 0 \<le> c_hour t \<and> c_hour t \<le> 23
     \<and> 1 \<le> c_day t \<and> c_day t \<le> 31 \<and> 1 \<le> c_month t \<and> c_month t \<le> 12
     \<and> 0 \<le> c_weekday t \<and> c_weekday t \<le> 6"

subsection \<open>The characters of a printed schedule\<close>

lemma decimal_notin [simp]:
  "CHR ''-'' \<notin> set (decimal n)" "CHR ''/'' \<notin> set (decimal n)" "CHR '','' \<notin> set (decimal n)"
  "CHR ''*'' \<notin> set (decimal n)"
  using decimal_digits [of n] by (auto simp: is_digit_def Let_def)

lemma decimal_plain: "c \<in> set (decimal n) \<Longrightarrow> plain c"
  using decimal_digits is_digit_plain by blast

lemma show_range_chars [simp]:
  "CHR ''/'' \<notin> set (show_range r)" "CHR '','' \<notin> set (show_range r)"
  by (cases r; simp)+

lemma show_range_nonempty [simp]: "show_range r \<noteq> []"
  by (cases r) auto

lemma show_term_chars: "CHR '','' \<notin> set (show_term t)"
  by (cases t) auto

lemma show_range_plain: "c \<in> set (show_range r) \<Longrightarrow> plain c"
  by (cases r) (auto simp: decimal_plain, simp_all add: plain_def)

lemma show_term_plain: "c \<in> set (show_term t) \<Longrightarrow> plain c"
  by (cases t) (auto simp: decimal_plain show_range_plain, simp_all add: plain_def)

lemma show_term_nonempty [simp]: "show_term t \<noteq> []"
  by (cases t) auto

lemma show_field_plain: "c \<in> set (show_field ts) \<Longrightarrow> plain c"
proof -
  assume "c \<in> set (show_field ts)"
  then have "c = CHR '','' \<or> (\<exists>t \<in> set ts. c \<in> set (show_term t))"
    using set_Join_subset [of "map show_term ts" "'',''"] by (auto simp: show_field_def)
  moreover have "plain (CHR '','')" by (simp add: plain_def)
  ultimately show "plain c" using show_term_plain by blast
qed

lemma show_field_nonempty: "ts \<noteq> [] \<Longrightarrow> show_field ts \<noteq> []"
  by (cases ts; cases "tl ts") (auto simp: show_field_def)

lemma Split_show_field: "ts \<noteq> [] \<Longrightarrow> Split (show_field ts) (CHR '','') = map show_term ts"
  unfolding show_field_def by (rule Split_Join) (auto simp: show_term_chars)

lemma decimal_not_star: "decimal n \<noteq> ''*''"
  using decimal_notin(4) [of n] by (metis list.set_intros(1))

lemma show_term_star: "show_term t = ''*'' \<longleftrightarrow> t = Plain Star"
proof (cases t)
  case (Plain r)
  then show ?thesis
    by (cases r) (auto simp: decimal_not_star Cons_eq_append_conv append_eq_Cons_conv)
next
  case (Stepped r n)
  have "CHR ''/'' \<in> set (show_term t)" using Stepped by simp
  then have "show_term t \<noteq> ''*''" by (auto simp del: show_term.simps)
  with Stepped show ?thesis by simp
qed

lemma show_field_star: "ts \<noteq> [] \<Longrightarrow> show_field ts = ''*'' \<longleftrightarrow> ts = [Plain Star]"
proof
  assume ts: "ts \<noteq> []" and star: "show_field ts = ''*''"
  have "map show_term ts = Split ''*'' (CHR '','')" using Split_show_field [OF ts] star by simp
  then show "ts = [Plain Star]" by (auto simp: show_term_star)
qed (simp add: show_field_def)

subsection \<open>Parsing what was printed\<close>

lemma parseValue_decimal:
  "lo \<le> int a \<Longrightarrow> int a \<le> hi \<Longrightarrow> int64 hi \<Longrightarrow> parseValue (decimal a) lo hi name = Ok (int a)"
  by (simp add: parseValue_def Atoi_decimal int64_def MinInt64_def)

lemma parseRange_show:
  assumes "wf_range lo hi r" "int64 hi"
  shows "parseRange (show_range r) lo hi name stepped = Ok (range_bounds lo hi stepped r)"
  using assms
  by (cases r) (auto simp: parseRange_def Cut_none Cut_append parseValue_decimal decimal_not_star
      Cons_eq_append_conv append_eq_Cons_conv)

lemma wf_range_bounds:
  "wf_range lo hi r \<Longrightarrow> lo \<le> hi \<Longrightarrow> range_bounds lo hi stepped r = (a, b) \<Longrightarrow> lo \<le> a \<and> b \<le> hi"
  by (cases r) (auto split: if_splits)

lemma parseTerm_show:
  assumes "wf_term lo hi t" "0 \<le> lo" "lo \<le> hi" "hi < 60" "hi < int (length tab)"
  shows "\<exists>tab'. parseTerm (show_term t) lo hi name tab = Some (Ok tab') \<and> length tab' = length tab
    \<and> (\<forall>u < length tab. tab' ! u \<longleftrightarrow> tab ! u \<or> int u \<in> term_values lo hi t)"
proof -
  have hi: "int64 hi" using assms by (simp add: int64_def MinInt64_def MaxInt64_def)
  show ?thesis
  proof (cases t)
    case (Plain r)
    obtain a b where ab: "range_bounds lo hi False r = (a, b)" by force
    from wf_range_bounds [OF _ assms(3) ab] have bd: "lo \<le> a" "b \<le> hi" using assms Plain by auto
    have "int64 b \<or> b < a"
      using bd assms hi by (auto simp: int64_def MinInt64_def)
    then have "\<exists>tab'. fill tab a b 1 = Some (Ok tab') \<and> length tab' = length tab
      \<and> (\<forall>u < length tab. tab' ! u \<longleftrightarrow> tab ! u \<or> (a \<le> int u \<and> int u \<le> b \<and> 1 dvd int u - a))"
    proof
      assume "int64 b"
      then show ?thesis using bd assms by (intro fill_sets) (simp_all add: MaxInt64_def)
    qed (auto simp: fill.simps)
    then show ?thesis
      using Plain assms parseRange_show [of lo hi r name False] hi ab
      by (simp add: parseTerm_def parseStep_def Cut_none)
  next
    case (Stepped r n)
    obtain a b where ab: "range_bounds lo hi True r = (a, b)" by force
    from wf_range_bounds [OF _ assms(3) ab] have bd: "lo \<le> a" "b \<le> hi" using assms Stepped by auto
    have n: "0 < n" "int n \<le> MaxInt64 - hi" using assms Stepped by simp_all
    then have n64: "int64 (int n)" using assms by (simp add: int64_def MinInt64_def)
    have "int64 b \<or> b < a"
      using bd assms hi by (auto simp: int64_def MinInt64_def)
    then have "\<exists>tab'. fill tab a b (int n) = Some (Ok tab') \<and> length tab' = length tab
      \<and> (\<forall>u < length tab. tab' ! u \<longleftrightarrow> tab ! u \<or> (a \<le> int u \<and> int u \<le> b \<and> int n dvd int u - a))"
    proof
      assume "int64 b"
      then show ?thesis using bd assms n by (intro fill_sets) simp_all
    qed (auto simp: fill.simps)
    then show ?thesis
      using Stepped assms parseRange_show [of lo hi r name True] hi ab n
      by (simp add: parseTerm_def parseStep_def Cut_append Atoi_decimal [OF n64])
  qed
qed

lemma parseTerms_show:
  assumes "list_all (wf_term lo hi) ts" "0 \<le> lo" "lo \<le> hi" "hi < 60" "hi < int (length tab)"
  shows "\<exists>tab'. parseTerms (map show_term ts) lo hi name tab = Some (Ok tab')
    \<and> length tab' = length tab
    \<and> (\<forall>u < length tab. tab' ! u \<longleftrightarrow> tab ! u \<or> int u \<in> field_values lo hi ts)"
  using assms(1,5)
proof (induction ts arbitrary: tab)
  case Nil
  then show ?case by (simp add: field_values_def)
next
  case (Cons t ts)
  from parseTerm_show [of lo hi t tab name] Cons.prems assms(2-4) obtain tab1 where
    1: "parseTerm (show_term t) lo hi name tab = Some (Ok tab1)" "length tab1 = length tab"
      "\<forall>u < length tab. tab1 ! u \<longleftrightarrow> tab ! u \<or> int u \<in> term_values lo hi t" by auto
  from Cons.IH [of tab1] Cons.prems 1(2) obtain tab2 where
    2: "parseTerms (map show_term ts) lo hi name tab1 = Some (Ok tab2)" "length tab2 = length tab"
      "\<forall>u < length tab. tab2 ! u \<longleftrightarrow> tab1 ! u \<or> int u \<in> field_values lo hi ts" by auto
  show ?case using 1 2 by (auto simp: field_values_def)
qed

lemma parseField_show:
  assumes "wf_field lo hi ts" "0 \<le> lo" "lo \<le> hi" "hi < 60"
  shows "\<exists>tab. parseField (show_field ts) lo hi name = Some (Ok tab) \<and> int (length tab) = hi + 1
    \<and> (\<forall>v. 0 \<le> v \<and> v \<le> hi \<longrightarrow> (tab ! nat v \<longleftrightarrow> v \<in> field_values lo hi ts))"
proof -
  have "ts \<noteq> []" "list_all (wf_term lo hi) ts" using assms(1) by (simp_all add: wf_field_def)
  with parseTerms_show [of lo hi ts "replicate (nat (hi + 1)) False" name] assms obtain tab where
    tab: "parseTerms (map show_term ts) lo hi name (replicate (nat (hi + 1)) False) = Some (Ok tab)"
      "length tab = nat (hi + 1)"
      "\<forall>u < nat (hi + 1). tab ! u \<longleftrightarrow> int u \<in> field_values lo hi ts" by auto
  have "tab ! nat v \<longleftrightarrow> v \<in> field_values lo hi ts" if "0 \<le> v" "v \<le> hi" for v
    using tab(3) that by simp
  with tab assms \<open>ts \<noteq> []\<close> show ?thesis by (simp add: parseField_def Split_show_field)
qed

subsection \<open>Returning, panicking and matching\<close>

lemma parseStep_pos: "parseStep st hs name = Ok n \<Longrightarrow> 0 < n \<and> int64 n"
  by (auto simp: parseStep_def int64_def MinInt64_def MaxInt64_def dest: Atoi_int64
      split: if_splits option.splits)

lemma parseStep_no_panic: "parseStep st hs name \<noteq> Panic"
  by (auto simp: parseStep_def split: option.splits)

lemma parseValue_Ok: "parseValue s lo hi name = Ok v \<Longrightarrow> lo \<le> v \<and> v \<le> hi"
  by (auto simp: parseValue_def split: option.splits if_splits)

lemma parseValue_no_panic: "parseValue s lo hi name \<noteq> Panic"
  by (auto simp: parseValue_def split: option.splits)

lemma parseRange_Ok:
  "parseRange p lo hi name hs = Ok (a, b) \<Longrightarrow> lo \<le> hi \<Longrightarrow> lo \<le> a \<and> a \<le> b \<and> b \<le> hi"
  by (auto simp: parseRange_def dest!: parseValue_Ok split: if_splits prod.splits)

lemma parseRange_no_panic: "parseRange p lo hi name hs \<noteq> Panic"
  by (auto simp: parseRange_def gobind_Panic_iff parseValue_no_panic split: prod.splits)

text \<open>The steps a schedule text carries, field by field and term by term.\<close>

definition step_small :: "string \<Rightarrow> bool" where
  "step_small term \<longleftrightarrow>
     (case Cut term (CHR ''/'') of (r, st, hs) \<Rightarrow>
        (case Atoi st of None \<Rightarrow> True | Some n \<Rightarrow> n \<le> MaxInt64 - 59))"

definition steps_small :: "string \<Rightarrow> bool" where
  "steps_small spec \<longleftrightarrow> list_all (\<lambda>f. list_all step_small (Split f (CHR '',''))) (Fields spec)"

lemma fill_length:
  assumes ret: "fill t v h k = Some r"
  shows "\<forall>t'. r = Ok t' \<longrightarrow> length t' = length t"
proof (rule fill.raw_induct
    [where P = "\<lambda>t v h k r. \<forall>t'. r = Ok t' \<longrightarrow> length t' = length t", OF _ ret])
  fix f t v h k r
  assume IH: "\<And>t v h k r. f t v h k = Some r \<Longrightarrow> \<forall>t'. r = Ok t' \<longrightarrow> length t' = length t"
    and eq: "(if v \<le> h then if 0 \<le> v \<and> v < int (length t)
      then f (t[nat v := True]) (wrap64 (v + k)) h k else Some Panic else Some (Ok t)) = Some r"
  show "\<forall>t'. r = Ok t' \<longrightarrow> length t' = length t"
  proof (cases "v \<le> h \<and> 0 \<le> v \<and> v < int (length t)")
    case True
    with eq have "f (t[nat v := True]) (wrap64 (v + k)) h k = Some r" by simp
    from IH [OF this] show ?thesis by simp
  qed (use eq in \<open>auto split: if_splits\<close>)
qed

text \<open>
  One term: the parser returns, with tables of the same length; a panic needs a step near
  \<open>MaxInt64\<close>.
\<close>

lemma parseTerm_returns:
  assumes "0 \<le> lo" "lo \<le> hi" "hi < 60" "hi < int (length tab)"
  shows "\<exists>r. parseTerm term lo hi name tab = Some r \<and> (step_small term \<longrightarrow> r \<noteq> Panic)
    \<and> (\<forall>tab'. r = Ok tab' \<longrightarrow> length tab' = length tab)"
proof -
  obtain rp st hs where cut: "Cut term (CHR ''/'') = (rp, st, hs)" by (cases "Cut term (CHR ''/'')")
  let ?m = "gobind (parseStep st hs name) (\<lambda>step.
      gobind (parseRange rp lo hi name hs) (\<lambda>(a, b). Ok (step, a, b)))"
  show ?thesis
  proof (cases ?m)
    case (Ok x)
    then obtain step a b where st: "parseStep st hs name = Ok step"
      and rg: "parseRange rp lo hi name hs = Ok (a, b)" and x: "x = (step, a, b)"
      by (auto split: prod.splits)
    note step = parseStep_pos [OF st] and ab = parseRange_Ok [OF rg assms(2)]
    have a64: "int64 a" "int64 b" using ab assms by (simp_all add: int64_def MinInt64_def MaxInt64_def)
    obtain r where r: "fill tab a b step = Some r"
      using fill_returns [of step a tab b] step a64 by blast
    have len: "length tab' = length tab" if "r = Ok tab'" for tab'
      using fill_length [OF r] that by blast
    have safe: "r \<noteq> Panic" if "step_small term"
    proof -
      have "step \<le> MaxInt64 - 59"
        using that cut st
        by (auto simp: step_small_def parseStep_def MaxInt64_def split: if_splits option.splits)
      then have "\<exists>tab'. fill tab a b step = Some (Ok tab')"
        using fill_sets [of step a b tab] step ab a64 assms by fastforce
      then show ?thesis using r by auto
    qed
    show ?thesis using Ok x r len safe cut by (simp add: parseTerm_def)
  next
    case (Err e)
    then show ?thesis using cut by (simp add: parseTerm_def)
  next
    case Panic
    then have False
      by (auto simp: gobind_Panic_iff parseStep_no_panic parseRange_no_panic split: prod.splits)
    then show ?thesis ..
  qed
qed

lemma parseTerms_returns:
  assumes "0 \<le> lo" "lo \<le> hi" "hi < 60" "hi < int (length tab)"
  shows "\<exists>r. parseTerms ts lo hi name tab = Some r \<and> (list_all step_small ts \<longrightarrow> r \<noteq> Panic)
    \<and> (\<forall>tab'. r = Ok tab' \<longrightarrow> length tab' = length tab)"
  using assms(4)
proof (induction ts arbitrary: tab)
  case (Cons t ts)
  from parseTerm_returns [OF assms(1-3) Cons.prems, of t name] obtain r where
    r: "parseTerm t lo hi name tab = Some r" "step_small t \<longrightarrow> r \<noteq> Panic"
      "\<forall>tab'. r = Ok tab' \<longrightarrow> length tab' = length tab" by blast
  show ?case
  proof (cases r)
    case (Ok tab1)
    with r Cons.IH [of tab1] Cons.prems show ?thesis by auto
  qed (use r in auto)
qed simp

lemma parseField_returns:
  assumes "0 \<le> lo" "lo \<le> hi" "hi < 60"
  shows "\<exists>r. parseField f lo hi name = Some r
    \<and> (list_all step_small (Split f (CHR '','')) \<longrightarrow> r \<noteq> Panic)
    \<and> (\<forall>tab. r = Ok tab \<longrightarrow> int (length tab) = hi + 1)"
proof -
  have "hi < int (length (replicate (nat (hi + 1)) False))" using assms by simp
  from parseTerms_returns [OF assms this, of "Split f (CHR '','')" name] assms show ?thesis
    by (auto simp: parseField_def)
qed

lemma field_bind_returns:
  assumes "\<exists>r. m = Some r \<and> (q \<longrightarrow> r \<noteq> Panic) \<and> (\<forall>a. r = Ok a \<longrightarrow> P a)"
    and "\<And>a. P a \<Longrightarrow> \<exists>r. f a = Some r \<and> (q \<longrightarrow> r \<noteq> Panic) \<and> (\<forall>b. r = Ok b \<longrightarrow> R b)"
  shows "\<exists>r. field_bind m f = Some r \<and> (q \<longrightarrow> r \<noteq> Panic) \<and> (\<forall>b. r = Ok b \<longrightarrow> R b)"
proof -
  from assms(1) obtain r where r: "m = Some r" "q \<longrightarrow> r \<noteq> Panic" "\<forall>a. r = Ok a \<longrightarrow> P a" by blast
  then show ?thesis using assms(2) by (cases r) (auto simp: field_bind_def)
qed

text \<open>The tables of a parsed schedule are exactly as long as the fields need.\<close>

definition sized :: "schedule \<Rightarrow> bool" where
  "sized s \<longleftrightarrow> length (sc_minute s) = 60 \<and> length (sc_hour s) = 24 \<and> length (sc_dom s) = 32
     \<and> length (sc_month s) = 13 \<and> length (sc_dow s) = 8"

lemma parse_result:
  "\<exists>r. parse spec = Some r \<and> (steps_small spec \<longrightarrow> r \<noteq> Panic) \<and> (\<forall>s. r = Ok s \<longrightarrow> sized s)"
proof (cases "length (Fields spec) = 5")
  case False
  then show ?thesis by (simp add: parse_def)
next
  case True
  let ?F = "Fields spec"
  have field: "\<exists>r. parseField (?F ! i) lo hi name = Some r \<and> (steps_small spec \<longrightarrow> r \<noteq> Panic)
      \<and> (\<forall>tab. r = Ok tab \<longrightarrow> int (length tab) = hi + 1)"
    if "i < 5" "0 \<le> lo" "lo \<le> hi" "hi < 60" for i lo hi name
    using parseField_returns [OF that(2-4), of "?F ! i" name] that(1) True
    unfolding steps_small_def list_all_length by auto
  show ?thesis
    unfolding parse_def Let_def using True
    by (simp del: nth_Cons_numeral)
      (intro field_bind_returns [OF field] field_bind_returns [OF field, simplified];
        auto simp: sized_def)
qed

lemma sched_match_eq:
  assumes "sized s" "valid_civil t"
  shows "sched_match s t = Ok (sc_minute s ! nat (c_minute t) \<and> sc_hour s ! nat (c_hour t)
      \<and> sc_month s ! nat (c_month t)
      \<and> (if \<not> domStar s \<and> \<not> dowStar s
         then sc_dom s ! nat (c_day t) \<or> sc_dow s ! nat (c_weekday t)
         else sc_dom s ! nat (c_day t) \<and> sc_dow s ! nat (c_weekday t)))"
  using assms
  by (simp add: sched_match_def table_at_def sized_def valid_civil_def go_or_def go_and_def
      go_not_def del: gobind_Ok_iff)

text \<open>A printed schedule splits back into its five fields.\<close>

lemma Fields_show_spec:
  assumes "wf_spec sp"
  shows "Fields (show_spec sp) =
    map show_field [f_minute sp, f_hour sp, f_dom sp, f_month sp, f_dow sp]"
  unfolding show_spec_def
  by (rule Fields_Join)
    (use assms in \<open>auto simp: wf_spec_def wf_field_def show_field_plain show_field_nonempty\<close>)

lemma parse_show_spec:
  assumes "wf_spec sp"
  shows "\<exists>s. parse (show_spec sp) = Some (Ok s) \<and> sized s
    \<and> (\<forall>v. 0 \<le> v \<and> v \<le> 59 \<longrightarrow> (sc_minute s ! nat v \<longleftrightarrow> v \<in> field_values 0 59 (f_minute sp)))
    \<and> (\<forall>v. 0 \<le> v \<and> v \<le> 23 \<longrightarrow> (sc_hour s ! nat v \<longleftrightarrow> v \<in> field_values 0 23 (f_hour sp)))
    \<and> (\<forall>v. 0 \<le> v \<and> v \<le> 31 \<longrightarrow> (sc_dom s ! nat v \<longleftrightarrow> v \<in> field_values 1 31 (f_dom sp)))
    \<and> (\<forall>v. 0 \<le> v \<and> v \<le> 12 \<longrightarrow> (sc_month s ! nat v \<longleftrightarrow> v \<in> field_values 1 12 (f_month sp)))
    \<and> (\<forall>v. 0 \<le> v \<and> v \<le> 6 \<longrightarrow>
         (sc_dow s ! nat v \<longleftrightarrow> v \<in> (\<lambda>v. v mod 7) ` field_values 0 7 (f_dow sp)))
    \<and> (domStar s \<longleftrightarrow> f_dom sp = [Plain Star]) \<and> (dowStar s \<longleftrightarrow> f_dow sp = [Plain Star])"
proof -
  have wf: "wf_field 0 59 (f_minute sp)" "wf_field 0 23 (f_hour sp)" "wf_field 1 31 (f_dom sp)"
    "wf_field 1 12 (f_month sp)" "wf_field 0 7 (f_dow sp)"
    using assms by (simp_all add: wf_spec_def)
  obtain mi where mi: "parseField (show_field (f_minute sp)) 0 59 ''minute'' = Some (Ok mi)"
    "length mi = 60" "\<forall>v. 0 \<le> v \<and> v \<le> 59 \<longrightarrow> (mi ! nat v \<longleftrightarrow> v \<in> field_values 0 59 (f_minute sp))"
    using parseField_show [OF wf(1), of "''minute''"] by auto
  obtain ho where ho: "parseField (show_field (f_hour sp)) 0 23 ''hour'' = Some (Ok ho)"
    "length ho = 24" "\<forall>v. 0 \<le> v \<and> v \<le> 23 \<longrightarrow> (ho ! nat v \<longleftrightarrow> v \<in> field_values 0 23 (f_hour sp))"
    using parseField_show [OF wf(2), of "''hour''"] by auto
  obtain dm where dm: "parseField (show_field (f_dom sp)) 1 31 ''day-of-month'' = Some (Ok dm)"
    "length dm = 32" "\<forall>v. 0 \<le> v \<and> v \<le> 31 \<longrightarrow> (dm ! nat v \<longleftrightarrow> v \<in> field_values 1 31 (f_dom sp))"
    using parseField_show [OF wf(3), of "''day-of-month''"] by auto
  obtain mo where mo: "parseField (show_field (f_month sp)) 1 12 ''month'' = Some (Ok mo)"
    "length mo = 13" "\<forall>v. 0 \<le> v \<and> v \<le> 12 \<longrightarrow> (mo ! nat v \<longleftrightarrow> v \<in> field_values 1 12 (f_month sp))"
    using parseField_show [OF wf(4), of "''month''"] by auto
  obtain dw where dw: "parseField (show_field (f_dow sp)) 0 7 ''day-of-week'' = Some (Ok dw)"
    "length dw = 8" "\<forall>v. 0 \<le> v \<and> v \<le> 7 \<longrightarrow> (dw ! nat v \<longleftrightarrow> v \<in> field_values 0 7 (f_dow sp))"
    using parseField_show [OF wf(5), of "''day-of-week''"] by auto
  have vals: "field_values 0 7 (f_dow sp) \<subseteq> {0..7}"
  proof
    fix v assume "v \<in> field_values 0 7 (f_dow sp)"
    then obtain t where t: "t \<in> set (f_dow sp)" "v \<in> term_values 0 7 t"
      by (auto simp: field_values_def)
    then have "wf_term 0 7 t" using wf(5) by (auto simp: wf_field_def list_all_iff)
    then show "v \<in> {0..7}" using t(2) wf_range_bounds [of 0 7]
      by (cases t) (fastforce split: prod.splits)+
  qed
  define dw' where "dw' = (if dw ! 7 then dw[0 := True] else dw)"
  have len: "length dw' = 8" using dw(2) by (simp add: dw'_def)
  have dw7: "dw' ! nat v \<longleftrightarrow> v \<in> (\<lambda>v. v mod 7) ` field_values 0 7 (f_dow sp)"
    if "0 \<le> v" "v \<le> 6" for v
  proof -
    have seven: "dw ! 7 \<longleftrightarrow> 7 \<in> field_values 0 7 (f_dow sp)"
      using dw(3) [rule_format, of 7] by simp
    have "u mod 7 = v \<longleftrightarrow> u = v \<or> (u = 7 \<and> v = 0)" if "u \<in> {0..7}" for u
      using that \<open>0 \<le> v\<close> \<open>v \<le> 6\<close> by (cases "u = 7") auto
    then have "(\<exists>u \<in> field_values 0 7 (f_dow sp). u mod 7 = v) \<longleftrightarrow>
        (\<exists>u \<in> field_values 0 7 (f_dow sp). u = v \<or> (u = 7 \<and> v = 0))"
      using vals by (intro bex_cong refl) blast
    then have "v \<in> (\<lambda>v. v mod 7) ` field_values 0 7 (f_dow sp) \<longleftrightarrow>
        v \<in> field_values 0 7 (f_dow sp) \<or> (7 \<in> field_values 0 7 (f_dow sp) \<and> v = 0)"
      by (auto simp: image_iff)
    moreover have "dw ! nat v \<longleftrightarrow> v \<in> field_values 0 7 (f_dow sp)" using dw(3) that by simp
    ultimately show ?thesis using seven dw(2) that by (cases "v = 0") (auto simp: dw'_def nth_list_update)
  qed
  have ne: "f_dom sp \<noteq> []" "f_dow sp \<noteq> []" using wf by (simp_all add: wf_field_def)
  let ?s = "\<lparr>sc_minute = mi, sc_hour = ho, sc_dom = dm, sc_month = mo,
      sc_dow = dw', domStar = (f_dom sp = [Plain Star]), dowStar = (f_dow sp = [Plain Star])\<rparr>"
  have "parse (show_spec sp) = Some (Ok ?s)"
    using mi(1) ho(1) dm(1) mo(1) dw(1)
    by (simp add: parse_def Fields_show_spec [OF assms] field_bind_def Let_def dw'_def
        show_field_star ne)
  then show ?thesis
    using mi(2,3) ho(2,3) dm(2,3) mo(2,3) len dw7
    by (intro exI [of _ ?s] conjI) (simp_all add: sized_def)
qed

lemma parse_fires:
  assumes "wf_spec sp" and "valid_civil t"
  shows "\<exists>s. parse (show_spec sp) = Some (Ok s) \<and> sched_match s t = Ok (fires sp t)"
proof -
  from parse_show_spec [OF assms(1)] obtain s where
    s: "parse (show_spec sp) = Some (Ok s)" "sized s"
      "\<forall>v. 0 \<le> v \<and> v \<le> 59 \<longrightarrow> (sc_minute s ! nat v \<longleftrightarrow> v \<in> field_values 0 59 (f_minute sp))"
      "\<forall>v. 0 \<le> v \<and> v \<le> 23 \<longrightarrow> (sc_hour s ! nat v \<longleftrightarrow> v \<in> field_values 0 23 (f_hour sp))"
      "\<forall>v. 0 \<le> v \<and> v \<le> 31 \<longrightarrow> (sc_dom s ! nat v \<longleftrightarrow> v \<in> field_values 1 31 (f_dom sp))"
      "\<forall>v. 0 \<le> v \<and> v \<le> 12 \<longrightarrow> (sc_month s ! nat v \<longleftrightarrow> v \<in> field_values 1 12 (f_month sp))"
      "\<forall>v. 0 \<le> v \<and> v \<le> 6 \<longrightarrow>
         (sc_dow s ! nat v \<longleftrightarrow> v \<in> (\<lambda>v. v mod 7) ` field_values 0 7 (f_dow sp))"
      "domStar s \<longleftrightarrow> f_dom sp = [Plain Star]" "dowStar s \<longleftrightarrow> f_dow sp = [Plain Star]"
    by blast
  have "sched_match s t = Ok (fires sp t)"
    using assms(2) s(3-9)
    by (simp add: sched_match_eq [OF s(2) assms(2)] fires_def valid_civil_def Let_def)
  with s(1) show ?thesis by blast
qed

subsection \<open>Properties\<close>

text \<open>
  C37: a schedule means what it says. For every well-formed schedule and every civil time,
  parsing its text succeeds and \<open>match\<close> answers exactly whether the schedule fires then: by
  the union of the two day fields when both are restricted, by their intersection when one is
  \<open>*\<close>, with 7 and 0 both Sunday.
\<close>

theorem parse_match_correct:
  assumes "wf_spec sp" and "valid_civil t"
  shows "\<exists>s. parse (show_spec sp) = Some (Ok s) \<and> sched_match s t = Ok (fires sp t)"
  using assms by (rule parse_fires)

definition example_spec :: cspec where
  "example_spec = \<lparr>f_minute = [Plain (Single 1)], f_hour = [Plain (Single 0)], f_dom = [Plain (Single 1)],
     f_month = [Plain Star], f_dow = [Plain (Single 1)]\<rparr>"

definition new_year :: civil where
  "new_year = \<lparr>c_minute = 1, c_hour = 0, c_day = 1, c_month = 1, c_weekday = 4\<rparr>"

theorem parse_match_correct_witness:
  "wf_spec example_spec \<and> valid_civil new_year \<and> fires example_spec new_year
    \<and> (\<exists>s. parse (show_spec example_spec) = Some (Ok s) \<and> sched_match s new_year = Ok True)"
proof -
  have w: "wf_spec example_spec" "valid_civil new_year"
    by (simp_all add: example_spec_def new_year_def wf_spec_def wf_field_def valid_civil_def)
  have f: "fires example_spec new_year"
    by (simp add: fires_def example_spec_def new_year_def field_values_def Let_def)
  from parse_match_correct [OF w] f w show ?thesis by simp
qed

text \<open>
  C38: \<open>parse\<close> always returns; on text whose steps stay 59 below \<open>MaxInt64\<close> it never
  panics; and matching a schedule it accepted never indexes outside a table.
\<close>

theorem parse_returns_safe:
  "\<exists>r. parse spec = Some r \<and> (steps_small spec \<longrightarrow> r \<noteq> Panic)
    \<and> (\<forall>s t. r = Ok s \<longrightarrow> valid_civil t \<longrightarrow> (\<exists>b. sched_match s t = Ok b))"
proof -
  from parse_result obtain r where r: "parse spec = Some r" "steps_small spec \<longrightarrow> r \<noteq> Panic"
    "\<forall>s. r = Ok s \<longrightarrow> sized s" by blast
  then have "\<exists>b. sched_match s t = Ok b" if "r = Ok s" "valid_civil t" for s t
    using sched_match_eq [of s t] that by auto
  with r show ?thesis by blast
qed

theorem parse_returns_safe_witness:
  "steps_small ''*/15 * * * *'' \<and> (\<exists>r. parse ''*/15 * * * *'' = Some r \<and> r \<noteq> Panic)"
proof -
  have "steps_small ''*/15 * * * *''" by code_simp
  with parse_returns_safe [of "''*/15 * * * *''"] show ?thesis by blast
qed

text \<open>
  The rejection rules of the term parser: a step that is no positive integer, a value
  outside the field, a reversed range and anything that is no integer are errors, never a
  silently different schedule.
\<close>

theorem parseTerm_rejects:
  "(CHR ''/'' \<notin> set rp \<and> (\<forall>n. Atoi st = Some n \<longrightarrow> n \<le> 0) \<longrightarrow>
      parseTerm (rp @ CHR ''/'' # st) lo hi name tab = Some (Err (InvalidStep name st)))
    \<and> (v \<noteq> ''*'' \<and> CHR ''/'' \<notin> set v \<and> CHR ''-'' \<notin> set v \<and> Atoi v = None \<longrightarrow>
      parseTerm v lo hi name tab = Some (Err (InvalidValue name v)))
    \<and> (CHR ''/'' \<notin> set v \<and> CHR ''-'' \<notin> set v \<and> Atoi v = Some n \<and> (n < lo \<or> hi < n) \<longrightarrow>
      parseTerm v lo hi name tab = Some (Err (OutOfRange name n lo hi)))
    \<and> (lo \<le> int b \<and> b < a \<and> int a \<le> hi \<and> int64 hi \<longrightarrow>
      parseTerm (decimal a @ CHR ''-'' # decimal b) lo hi name tab =
        Some (Err (ReversedRange name (decimal a @ CHR ''-'' # decimal b))))"
proof (intro conjI impI)
  assume "CHR ''/'' \<notin> set rp \<and> (\<forall>n. Atoi st = Some n \<longrightarrow> n \<le> 0)"
  then show "parseTerm (rp @ CHR ''/'' # st) lo hi name tab = Some (Err (InvalidStep name st))"
    by (auto simp: parseTerm_def Cut_append parseStep_def split: option.splits)
next
  assume "v \<noteq> ''*'' \<and> CHR ''/'' \<notin> set v \<and> CHR ''-'' \<notin> set v \<and> Atoi v = None"
  then show "parseTerm v lo hi name tab = Some (Err (InvalidValue name v))"
    by (simp add: parseTerm_def Cut_none parseStep_def parseRange_def parseValue_def)
next
  assume a: "CHR ''/'' \<notin> set v \<and> CHR ''-'' \<notin> set v \<and> Atoi v = Some n \<and> (n < lo \<or> hi < n)"
  then have "v \<noteq> ''*''" by (auto simp: Atoi_def parse_digits_def is_digit_def)
  with a show "parseTerm v lo hi name tab = Some (Err (OutOfRange name n lo hi))"
    by (auto simp: parseTerm_def Cut_none parseStep_def parseRange_def parseValue_def)
next
  assume a: "lo \<le> int b \<and> b < a \<and> int a \<le> hi \<and> int64 hi"
  let ?r = "decimal a @ CHR ''-'' # decimal b"
  have "CHR ''-'' \<in> set ?r" by simp
  then have "?r \<noteq> ''*''" by (auto simp del: set_append)
  moreover have "CHR ''/'' \<notin> set ?r" by simp
  ultimately show "parseTerm ?r lo hi name tab = Some (Err (ReversedRange name ?r))"
    using a parseValue_decimal [of lo a hi] parseValue_decimal [of lo b hi]
    by (simp add: parseTerm_def Cut_none Cut_append parseStep_def parseRange_def)
qed

lemma parseTerm_rejects_example:
  "Atoi ''0'' = Some 0 \<and>
    parseTerm ''*/0'' 0 59 ''minute'' [] = Some (Err (InvalidStep ''minute'' ''0''))"
proof -
  have h: "Atoi ''0'' = Some 0" by code_simp
  then have "CHR ''/'' \<notin> set ''*'' \<and> (\<forall>n. Atoi ''0'' = Some n \<longrightarrow> n \<le> 0)" by simp
  from this parseTerm_rejects [of "''*''" "''0''" 0 59 "''minute''" "[]"] h show ?thesis by simp
qed

text \<open>
  A step at the top of the integer range carries the counter past \<open>MaxInt64\<close>: it wraps to a
  negative value, the loop goes on and indexes the table there. The text is accepted by every
  check and the parser panics instead of returning an error.
\<close>

lemma parse_overflow_panics: "parse ''0 0 1/9223372036854775807 * *'' = Some Panic"
  by code_simp

end
