(* ===== verification/Go_Time.thy ===== *)
theory Go_Time
  imports Cron_Schedule
begin

section \<open>Instants and civil time\<close>

text \<open>
  What the scheduler uses of package \<open>time\<close>: an instant is the number of nanoseconds since
  the zero time, 1 January of year 1, 00:00 UTC; \<open>Truncate\<close> rounds that number down; a
  location gives the offset from UTC in seconds at an instant; the fields of the civil time
  follow the proleptic Gregorian calendar.
\<close>

type_synonym instant = int
type_synonym location = "instant \<Rightarrow> int"

definition Second :: int where
  "Second = 1000000000"

definition Minute :: int where
  "Minute = 60 * Second"

definition UTC :: location where
  "UTC t = 0"

definition Truncate :: "instant \<Rightarrow> int \<Rightarrow> instant" where
  "Truncate t d = (if d \<le> 0 then t else t - t mod d)"

lemma Minute_pos: "0 < Minute"
  by (simp add: Minute_def Second_def)

lemma Truncate_le: "Truncate t Minute \<le> t"
  by (simp add: Truncate_def Minute_pos)

lemma Truncate_next: "t < Truncate t Minute + Minute"
  using pos_mod_bound [of Minute t] Minute_pos by (simp add: Truncate_def)

lemma Truncate_mono: "s \<le> t \<Longrightarrow> Truncate s Minute \<le> Truncate t Minute"
  using zdiv_mono1 [of s t Minute] Minute_pos
  by (simp add: Truncate_def minus_mod_eq_mult_div mult_left_mono)

lemma Truncate_idem [simp]: "Truncate (Truncate t Minute) Minute = Truncate t Minute"
  using Minute_pos by (simp add: Truncate_def minus_mod_eq_mult_div)

subsection \<open>The calendar\<close>

text \<open>Days since 1 January of year 1 to the day of the year and whether the year is leap.\<close>

definition year_day :: "int \<Rightarrow> int \<times> bool" where
  "year_day d =
     (let r = d mod 146097;
          n100 = min 3 (r div 36524);
          r = r - n100 * 36524;
          n4 = r div 1461;
          r = r mod 1461;
          n1 = min 3 (r div 365)
      in (r - n1 * 365, n1 = 3 \<and> (n4 \<noteq> 24 \<or> n100 = 3)))"

definition month_lengths :: "bool \<Rightarrow> int list" where
  "month_lengths leap = [31, if leap then 29 else 28, 31, 30, 31, 30, 31, 31, 30, 31, 30, 31]"

text \<open>Month and day of the month, counted from 1, of a day of the year counted from 0.\<close>

fun split_month :: "int list \<Rightarrow> int \<Rightarrow> int \<Rightarrow> int \<times> int" where
  "split_month [] m d = (m, d + 1)"
| "split_month (l # ls) m d = (if d < l then (m, d + 1) else split_month ls (m + 1) (d - l))"

definition civil_at :: "location \<Rightarrow> instant \<Rightarrow> civil" where
  "civil_at loc t =
     (let s = t div Second + loc t;
          days = s div 86400;
          (yday, leap) = year_day days;
          (m, d) = split_month (month_lengths leap) 1 yday
      in \<lparr>c_minute = s div 60 mod 60, c_hour = s div 3600 mod 24, c_day = d, c_month = m,
          c_weekday = (days + 1) mod 7\<rparr>)"

lemma split_month_bounds:
  assumes "0 \<le> d" "d < sum_list ls" "\<forall>l \<in> set ls. 0 < l \<and> l \<le> 31"
  shows "m \<le> fst (split_month ls m d) \<and> fst (split_month ls m d) < m + int (length ls)
    \<and> 1 \<le> snd (split_month ls m d) \<and> snd (split_month ls m d) \<le> 31"
  using assms
proof (induction ls arbitrary: m d)
  case (Cons l ls)
  show ?case
  proof (cases "d < l")
    case False
    with Cons.prems have "0 \<le> d - l" "d - l < sum_list ls" by simp_all
    from Cons.IH [OF this, of "m + 1"] Cons.prems(3) False show ?thesis by auto
  qed (use Cons.prems in auto)
qed simp

lemma year_day_bounds:
  "year_day d = (y, leap) \<Longrightarrow> 0 \<le> y \<and> y < sum_list (month_lengths leap)"
proof -
  assume e: "year_day d = (y, leap)"
  define r1 where "r1 = d mod 146097"
  define c where "c = min 3 (r1 div 36524)"
  define r2 where "r2 = r1 - c * 36524"
  define q where "q = r2 div 1461"
  define r3 where "r3 = r2 mod 1461"
  define a where "a = min 3 (r3 div 365)"
  have y: "y = r3 - a * 365" "leap \<longleftrightarrow> a = 3 \<and> (q \<noteq> 24 \<or> c = 3)"
    using e unfolding year_day_def Let_def r1_def c_def r2_def q_def r3_def a_def by simp_all
  have r1: "0 \<le> r1" "r1 < 146097" by (simp_all add: r1_def)
  then have c: "0 \<le> c" "c \<le> 3" by (simp_all add: c_def)
  have "c < 3 \<Longrightarrow> r1 div 36524 = c" by (simp add: c_def min_def split: if_splits)
  then have r2: "0 \<le> r2" "c < 3 \<longrightarrow> r2 < 36524" "r2 < 36525"
    using r1 c unfolding r2_def by (auto simp: c_def min_def split: if_splits)
  have r3: "0 \<le> r3" "r3 < 1461" "r2 = 1461 * q + r3" by (simp_all add: r3_def q_def)
  have a: "0 \<le> a" "a \<le> 3" using r3 by (simp_all add: a_def)
  have a3: "a < 3 \<Longrightarrow> r3 div 365 = a" by (simp add: a_def min_def split: if_splits)
  have lo: "0 \<le> y" using y r3 unfolding a_def by (auto simp: min_def split: if_splits)
  have hi: "y \<le> 365" "a < 3 \<longrightarrow> y < 365" using a3 y r3 a by auto
  have "y < 365" if "\<not> leap"
  proof (cases "a = 3")
    case True
    with y that have "q = 24" "c < 3" using c by auto
    with r2 r3 have "r3 < 1460" by simp
    with y True show ?thesis by simp
  qed (use hi a in simp)
  with lo hi show ?thesis by (cases leap) (simp_all add: month_lengths_def)
qed

lemma civil_at_valid: "valid_civil (civil_at loc t)"
proof -
  obtain y leap where y: "year_day ((t div Second + loc t) div 86400) = (y, leap)" by force
  obtain m d where m: "split_month (month_lengths leap) 1 y = (m, d)" by force
  have len: "\<forall>l \<in> set (month_lengths leap). 0 < l \<and> l \<le> 31" "length (month_lengths leap) = 12"
    by (simp_all add: month_lengths_def)
  have "1 \<le> m \<and> m < 1 + 12 \<and> 1 \<le> d \<and> d \<le> 31"
    using split_month_bounds [OF _ _ len(1), of y 1] year_day_bounds [OF y] m len(2) by simp
  moreover have "v mod 60 \<le> 59" "v mod 24 \<le> 23" "v mod 7 \<le> 6" for v :: int by presburger+
  ultimately show ?thesis by (simp add: civil_at_def valid_civil_def Let_def y m)
qed

text \<open>The Unix epoch was a Thursday; two hours east of Greenwich, 22:30 UTC on 29 February
  2024 is already the first of March.\<close>

lemma civil_epoch:
  "civil_at UTC (62135596800 * Second) =
     \<lparr>c_minute = 0, c_hour = 0, c_day = 1, c_month = 1, c_weekday = 4\<rparr>"
  by code_simp

lemma civil_leap:
  "civil_at (\<lambda>_. 7200) ((62135596800 + 1709245800) * Second) =
     \<lparr>c_minute = 30, c_hour = 0, c_day = 1, c_month = 3, c_weekday = 5\<rparr>"
  by code_simp

end
