(* ===== verification/Crontab.thy ===== *)
theory Crontab
  imports Go_Time
begin

section \<open>The cron scheduler\<close>

text \<open>
  Models \<open>crontab/crontab.go\<close>. \<open>runDue\<close> holds the read lock through its whole loop, so
  \<open>AddJob\<close> and the critical section of \<open>Shutdown\<close> never run inside it; the goroutines
  of \<open>fire\<close> take no lock and end at any moment, also between two iterations. The jobs slice
  only grows, so the index of a job in it stands for the pointer. The body of a job and the
  panic handler are functions on a world of their own type. The wait group is its counter and the number
  of calls of \<open>Wait\<close> under way, with the panics of \<open>sync.WaitGroup\<close> on its misuse.
\<close>

subsection \<open>State\<close>

text \<open>A job function returns (\<open>None\<close>) or panics with a value; so does the handler.\<close>

type_synonym ('p, 'w) job_fn = "'w \<Rightarrow> 'p option \<times> 'w"
type_synonym ('p, 'w) panic_handler = "string \<Rightarrow> 'p \<Rightarrow> 'w \<Rightarrow> 'p option \<times> 'w"

record ('p, 'w) job =
  j_sched :: schedule
  j_fn :: "('p, 'w) job_fn"
  j_spec :: string
  running :: bool
  last_fired :: instant

record ('p, 'w) crontab =
  loc :: location
  overlap :: bool
  onPanic :: "('p, 'w) panic_handler"
  jobs :: "('p, 'w) job list"
  stop_closed :: bool
  stopped :: bool
  wg :: int
  waiters :: nat

datatype ('p, 'w) cron_option =
    WithLocation location
  | WithOverlap
  | WithPanicHandler "('p, 'w) panic_handler"

fun apply_option :: "('p, 'w) cron_option \<Rightarrow> ('p, 'w) crontab \<Rightarrow> ('p, 'w) crontab" where
  "apply_option (WithLocation l) c = c\<lparr>loc := l\<rparr>"
| "apply_option WithOverlap c = c\<lparr>overlap := True\<rparr>"
| "apply_option (WithPanicHandler h) c = c\<lparr>onPanic := h\<rparr>"

definition crontab_New :: "('p, 'w) panic_handler \<Rightarrow> ('p, 'w) cron_option list \<Rightarrow> ('p, 'w) crontab" where
  "crontab_New defaultPanicHandler opts =
     fold apply_option opts
       \<lparr>loc = UTC, overlap = False, onPanic = defaultPanicHandler, jobs = [],
        stop_closed = False, stopped = False, wg = 0, waiters = 0\<rparr>"

subsection \<open>Operations\<close>

datatype addjob_error = ParseError cron_error | ErrClosed

text \<open>The zero \<open>time.Time\<close> of a new job is the instant 0.\<close>

definition AddJob :: "string \<Rightarrow> ('p, 'w) job_fn \<Rightarrow> ('p, 'w) crontab
    \<Rightarrow> (addjob_error, ('p, 'w) crontab) gores option" where
  "AddJob spec fn c =
     (case parse spec of
        None \<Rightarrow> None
      | Some Panic \<Rightarrow> Some Panic
      | Some (Err e) \<Rightarrow> Some (Err (ParseError e))
      | Some (Ok sched) \<Rightarrow>
          if stopped c then Some (Err ErrClosed)
          else Some (Ok (c\<lparr>jobs := jobs c @
            [\<lparr>j_sched = sched, j_fn = fn, j_spec = spec, running = False, last_fired = 0\<rparr>]\<rparr>)))"

definition MustAddJob :: "string \<Rightarrow> ('p, 'w) job_fn \<Rightarrow> ('p, 'w) crontab
    \<Rightarrow> (addjob_error, ('p, 'w) crontab) gores option" where
  "MustAddJob spec fn c =
     (case AddJob spec fn c of
        None \<Rightarrow> None
      | Some (Err e) \<Rightarrow> Some Panic
      | Some r \<Rightarrow> Some r)"

text \<open>\<open>run\<close> waits until the next full minute before the first \<open>runDue\<close>.\<close>

definition first_delay :: "instant \<Rightarrow> int" where
  "first_delay start = Truncate start Minute + Minute - start"

definition set_job :: "nat \<Rightarrow> ('p, 'w) job \<Rightarrow> ('p, 'w) crontab \<Rightarrow> ('p, 'w) crontab" where
  "set_job i j c = c\<lparr>jobs := (jobs c)[i := j]\<rparr>"

text \<open>
  \<open>wg.Add(1)\<close>. Its documentation forbids a call from a counter of zero while somebody is in \<open>Wait\<close>: the
  runtime panics (``WaitGroup misuse'', ``WaitGroup is reused'') when it notices one, in the goroutine
  that adds or in the one that waits. Here every such call panics.
\<close>

definition wg_Add :: "('p, 'w) crontab \<Rightarrow> ('p, 'w) crontab option" where
  "wg_Add c = (if wg c \<le> 0 \<and> 0 < waiters c then None else Some (c\<lparr>wg := wg c + 1\<rparr>))"

text \<open>
  One iteration of the loop of \<open>runDue\<close> for the job at index \<open>i\<close>, and whether it started
  \<open>fire\<close>.
\<close>

definition dispatch :: "instant \<Rightarrow> nat \<Rightarrow> ('p, 'w) crontab
    \<Rightarrow> (cron_error, ('p, 'w) crontab \<times> bool) gores" where
  "dispatch minute i c =
     (let j = jobs c ! i in
      gobind (sched_match (j_sched j) (civil_at (loc c) minute)) (\<lambda>m.
        if \<not> m then Ok (c, False)
        else if last_fired j = minute then Ok (c, False)
        else if \<not> overlap c \<and> running j then Ok (c, False)
        else
          (let j = (if \<not> overlap c then j\<lparr>running := True\<rparr> else j);
               j = j\<lparr>last_fired := minute\<rparr>
           in (case wg_Add (set_job i j c) of None \<Rightarrow> Panic | Some c \<Rightarrow> Ok (c, True)))))"

text \<open>The loop over the jobs from index \<open>i\<close> on, with no step of another goroutine between.\<close>

fun dispatch_all :: "instant \<Rightarrow> nat list \<Rightarrow> ('p, 'w) crontab
    \<Rightarrow> (cron_error, ('p, 'w) crontab \<times> nat list) gores" where
  "dispatch_all minute [] c = Ok (c, [])"
| "dispatch_all minute (i # is) c =
     gobind (dispatch minute i c) (\<lambda>(c, fired).
     gobind (dispatch_all minute is c) (\<lambda>(c, fs).
       Ok (c, if fired then i # fs else fs)))"

definition runDue :: "instant \<Rightarrow> ('p, 'w) crontab \<Rightarrow> (cron_error, ('p, 'w) crontab \<times> nat list) gores" where
  "runDue now c =
     (if stopped c then Ok (c, [])
      else dispatch_all (Truncate now Minute) [0..<length (jobs c)] c)"

text \<open>
  \<open>fire\<close>: the job, then the deferred calls, last first: recover with the panic handler, whose
  own panic is swallowed; the flag; the wait group.
\<close>

definition fire_body :: "nat \<Rightarrow> ('p, 'w) crontab \<Rightarrow> 'w \<Rightarrow> 'p option \<times> 'w" where
  "fire_body i c w =
     (case j_fn (jobs c ! i) w of
        (None, w) \<Rightarrow> (None, w)
      | (Some r, w) \<Rightarrow> (case onPanic c (j_spec (jobs c ! i)) r w of (r', w) \<Rightarrow> (None, w)))"

definition fire_clear :: "nat \<Rightarrow> ('p, 'w) crontab \<Rightarrow> ('p, 'w) crontab" where
  "fire_clear i c = (if \<not> overlap c then set_job i ((jobs c ! i)\<lparr>running := False\<rparr>) c else c)"

text \<open>\<open>wg.Done\<close> panics when the counter gets negative.\<close>

definition fire_done :: "('p, 'w) crontab \<Rightarrow> ('p, 'w) crontab option" where
  "fire_done c = (if wg c - 1 < 0 then None else Some (c\<lparr>wg := wg c - 1\<rparr>))"

text \<open>
  \<open>Shutdown\<close>: the flag under the lock, then the channel, both once; then the wait, of which a
  goroutine of every call begins one.
\<close>

definition Shutdown_stop :: "('p, 'w) crontab \<Rightarrow> ('p, 'w) crontab" where
  "Shutdown_stop c = c\<lparr>stopped := True\<rparr>"

definition Shutdown_close :: "('p, 'w) crontab \<Rightarrow> ('p, 'w) crontab" where
  "Shutdown_close c = c\<lparr>stop_closed := True\<rparr>"

definition Wait_returns :: "('p, 'w) crontab \<Rightarrow> bool" where
  "Wait_returns c \<longleftrightarrow> wg c = 0"

definition Wait_begin :: "('p, 'w) crontab \<Rightarrow> ('p, 'w) crontab" where
  "Wait_begin c = c\<lparr>waiters := waiters c + 1\<rparr>"

definition Wait_end :: "('p, 'w) crontab \<Rightarrow> ('p, 'w) crontab option" where
  "Wait_end c = (if waiters c \<noteq> 0 \<and> Wait_returns c then Some (c\<lparr>waiters := waiters c - 1\<rparr>) else None)"

subsection \<open>What the scheduler relies on of a schedule\<close>

text \<open>
  The contract between the two files of the package: what the parser accepts can be matched
  at every civil time without a panic.
\<close>

locale schedule_contract =
  fixes parse_spec :: "string \<Rightarrow> (cron_error, 's) gores option"
    and match_at :: "'s \<Rightarrow> civil \<Rightarrow> (cron_error, bool) gores"
    and good :: "'s \<Rightarrow> bool"
  assumes parse_good: "parse_spec spec = Some (Ok s) \<Longrightarrow> good s"
    and match_total: "good s \<Longrightarrow> valid_civil t \<Longrightarrow> \<exists>b. match_at s t = Ok b"
begin

lemma match_at_instant: "good s \<Longrightarrow> \<exists>b. match_at s (civil_at l t) = Ok b"
  by (rule match_total [OF _ civil_at_valid])

lemma parsed_match_at: "parse_spec spec = Some (Ok s) \<Longrightarrow> match_at s (civil_at l t) \<noteq> Panic"
  using match_at_instant [OF parse_good, of spec s l t] by auto

end

interpretation sc: schedule_contract parse sched_match sized
proof unfold_locales
  show "parse spec = Some (Ok s) \<Longrightarrow> sized s" for spec s
    using parse_result [of spec] by auto
  show "sized s \<Longrightarrow> valid_civil t \<Longrightarrow> \<exists>b. sched_match s t = Ok b" for s t
    using sched_match_eq by blast
qed

text \<open>When a job is due at a minute, and the state after it was started.\<close>

definition matches :: "('p, 'w) crontab \<Rightarrow> instant \<Rightarrow> ('p, 'w) job \<Rightarrow> bool" where
  "matches c minute j \<longleftrightarrow> sched_match (j_sched j) (civil_at (loc c) minute) = Ok True"

definition due :: "('p, 'w) crontab \<Rightarrow> instant \<Rightarrow> ('p, 'w) job \<Rightarrow> bool" where
  "due c minute j \<longleftrightarrow> matches c minute j \<and> last_fired j \<noteq> minute \<and> (overlap c \<or> \<not> running j)"

definition start_job :: "('p, 'w) crontab \<Rightarrow> instant \<Rightarrow> ('p, 'w) job \<Rightarrow> ('p, 'w) job" where
  "start_job c minute j = j\<lparr>running := (running j \<or> \<not> overlap c), last_fired := minute\<rparr>"

text \<open>An \<open>Add\<close> is safe while nobody waits, or beside a job that is not done.\<close>

definition can_add :: "('p, 'w) crontab \<Rightarrow> bool" where
  "can_add c \<longleftrightarrow> waiters c = 0 \<or> 0 < wg c"

lemma same_running: "running j = b \<Longrightarrow> j\<lparr>running := b, last_fired := m\<rparr> = j\<lparr>last_fired := m\<rparr>"
  by (cases j) simp

lemma dispatch_cases:
  assumes "sized (j_sched (jobs c ! i))"
  shows "dispatch minute i c = (if due c minute (jobs c ! i) \<and> \<not> can_add c then Panic
      else Ok (if due c minute (jobs c ! i)
      then ((set_job i (start_job c minute (jobs c ! i)) c)\<lparr>wg := wg c + 1\<rparr>, True) else (c, False)))"
proof -
  obtain b where "sched_match (j_sched (jobs c ! i)) (civil_at (loc c) minute) = Ok b"
    using sc.match_at_instant [OF assms] by blast
  moreover have "wg_Add (set_job i j c) = (if can_add c then Some ((set_job i j c)\<lparr>wg := wg c + 1\<rparr>) else None)" for j
    by (simp add: wg_Add_def can_add_def set_job_def not_less)
  ultimately show ?thesis
    by (cases "running (jobs c ! i)")
      (simp_all add: dispatch_def due_def matches_def start_job_def same_running Let_def del: gobind_Ok_iff)
qed

lemma dispatch_Ok:
  assumes "sized (j_sched (jobs c ! i))" "can_add c"
  shows "dispatch minute i c = Ok (if due c minute (jobs c ! i)
      then ((set_job i (start_job c minute (jobs c ! i)) c)\<lparr>wg := wg c + 1\<rparr>, True) else (c, False))"
  using dispatch_cases [OF assms(1)] assms(2) by simp

subsection \<open>The scheduler as a whole, step by step\<close>

datatype phase = Executing | Recovered | Cleared | Finished

record firing =
  f_job :: nat
  fired_at :: instant
  f_phase :: phase

datatype runner = AtSelect | InLoop instant nat | Exited

text \<open>
  The shared state with the runner, every \<open>fire\<close> ever started, the readings of the clock
  (latest first), whether some \<open>Wait\<close> of a \<open>Shutdown\<close> has returned, and whether the process died of
  a panic in a goroutine of the scheduler, where nobody can recover it. A panic of the parser in \<open>AddJob\<close>
  is one in the goroutine of its caller; \<open>add_panics\<close> has the texts it was given.
\<close>

record ('p, 'w) csys =
  tab :: "('p, 'w) crontab"
  world :: 'w
  runner :: runner
  firings :: "firing list"
  clock :: "instant list"
  drained :: bool
  crashed :: bool
  add_panics :: "string list"

definition csys_init :: "('p, 'w) panic_handler \<Rightarrow> ('p, 'w) cron_option list \<Rightarrow> 'w \<Rightarrow> ('p, 'w) csys" where
  "csys_init h opts w = \<lparr>tab = crontab_New h opts, world = w, runner = AtSelect, firings = [], clock = [],
     drained = False, crashed = False, add_panics = []\<rparr>"

definition unlocked :: "('p, 'w) csys \<Rightarrow> bool" where
  "unlocked s \<longleftrightarrow> (\<forall>m i. runner s \<noteq> InLoop m i)"

definition set_phase :: "nat \<Rightarrow> phase \<Rightarrow> firing list \<Rightarrow> firing list" where
  "set_phase n p fs = fs[n := (fs ! n)\<lparr>f_phase := p\<rparr>]"

inductive cstep :: "('p, 'w) csys \<Rightarrow> ('p, 'w) csys \<Rightarrow> bool" where
  tick: "\<lbrakk>\<not> crashed s; runner s = AtSelect\<rbrakk> \<Longrightarrow>
    cstep s (s\<lparr>clock := now # clock s,
      runner := (if stopped (tab s) then AtSelect else InLoop (Truncate now Minute) 0)\<rparr>)"
| visit: "\<lbrakk>\<not> crashed s; runner s = InLoop m i; i < length (jobs (tab s));
    dispatch m i (tab s) = Ok (c, fired)\<rbrakk> \<Longrightarrow>
    cstep s (s\<lparr>tab := c, runner := InLoop m (Suc i),
      firings := firings s @ (if fired then [\<lparr>f_job = i, fired_at = m, f_phase = Executing\<rparr>] else [])\<rparr>)"
| visit_panic: "\<lbrakk>\<not> crashed s; runner s = InLoop m i; i < length (jobs (tab s));
    dispatch m i (tab s) = Panic \<or> dispatch m i (tab s) = Err e\<rbrakk> \<Longrightarrow> cstep s (s\<lparr>crashed := True\<rparr>)"
| loop_end: "\<lbrakk>\<not> crashed s; runner s = InLoop m i; \<not> i < length (jobs (tab s))\<rbrakk> \<Longrightarrow>
    cstep s (s\<lparr>runner := AtSelect\<rparr>)"
| run_exit: "\<lbrakk>\<not> crashed s; runner s = AtSelect; stop_closed (tab s)\<rbrakk> \<Longrightarrow> cstep s (s\<lparr>runner := Exited\<rparr>)"
| job_end: "\<lbrakk>\<not> crashed s; n < length (firings s); f_phase (firings s ! n) = Executing;
    fire_body (f_job (firings s ! n)) (tab s) (world s) = (r, w)\<rbrakk> \<Longrightarrow>
    cstep s (s\<lparr>world := w, firings := set_phase n Recovered (firings s), crashed := (r \<noteq> None)\<rparr>)"
| flag_clear: "\<lbrakk>\<not> crashed s; n < length (firings s); f_phase (firings s ! n) = Recovered\<rbrakk> \<Longrightarrow>
    cstep s (s\<lparr>tab := fire_clear (f_job (firings s ! n)) (tab s), firings := set_phase n Cleared (firings s)\<rparr>)"
| wg_done: "\<lbrakk>\<not> crashed s; n < length (firings s); f_phase (firings s ! n) = Cleared; fire_done (tab s) = Some c\<rbrakk> \<Longrightarrow>
    cstep s (s\<lparr>tab := c, firings := set_phase n Finished (firings s)\<rparr>)"
| wg_panic: "\<lbrakk>\<not> crashed s; n < length (firings s); f_phase (firings s ! n) = Cleared; fire_done (tab s) = None\<rbrakk> \<Longrightarrow>
    cstep s (s\<lparr>crashed := True\<rparr>)"
| add_job: "\<lbrakk>\<not> crashed s; unlocked s; AddJob spec fn (tab s) = Some (Ok c)\<rbrakk> \<Longrightarrow> cstep s (s\<lparr>tab := c\<rparr>)"
| add_panic: "\<lbrakk>\<not> crashed s; AddJob spec fn (tab s) = Some Panic\<rbrakk> \<Longrightarrow>
    cstep s (s\<lparr>add_panics := spec # add_panics s\<rparr>)"
| shutdown_stop: "\<lbrakk>\<not> crashed s; unlocked s; \<not> stopped (tab s)\<rbrakk> \<Longrightarrow>
    cstep s (s\<lparr>tab := Shutdown_stop (tab s)\<rparr>)"
| shutdown_close: "\<lbrakk>\<not> crashed s; stopped (tab s); \<not> stop_closed (tab s)\<rbrakk> \<Longrightarrow>
    cstep s (s\<lparr>tab := Shutdown_close (tab s)\<rparr>)"
| wait_begin: "\<lbrakk>\<not> crashed s; stop_closed (tab s)\<rbrakk> \<Longrightarrow> cstep s (s\<lparr>tab := Wait_begin (tab s)\<rparr>)"
| wait_end: "\<lbrakk>\<not> crashed s; Wait_end (tab s) = Some c\<rbrakk> \<Longrightarrow> cstep s (s\<lparr>tab := c, drained := True\<rparr>)"

subsection \<open>The invariant\<close>

text \<open>A \<open>fire\<close> is busy while it occupies the slot of its job.\<close>

definition busy :: "nat \<Rightarrow> firing \<Rightarrow> bool" where
  "busy i f \<longleftrightarrow> f_job f = i \<and> (f_phase f = Executing \<or> f_phase f = Recovered)"

definition minutes_of :: "nat \<Rightarrow> firing list \<Rightarrow> instant list" where
  "minutes_of i fs = map fired_at (filter (\<lambda>f. f_job f = i) fs)"

definition safe_inv :: "('p, 'w) csys \<Rightarrow> bool" where
  "safe_inv s \<longleftrightarrow> \<not> crashed s \<and> (\<forall>j \<in> set (jobs (tab s)). sized (j_sched j))
     \<and> (\<forall>f \<in> set (firings s). f_job f < length (jobs (tab s)))
     \<and> (\<forall>spec \<in> set (add_panics s). parse spec = Some Panic)"

definition wg_inv :: "('p, 'w) csys \<Rightarrow> bool" where
  "wg_inv s \<longleftrightarrow> wg (tab s) = int (length (filter (\<lambda>f. f_phase f \<noteq> Finished) (firings s)))"

definition flag_inv :: "('p, 'w) csys \<Rightarrow> bool" where
  "flag_inv s \<longleftrightarrow> (\<not> overlap (tab s) \<longrightarrow> (\<forall>i < length (jobs (tab s)).
     length (filter (busy i) (firings s)) = (if running (jobs (tab s) ! i) then 1 else 0)))"

definition stop_inv :: "('p, 'w) csys \<Rightarrow> bool" where
  "stop_inv s \<longleftrightarrow> (stop_closed (tab s) \<longrightarrow> stopped (tab s)) \<and> (stopped (tab s) \<longrightarrow> unlocked s)
     \<and> (0 < waiters (tab s) \<longrightarrow> stop_closed (tab s))
     \<and> (drained s \<longrightarrow> stopped (tab s) \<and> (\<forall>f \<in> set (firings s). f_phase f = Finished))"

definition time_inv :: "('p, 'w) csys \<Rightarrow> bool" where
  "time_inv s \<longleftrightarrow>
     (\<forall>m i. runner s = InLoop m i \<longrightarrow> (\<exists>now cl. clock s = now # cl \<and> m = Truncate now Minute))
     \<and> (\<forall>f \<in> set (firings s). fired_at f \<in> (\<lambda>now. Truncate now Minute) ` set (clock s)
          \<and> matches (tab s) (fired_at f) (jobs (tab s) ! f_job f))"

definition once_inv :: "('p, 'w) csys \<Rightarrow> bool" where
  "once_inv s \<longleftrightarrow> (sorted_wrt (\<ge>) (clock s) \<longrightarrow> (\<forall>i < length (jobs (tab s)).
     sorted_wrt (<) (minutes_of i (firings s))
     \<and> (minutes_of i (firings s) \<noteq> [] \<longrightarrow>
          last_fired (jobs (tab s) ! i) = last (minutes_of i (firings s)))))"

definition cinv :: "('p, 'w) csys \<Rightarrow> bool" where
  "cinv s \<longleftrightarrow> safe_inv s \<and> wg_inv s \<and> flag_inv s \<and> stop_inv s \<and> time_inv s \<and> once_inv s"

lemma set_job_simps [simp]:
  "jobs (set_job i j c) = (jobs c)[i := j]" "overlap (set_job i j c) = overlap c"
  "loc (set_job i j c) = loc c" "stopped (set_job i j c) = stopped c"
  "stop_closed (set_job i j c) = stop_closed c" "wg (set_job i j c) = wg c" "waiters (set_job i j c) = waiters c"
  by (simp_all add: set_job_def)

lemma fire_clear_simps [simp]:
  "overlap (fire_clear i c) = overlap c" "loc (fire_clear i c) = loc c"
  "stopped (fire_clear i c) = stopped c" "stop_closed (fire_clear i c) = stop_closed c"
  "wg (fire_clear i c) = wg c" "waiters (fire_clear i c) = waiters c" "length (jobs (fire_clear i c)) = length (jobs c)"
  by (simp_all add: fire_clear_def)

lemma fire_clear_job:
  "i < length (jobs c) \<Longrightarrow> j_sched (jobs (fire_clear k c) ! i) = j_sched (jobs c ! i)
    \<and> last_fired (jobs (fire_clear k c) ! i) = last_fired (jobs c ! i)"
  by (cases "k = i") (auto simp: fire_clear_def)

lemma start_job_simps [simp]:
  "j_sched (start_job c m j) = j_sched j" "last_fired (start_job c m j) = m"
  "running (start_job c m j) = (running j \<or> \<not> overlap c)"
  by (simp_all add: start_job_def)

lemma fire_done_Some: "fire_done c = Some c' \<longleftrightarrow> 0 < wg c \<and> c' = c\<lparr>wg := wg c - 1\<rparr>"
  by (auto simp: fire_done_def)

lemma Wait_end_Some:
  "Wait_end c = Some c' \<longleftrightarrow> waiters c \<noteq> 0 \<and> wg c = 0 \<and> c' = c\<lparr>waiters := waiters c - 1\<rparr>"
  by (auto simp: Wait_end_def Wait_returns_def)

lemma AddJob_Panic: "AddJob spec fn c = Some Panic \<longleftrightarrow> parse spec = Some Panic"
  by (auto simp: AddJob_def split: option.splits gores.splits)

lemmas outer_steps = Shutdown_stop_def Shutdown_close_def Wait_begin_def Wait_end_Some

lemma AddJob_Ok:
  "AddJob spec fn c = Some (Ok c') \<longleftrightarrow> \<not> stopped c \<and> (\<exists>sched. parse spec = Some (Ok sched)
    \<and> c' = c\<lparr>jobs := jobs c @
        [\<lparr>j_sched = sched, j_fn = fn, j_spec = spec, running = False, last_fired = 0\<rparr>]\<rparr>)"
  by (auto simp: AddJob_def split: option.splits gores.splits)

lemma fire_body_recovers: "fst (fire_body i c w) = None"
  by (simp add: fire_body_def split: prod.splits option.splits)

text \<open>In the dispatch loop nobody waits: the flag was not set when it began, and cannot be set meanwhile.\<close>

lemma loop_can_add: "stop_inv s \<Longrightarrow> runner s = InLoop m i \<Longrightarrow> waiters (tab s) = 0 \<and> can_add (tab s)"
  by (auto simp: stop_inv_def unlocked_def can_add_def)

text \<open>A step of the dispatch loop in a good state: nothing, or a job is started.\<close>

lemma visit_cases:
  assumes "safe_inv s" "i < length (jobs (tab s))" "dispatch m i (tab s) = Ok (c, fired)"
  obtains (skip) "\<not> due (tab s) m (jobs (tab s) ! i)" "c = tab s" "\<not> fired"
  | (start) "due (tab s) m (jobs (tab s) ! i)" "fired"
      "c = (set_job i (start_job (tab s) m (jobs (tab s) ! i)) (tab s))\<lparr>wg := wg (tab s) + 1\<rparr>"
proof -
  have "sized (j_sched (jobs (tab s) ! i))" using assms(1,2) by (simp add: safe_inv_def)
  from dispatch_cases [OF this] assms(3) that show thesis by (auto split: if_splits)
qed

lemma set_phase_simps [simp]: "length (set_phase n p fs) = length fs"
  by (simp add: set_phase_def)

lemma minutes_of_set_phase: "n < length fs \<Longrightarrow> minutes_of i (set_phase n p fs) = minutes_of i fs"
  unfolding minutes_of_def set_phase_def
  by (induction fs arbitrary: n) (auto split: nat.splits simp: nth_Cons)

lemma set_phase_all:
  "\<forall>f \<in> set fs. P f \<Longrightarrow> n < length fs \<Longrightarrow> (\<And>f p. P f \<Longrightarrow> P (f\<lparr>f_phase := p\<rparr>)) \<Longrightarrow>
    \<forall>f \<in> set (set_phase n p fs). P f"
  unfolding set_phase_def by (rule ball_update) auto

lemma count_set_phase:
  "n < length fs \<Longrightarrow> length (filter P (set_phase n p fs)) + of_bool (P (fs ! n))
    = length (filter P fs) + of_bool (P ((fs ! n)\<lparr>f_phase := p\<rparr>))"
  unfolding set_phase_def by (rule length_filter_update)

lemma safe_step: "cinv s \<Longrightarrow> cstep s s' \<Longrightarrow> safe_inv s'"
proof -
  assume inv: "cinv s" and step: "cstep s s'"
  then have safe: "safe_inv s" and wg: "wg_inv s" and stop: "stop_inv s" by (simp_all add: cinv_def)
  from step safe show ?thesis
  proof (cases rule: cstep.cases)
    case (visit m i c fired)
    from safe visit(4,5) show ?thesis
    proof (cases rule: visit_cases)
      case skip
      then show ?thesis using safe visit by (simp add: safe_inv_def)
    next
      case start
      have "\<forall>j \<in> set ((jobs (tab s))[i := start_job (tab s) m (jobs (tab s) ! i)]). sized (j_sched j)"
        using safe visit(4) by (intro ball_update) (simp_all add: safe_inv_def)
      then show ?thesis using safe visit(1,2,4) start(2,3) by (simp add: safe_inv_def)
    qed
  next
    case (visit_panic m i e)
    then have "sized (j_sched (jobs (tab s) ! i))" using safe by (simp add: safe_inv_def)
    from dispatch_Ok [OF this] loop_can_add [OF stop visit_panic(3)] visit_panic show ?thesis by auto
  next
    case (job_end n r w)
    then have "r = None" using fire_body_recovers [of "f_job (firings s ! n)" "tab s" "world s"] by simp
    then show ?thesis using safe job_end set_phase_all [of "firings s" "\<lambda>f. f_job f < length (jobs (tab s))" n]
      by (simp add: safe_inv_def)
  next
    case (flag_clear n)
    have "\<forall>j \<in> set (jobs (fire_clear i (tab s))). sized (j_sched j)" for i
      using safe fire_clear_job [where c = "tab s" and k = i]
      by (simp add: safe_inv_def all_set_conv_all_nth)
    then show ?thesis
      using safe flag_clear set_phase_all [of "firings s" "\<lambda>f. f_job f < length (jobs (tab s))" n]
      by (simp add: safe_inv_def)
  next
    case (wg_done n c)
    then show ?thesis using safe set_phase_all [of "firings s" "\<lambda>f. f_job f < length (jobs (tab s))" n]
      by (auto simp: safe_inv_def fire_done_Some)
  next
    case (wg_panic n)
    then have "firings s ! n \<in> set (filter (\<lambda>f. f_phase f \<noteq> Finished) (firings s))" by simp
    then have "0 < length (filter (\<lambda>f. f_phase f \<noteq> Finished) (firings s))"
      by (rule length_pos_if_in_set)
    then have "0 < wg (tab s)" using wg by (simp add: wg_inv_def)
    then show ?thesis using wg_panic by (simp add: fire_done_def)
  next
    case (add_job spec fn c)
    then show ?thesis using safe sc.parse_good by (auto simp: safe_inv_def AddJob_Ok)
  qed (auto simp: safe_inv_def outer_steps AddJob_Panic)
qed

lemma wg_step: "cinv s \<Longrightarrow> cstep s s' \<Longrightarrow> wg_inv s'"
proof -
  let ?P = "\<lambda>f. f_phase f \<noteq> Finished"
  assume inv: "cinv s" and step: "cstep s s'"
  then have safe: "safe_inv s" and wg: "wg_inv s" by (simp_all add: cinv_def)
  from step wg show ?thesis
  proof (cases rule: cstep.cases)
    case (visit m i c fired)
    from safe visit(4,5) show ?thesis
      by (cases rule: visit_cases) (use wg visit(1) in \<open>simp_all add: wg_inv_def\<close>)
  next
    case (job_end n r w)
    then show ?thesis using wg count_set_phase [of n "firings s" ?P Recovered] by (simp add: wg_inv_def)
  next
    case (flag_clear n)
    then show ?thesis using wg count_set_phase [of n "firings s" ?P Cleared] by (simp add: wg_inv_def)
  next
    case (wg_done n c)
    then show ?thesis using wg count_set_phase [of n "firings s" ?P Finished]
      by (auto simp: wg_inv_def fire_done_Some)
  qed (auto simp: wg_inv_def outer_steps AddJob_Ok)
qed

lemma fire_clear_running:
  "i < length (jobs c) \<Longrightarrow> running (jobs (fire_clear k c) ! i)
    \<longleftrightarrow> running (jobs c ! i) \<and> (overlap c \<or> k \<noteq> i)"
  by (cases "k = i") (auto simp: fire_clear_def)

lemma busy_simps [simp]:
  "busy i \<lparr>f_job = k, fired_at = m, f_phase = Executing\<rparr> \<longleftrightarrow> k = i"
  "busy i (f\<lparr>f_phase := p\<rparr>) \<longleftrightarrow> f_job f = i \<and> (p = Executing \<or> p = Recovered)"
  by (auto simp: busy_def)

lemma flag_step: "cinv s \<Longrightarrow> cstep s s' \<Longrightarrow> flag_inv s'"
proof -
  assume inv: "cinv s" and step: "cstep s s'"
  then have safe: "safe_inv s" and flag: "flag_inv s" by (simp_all add: cinv_def)
  from step flag show ?thesis
  proof (cases rule: cstep.cases)
    case (visit m i c fired)
    from safe visit(4,5) show ?thesis
    proof (cases rule: visit_cases)
      case start
      then show ?thesis using flag visit(1,4) by (auto simp: flag_inv_def nth_list_update due_def)
    qed (use flag visit(1) in \<open>simp add: flag_inv_def\<close>)
  next
    case (job_end n r w)
    then have "length (filter (busy i) (set_phase n Recovered (firings s))) = length (filter (busy i) (firings s))" for i
      using count_set_phase [of n "firings s" "busy i" Recovered] by (auto simp: busy_def)
    then show ?thesis using flag job_end(1) by (simp add: flag_inv_def)
  next
    case (flag_clear n)
    let ?k = "f_job (firings s ! n)"
    have cnt: "length (filter (busy i) (set_phase n Cleared (firings s)))
        = length (filter (busy i) (firings s)) - (if i = ?k then 1 else 0)" for i
      using flag_clear count_set_phase [of n "firings s" "busy i" Cleared] by (auto simp: busy_def)
    show ?thesis using flag flag_clear(1)
      by (auto simp: flag_inv_def cnt fire_clear_running)
  next
    case (wg_done n c)
    then have "length (filter (busy i) (set_phase n Finished (firings s))) = length (filter (busy i) (firings s))" for i
      using count_set_phase [of n "firings s" "busy i" Finished] by (auto simp: busy_def)
    then show ?thesis using flag wg_done(1,5) by (auto simp: flag_inv_def fire_done_Some)
  next
    case (add_job spec fn c)
    have "filter (busy (length (jobs (tab s)))) (firings s) = []"
      using safe by (auto simp: safe_inv_def filter_empty_conv busy_def)
    moreover have cnt: "length (filter (busy i) (firings s)) = (if running (jobs (tab s) ! i) then 1 else 0)"
      if "\<not> overlap (tab s)" "i < length (jobs (tab s))" for i
      using flag that by (simp add: flag_inv_def)
    moreover have "filter (busy i) (firings s) = []"
      if "\<not> overlap (tab s)" "i < length (jobs (tab s))" "\<not> running (jobs (tab s) ! i)" for i
      using cnt [OF that(1,2)] that(3) by simp
    ultimately show ?thesis using add_job by (auto simp: flag_inv_def AddJob_Ok nth_append less_Suc_eq)
  qed (auto simp: flag_inv_def outer_steps)
qed

lemma stop_step: "cinv s \<Longrightarrow> cstep s s' \<Longrightarrow> stop_inv s'"
proof -
  assume inv: "cinv s" and step: "cstep s s'"
  then have safe: "safe_inv s" and wg: "wg_inv s" and stop: "stop_inv s" by (simp_all add: cinv_def)
  from step stop show ?thesis
  proof (cases rule: cstep.cases)
    case (visit m i c fired)
    then have run: "\<not> stopped (tab s)" "waiters (tab s) = 0"
      using stop loop_can_add [OF stop visit(3)] by (auto simp: stop_inv_def unlocked_def)
    from safe visit(4,5) show ?thesis
      by (cases rule: visit_cases) (use stop run visit(1) in \<open>simp_all add: stop_inv_def\<close>)
  next
    case (job_end n r w)
    then have "\<not> drained s" using stop by (auto simp: stop_inv_def)
    then show ?thesis using stop job_end(1) by (simp add: stop_inv_def unlocked_def)
  next
    case (flag_clear n)
    then have "\<not> drained s" using stop by (auto simp: stop_inv_def)
    then show ?thesis using stop flag_clear(1) by (simp add: stop_inv_def unlocked_def)
  next
    case (wg_done n c)
    then have "\<not> drained s" using stop by (auto simp: stop_inv_def)
    then show ?thesis using stop wg_done(1,5) by (auto simp: stop_inv_def unlocked_def fire_done_Some)
  next
    case (wait_end c)
    then have "filter (\<lambda>f. f_phase f \<noteq> Finished) (firings s) = []"
      using wg by (simp add: wg_inv_def Wait_end_Some)
    then show ?thesis using stop wait_end
      by (auto simp: stop_inv_def unlocked_def filter_empty_conv Wait_end_Some)
  qed (auto simp: stop_inv_def unlocked_def outer_steps AddJob_Ok)
qed

text \<open>No step changes the schedule of a job or the location.\<close>

lemma frame_step:
  assumes "safe_inv s" "cstep s s'"
  shows "loc (tab s') = loc (tab s) \<and> length (jobs (tab s)) \<le> length (jobs (tab s'))
    \<and> (\<forall>i < length (jobs (tab s)). j_sched (jobs (tab s') ! i) = j_sched (jobs (tab s) ! i))"
  using assms(2)
proof (cases rule: cstep.cases)
  case (visit m i c fired)
  from assms(1) visit(4,5) show ?thesis
    by (cases rule: visit_cases) (use visit(1,4) in \<open>auto simp: nth_list_update\<close>)
qed (auto simp: outer_steps AddJob_Ok fire_done_Some fire_clear_job nth_append)

lemma time_step: "cinv s \<Longrightarrow> cstep s s' \<Longrightarrow> time_inv s'"
proof -
  assume inv: "cinv s" and step: "cstep s s'"
  then have safe: "safe_inv s" and time: "time_inv s" by (simp_all add: cinv_def)
  let ?ok = "\<lambda>f. fired_at f \<in> (\<lambda>now. Truncate now Minute) ` set (clock s)
    \<and> matches (tab s') (fired_at f) (jobs (tab s') ! f_job f)"
  have old: "\<forall>f \<in> set (firings s). ?ok f"
    using time safe frame_step [OF safe step] by (auto simp: time_inv_def safe_inv_def matches_def)
  have phase: "\<forall>f \<in> set (set_phase n p (firings s)). ?ok f" if "n < length (firings s)" for n p
    using old that by (rule set_phase_all) simp
  from step time show ?thesis
  proof (cases rule: cstep.cases)
    case (visit m i c fired)
    then obtain now cl where m: "clock s = now # cl" "m = Truncate now Minute"
      using time by (auto simp: time_inv_def)
    from safe visit(4,5) show ?thesis
    proof (cases rule: visit_cases)
      case skip
      then show ?thesis using old visit(1) m by (auto simp: time_inv_def)
    next
      case start
      then show ?thesis using old visit(1,4) m by (auto simp: time_inv_def due_def matches_def)
    qed
  qed (use time old phase in \<open>auto simp: time_inv_def\<close>)
qed

lemma minutes_of_append:
  "minutes_of i (fs @ [f]) = minutes_of i fs @ (if f_job f = i then [fired_at f] else [])"
  by (simp add: minutes_of_def)

lemma minutes_of_past:
  assumes "time_inv s" "sorted_wrt (\<ge>) (clock s)" "clock s = now # cl" "x \<in> set (minutes_of i (firings s))"
  shows "x \<le> Truncate now Minute"
proof -
  obtain r where "r \<in> set (clock s)" "x = Truncate r Minute"
    using assms(1,4) by (auto simp: time_inv_def minutes_of_def)
  with assms(2,3) show ?thesis by (auto intro: Truncate_mono)
qed

lemma strict_le_last: "sorted_wrt (<) (ms :: instant list) \<Longrightarrow> x \<in> set ms \<Longrightarrow> x \<le> last ms"
  by (induction ms) (auto intro: less_imp_le)

lemma once_step: "cinv s \<Longrightarrow> cstep s s' \<Longrightarrow> once_inv s'"
proof -
  assume inv: "cinv s" and step: "cstep s s'"
  then have safe: "safe_inv s" and time: "time_inv s" and once: "once_inv s"
    by (simp_all add: cinv_def)
  from step once show ?thesis
  proof (cases rule: cstep.cases)
    case (visit m i c fired)
    then obtain now cl where m: "clock s = now # cl" "m = Truncate now Minute"
      using time by (auto simp: time_inv_def)
    from safe visit(4,5) show ?thesis
    proof (cases rule: visit_cases)
      case skip
      then show ?thesis using once visit(1) by (simp add: once_inv_def)
    next
      case start
      have "x < m" if "sorted_wrt (\<ge>) (clock s)" "x \<in> set (minutes_of i (firings s))" for x
      proof -
        let ?ms = "minutes_of i (firings s)"
        have le: "last ?ms \<le> m" using minutes_of_past [OF time that(1) m(1)] m(2) that(2)
          by (metis last_in_set length_greater_0_conv length_pos_if_in_set)
        moreover have "last ?ms \<noteq> m"
          using once start(1) that visit(4) by (auto simp: once_inv_def due_def)
        moreover have "x \<le> last ?ms"
          using once that visit(4) by (auto simp: once_inv_def intro: strict_le_last)
        ultimately show ?thesis by simp
      qed
      then show ?thesis using once visit(1,4) start(2,3)
        by (auto simp: once_inv_def minutes_of_append sorted_wrt_append nth_list_update)
    qed
  next
    case (add_job spec fn c)
    have "minutes_of (length (jobs (tab s))) (firings s) = []"
      using safe by (auto simp: safe_inv_def minutes_of_def filter_empty_conv)
    then show ?thesis using once add_job by (auto simp: once_inv_def AddJob_Ok nth_append less_Suc_eq)
  qed (auto simp: once_inv_def outer_steps minutes_of_set_phase
      fire_clear_job fire_done_Some)
qed

definition cron_start :: "('p, 'w) csys \<Rightarrow> bool" where
  "cron_start s \<longleftrightarrow> (\<exists>h opts w. s = csys_init h opts w)"

lemma apply_options_frame:
  "jobs (fold apply_option opts c) = jobs c \<and> wg (fold apply_option opts c) = wg c
    \<and> waiters (fold apply_option opts c) = waiters c
    \<and> stopped (fold apply_option opts c) = stopped c
    \<and> stop_closed (fold apply_option opts c) = stop_closed c"
proof (induction opts arbitrary: c)
  case (Cons x opts)
  show ?case using Cons.IH [of "apply_option x c"] by (cases x) simp_all
qed simp

lemma crontab_New_simps [simp]:
  "jobs (crontab_New h opts) = []" "wg (crontab_New h opts) = 0" "waiters (crontab_New h opts) = 0"
  "stopped (crontab_New h opts) = False" "stop_closed (crontab_New h opts) = False"
  by (simp_all add: crontab_New_def apply_options_frame)

lemma cinv_init: "cinv (csys_init h opts w)"
  by (simp add: cinv_def csys_init_def safe_inv_def wg_inv_def flag_inv_def stop_inv_def time_inv_def
      once_inv_def)

interpretation cron: step_system cron_start cstep cinv
proof unfold_locales
  show "cron_start s \<Longrightarrow> cinv s" for s :: "('p, 'w) csys" by (auto simp: cron_start_def cinv_init)
  show "cinv s \<Longrightarrow> cstep s s' \<Longrightarrow> cinv s'" for s s' :: "('p, 'w) csys"
    unfolding cinv_def [of s']
    by (intro conjI; rule safe_step wg_step flag_step stop_step time_step once_step)
qed

lemma drained_step:
  "cinv s \<Longrightarrow> drained s \<Longrightarrow> cstep s s' \<Longrightarrow>
    drained s' \<and> firings s' = firings s \<and> world s' = world s \<and> jobs (tab s') = jobs (tab s)"
proof -
  assume inv: "cinv s" and d: "drained s" and step: "cstep s s'"
  then have st: "stopped (tab s)" "unlocked s" "\<forall>n < length (firings s). f_phase (firings s ! n) = Finished"
    by (auto simp: cinv_def stop_inv_def)
  from step d st show ?thesis
    by (cases rule: cstep.cases) (auto simp: unlocked_def AddJob_Ok outer_steps)
qed

lemma drained_run:
  assumes "cinv s" "drained s" "cstep\<^sup>*\<^sup>* s s'"
  shows "drained s' \<and> firings s' = firings s \<and> world s' = world s \<and> jobs (tab s') = jobs (tab s)"
  by (rule cron.run_rel [OF assms(3,1), where R = "\<lambda>s s'. drained s' \<and> firings s' = firings s
        \<and> world s' = world s \<and> jobs (tab s') = jobs (tab s)"]) (use assms(2) drained_step in auto)

subsection \<open>Shutting down always can complete\<close>

fun rank :: "phase \<Rightarrow> nat" where
  "rank Executing = 3"
| "rank Recovered = 2"
| "rank Cleared = 1"
| "rank Finished = 0"

definition work_left :: "firing list \<Rightarrow> nat" where
  "work_left fs = (\<Sum>f\<leftarrow>fs. rank (f_phase f))"

lemma work_left_set_phase:
  "n < length fs \<Longrightarrow> rank p < rank (f_phase (fs ! n)) \<Longrightarrow> work_left (set_phase n p fs) < work_left fs"
proof (induction fs arbitrary: n)
  case (Cons f fs)
  then show ?case by (cases n) (auto simp: work_left_def set_phase_def)
qed simp

text \<open>What the calls of \<open>Shutdown\<close> change, and runs of the rest of the scheduler beside them.\<close>

definition flags :: "('p, 'w) csys \<Rightarrow> bool \<times> bool \<times> nat \<times> bool" where
  "flags s = (stopped (tab s), stop_closed (tab s), waiters (tab s), drained s)"

definition quiet :: "('p, 'w) csys \<Rightarrow> ('p, 'w) csys \<Rightarrow> bool" where
  "quiet s s' \<longleftrightarrow> cstep s s' \<and> flags s' = flags s"

lemma quiet_run: "quiet\<^sup>*\<^sup>* s s' \<Longrightarrow> cstep\<^sup>*\<^sup>* s s' \<and> flags s' = flags s"
  by (induction rule: rtranclp_induct) (auto simp: quiet_def)

lemma fire_advances:
  assumes "cinv s" "n < length (firings s)" "f_phase (firings s ! n) \<noteq> Finished"
  shows "\<exists>s'. quiet s s' \<and> work_left (firings s') < work_left (firings s)"
proof -
  have nc: "\<not> crashed s" using assms(1) by (simp add: cinv_def safe_inv_def)
  show ?thesis
  proof (cases "f_phase (firings s ! n)")
    case Executing
    obtain r w where e: "fire_body (f_job (firings s ! n)) (tab s) (world s) = (r, w)" by force
    show ?thesis
      by (rule exI, rule conjI, unfold quiet_def, rule conjI, rule job_end [OF nc assms(2) Executing e])
        (use Executing assms(2) in \<open>auto simp: flags_def intro!: work_left_set_phase\<close>)
  next
    case Recovered
    show ?thesis
      by (rule exI, rule conjI, unfold quiet_def, rule conjI, rule flag_clear [OF nc assms(2) Recovered])
        (use Recovered assms(2) in \<open>auto simp: flags_def intro!: work_left_set_phase\<close>)
  next
    case Cleared
    show ?thesis
    proof (cases "fire_done (tab s)")
      case None
      from wg_panic [OF nc assms(2) Cleared None] have "safe_inv (s\<lparr>crashed := True\<rparr>)"
        by (rule safe_step [OF assms(1)])
      then show ?thesis by (simp add: safe_inv_def)
    next
      case (Some c)
      show ?thesis
        by (rule exI, rule conjI, unfold quiet_def, rule conjI, rule wg_done [OF nc assms(2) Cleared Some])
          (use Cleared assms(2) Some in \<open>auto intro!: work_left_set_phase simp: fire_done_Some flags_def\<close>)
    qed
  qed (use assms(3) in simp)
qed

lemma jobs_finish:
  "cinv s \<Longrightarrow> \<exists>s'. quiet\<^sup>*\<^sup>* s s' \<and> Wait_returns (tab s')"
proof (induction "work_left (firings s)" arbitrary: s rule: less_induct)
  case less
  show ?case
  proof (cases "\<exists>n < length (firings s). f_phase (firings s ! n) \<noteq> Finished")
    case True
    then obtain s1 where s1: "quiet s s1" "work_left (firings s1) < work_left (firings s)"
      using fire_advances [OF less.prems(1)] by blast
    then have "cstep s s1" by (simp add: quiet_def)
    from less.hyps [OF s1(2) cron.step_inv [OF less.prems(1) this]] s1
    show ?thesis by (auto intro: converse_rtranclp_into_rtranclp)
  next
    case False
    then have "filter (\<lambda>f. f_phase f \<noteq> Finished) (firings s) = []"
      by (auto simp: filter_empty_conv in_set_conv_nth)
    then have "Wait_returns (tab s)"
      using less.prems(1) by (simp add: cinv_def wg_inv_def Wait_returns_def)
    then show ?thesis by blast
  qed
qed

lemma closed_drains:
  assumes "cinv s" "stop_closed (tab s)"
  shows "\<exists>s'. cstep\<^sup>*\<^sup>* s s' \<and> drained s'"
proof -
  obtain s1 where "quiet\<^sup>*\<^sup>* s s1" and w: "Wait_returns (tab s1)" using jobs_finish [OF assms(1)] by blast
  then have s1: "cstep\<^sup>*\<^sup>* s s1" "flags s1 = flags s" using quiet_run by blast+
  have "cinv s1" by (rule cron.run_inv [OF s1(1) assms(1)])
  then have nc: "\<not> crashed s1" by (simp add: cinv_def safe_inv_def)
  let ?s2 = "s1\<lparr>tab := Wait_begin (tab s1)\<rparr>"
  have "cstep s1 ?s2" using nc s1(2) assms(2) by (intro wait_begin) (simp_all add: flags_def)
  moreover have "cstep ?s2 (?s2\<lparr>tab := tab s1, drained := True\<rparr>)"
    using nc w by (intro wait_end) (simp_all add: Wait_end_def Wait_begin_def Wait_returns_def)
  moreover have "drained (?s2\<lparr>tab := tab s1, drained := True\<rparr>)" by simp
  ultimately show ?thesis using s1(1) by (meson rtranclp.rtrancl_into_rtrancl)
qed

lemma loop_unlocks:
  "cinv s \<Longrightarrow> \<exists>s'. quiet\<^sup>*\<^sup>* s s' \<and> unlocked s'"
proof (cases "unlocked s")
  case False
  assume inv: "cinv s"
  from False obtain m i where "runner s = InLoop m i" by (auto simp: unlocked_def)
  with inv show ?thesis
  proof (induction "length (jobs (tab s)) - i" arbitrary: s i rule: less_induct)
    case less
    have safe: "safe_inv s" using less.prems(1) by (simp add: cinv_def)
    then have nc: "\<not> crashed s" by (simp add: safe_inv_def)
    have "stop_inv s" using less.prems(1) by (simp add: cinv_def)
    from loop_can_add [OF this less.prems(2)] have free: "can_add (tab s)" ..
    show ?case
    proof (cases "i < length (jobs (tab s))")
      case True
      with safe have "sized (j_sched (jobs (tab s) ! i))" by (simp add: safe_inv_def)
      from dispatch_Ok [OF this free] obtain r where "dispatch m i (tab s) = Ok r" by blast
      then obtain c b where d: "dispatch m i (tab s) = Ok (c, b)" by (cases r) auto
      have len: "length (jobs c) = length (jobs (tab s))"
        and keep: "stopped c = stopped (tab s)" "stop_closed c = stop_closed (tab s)" "waiters c = waiters (tab s)"
        using safe True d by (cases rule: visit_cases; simp)+
      note v = visit [OF nc less.prems(2) True d]
      let ?s1 = "s\<lparr>tab := c, runner := InLoop m (Suc i), firings := firings s
        @ (if b then [\<lparr>f_job = i, fired_at = m, f_phase = Executing\<rparr>] else [])\<rparr>"
      have "quiet s ?s1" using v keep by (simp add: quiet_def flags_def)
      moreover have "\<exists>s'. quiet\<^sup>*\<^sup>* ?s1 s' \<and> unlocked s'"
        using less.hyps [OF _ cron.step_inv [OF less.prems(1) v], of "Suc i"] True len by simp
      ultimately show ?thesis by (rule run_more)
    next
      case False
      have "quiet s (s\<lparr>runner := AtSelect\<rparr>)"
        using loop_end [OF nc less.prems(2) False] by (simp add: quiet_def flags_def)
      then show ?thesis by (rule run_one) (simp add: unlocked_def)
    qed
  qed
qed blast

lemma stop_drains:
  assumes "cinv s"
  shows "\<exists>s'. cstep\<^sup>*\<^sup>* s s' \<and> drained s'"
proof -
  obtain s1 where s1: "cstep\<^sup>*\<^sup>* s s1" "unlocked s1" using loop_unlocks [OF assms] quiet_run by blast
  then have inv1: "cinv s1" using cron.run_inv assms by blast
  then have nc: "\<not> crashed s1" by (simp add: cinv_def safe_inv_def)
  obtain s2 where s2: "cstep\<^sup>*\<^sup>* s1 s2" "stopped (tab s2)"
  proof (cases "stopped (tab s1)")
    case False
    from shutdown_stop [OF nc s1(2) this] show thesis
      by (rule that [OF r_into_rtranclp]) (simp add: Shutdown_stop_def)
  qed (use that in blast)
  have inv2: "cinv s2" using cron.run_inv s2(1) inv1 by blast
  then have nc: "\<not> crashed s2" by (simp add: cinv_def safe_inv_def)
  obtain s3 where s3: "cstep\<^sup>*\<^sup>* s2 s3" "stop_closed (tab s3)"
  proof (cases "stop_closed (tab s2)")
    case False
    from shutdown_close [OF nc s2(2) this] show thesis
      by (rule that [OF r_into_rtranclp]) (simp add: Shutdown_close_def)
  qed (use that in blast)
  have "cinv s3" using cron.run_inv s3(1) inv2 by blast
  from closed_drains [OF this s3(2)] s1(1) s2(1) s3(1) show ?thesis by (meson rtranclp_trans)
qed

subsection \<open>One pass of the runner\<close>

lemma due_cong:
  "loc c' = loc c \<Longrightarrow> overlap c' = overlap c \<Longrightarrow> due c' m j = due c m j"
  by (simp add: due_def matches_def)

lemma start_job_cong: "overlap c' = overlap c \<Longrightarrow> start_job c' m j = start_job c m j"
  by (simp add: start_job_def)

definition passed :: "instant \<Rightarrow> nat list \<Rightarrow> ('p, 'w) crontab \<Rightarrow> ('p, 'w) crontab" where
  "passed m is c = c\<lparr>
     jobs := map (\<lambda>i. if i \<in> set is \<and> due c m (jobs c ! i) then start_job c m (jobs c ! i)
                      else jobs c ! i) [0..<length (jobs c)],
     wg := wg c + int (length (filter (\<lambda>i. due c m (jobs c ! i)) is))\<rparr>"

lemma map_nth_upd:
  "i < length xs \<Longrightarrow> xs[i := y] = map (\<lambda>k. if k = i then y else xs ! k) [0..<length xs]"
  by (rule nth_equalityI) (auto simp: nth_list_update)

lemma passed_Nil: "passed m [] c = c"
  by (simp add: passed_def map_nth)

lemma passed_Cons:
  assumes "i < length (jobs c)" "i \<notin> set is" "\<forall>k \<in> set is. k < length (jobs c)"
  shows "passed m is (if due c m (jobs c ! i)
      then (set_job i (start_job c m (jobs c ! i)) c)\<lparr>wg := wg c + 1\<rparr> else c) = passed m (i # is) c"
    (is "passed m is ?c = _")
proof -
  have frame: "loc ?c = loc c" "overlap ?c = overlap c" "length (jobs ?c) = length (jobs c)" by auto
  have other: "jobs ?c ! k = jobs c ! k" if "k \<in> set is" for k
  proof -
    have "i \<noteq> k" using that assms(2) by auto
    then show ?thesis by simp
  qed
  have "map (\<lambda>k. if k \<in> set is \<and> due ?c m (jobs ?c ! k) then start_job ?c m (jobs ?c ! k)
          else jobs ?c ! k) [0..<length (jobs ?c)]
      = map (\<lambda>k. if k \<in> set (i # is) \<and> due c m (jobs c ! k) then start_job c m (jobs c ! k)
          else jobs c ! k) [0..<length (jobs c)]"
    unfolding due_cong [OF frame(1,2)] start_job_cong [OF frame(2)] frame(3)
    using assms(1) other by (intro map_cong) (auto simp: nth_list_update)
  moreover have "filter (\<lambda>k. due ?c m (jobs ?c ! k)) is = filter (\<lambda>k. due c m (jobs c ! k)) is"
    unfolding due_cong [OF frame(1,2)] by (rule filter_cong) (simp_all only: other)
  ultimately show ?thesis
    by (simp only: passed_def) (simp add: set_job_def)
qed

lemma dispatch_all_passed:
  assumes "\<forall>j \<in> set (jobs c). sized (j_sched j)" "distinct is" "\<forall>k \<in> set is. k < length (jobs c)"
    and "can_add c \<or> (\<forall>k \<in> set is. \<not> due c m (jobs c ! k))"
  shows "dispatch_all m is c = Ok (passed m is c, filter (\<lambda>i. due c m (jobs c ! i)) is)"
  using assms
proof (induction "is" arbitrary: c)
  case (Cons i "is")
  let ?c = "if due c m (jobs c ! i)
      then (set_job i (start_job c m (jobs c ! i)) c)\<lparr>wg := wg c + 1\<rparr> else c"
  have d: "dispatch m i c = Ok (?c, due c m (jobs c ! i))"
    using Cons.prems by (subst dispatch_cases) auto
  have sz: "\<forall>j \<in> set (jobs ?c). sized (j_sched j)"
    using Cons.prems(1,3) ball_update [OF Cons.prems(1), of "start_job c m (jobs c ! i)" i] by simp
  have "filter (\<lambda>k. due ?c m (jobs ?c ! k)) is = filter (\<lambda>k. due c m (jobs c ! k)) is"
  proof (rule filter_cong)
    fix k assume "k \<in> set is"
    then have "i \<noteq> k" using Cons.prems(2) by auto
    then have "jobs ?c ! k = jobs c ! k" by simp
    then show "due ?c m (jobs ?c ! k) = due c m (jobs c ! k)" by (simp add: due_def matches_def)
  qed simp
  moreover have "can_add ?c \<or> (\<forall>k \<in> set is. \<not> due ?c m (jobs ?c ! k))"
    using Cons.prems(4) by (auto simp: can_add_def)
  then have "dispatch_all m is ?c = Ok (passed m is ?c, filter (\<lambda>k. due ?c m (jobs ?c ! k)) is)"
    using Cons.prems by (intro Cons.IH sz) auto
  moreover have "passed m is ?c = passed m (i # is) c"
    using Cons.prems by (intro passed_Cons) auto
  ultimately show ?case by (simp only: dispatch_all.simps d gobind.simps prod.case) simp
qed (simp add: passed_Nil)

text \<open>With somebody waiting on a counter of zero, the first job that is due ends the pass.\<close>

lemma dispatch_all_misused:
  assumes "\<forall>j \<in> set (jobs c). sized (j_sched j)" "\<forall>k \<in> set is. k < length (jobs c)" "\<not> can_add c"
    and "\<exists>k \<in> set is. due c m (jobs c ! k)"
  shows "dispatch_all m is c = Panic"
  using assms
proof (induction "is")
  case (Cons i "is")
  then have d: "dispatch m i c = (if due c m (jobs c ! i) then Panic else Ok (c, False))"
    by (subst dispatch_cases) auto
  have "dispatch_all m is c = Panic" if "\<not> due c m (jobs c ! i)"
    using Cons.prems that by (intro Cons.IH) auto
  with d show ?case by simp
qed simp

subsection \<open>Distinct by job and minute\<close>

lemma distinct_by_key:
  "(\<And>i. distinct (minutes_of i fs)) \<Longrightarrow> distinct (map (\<lambda>f. (f_job f, fired_at f)) fs)"
proof (induction fs)
  case (Cons f fs)
  have "distinct (minutes_of i fs)" for i
    using Cons.prems [of i] by (auto simp: minutes_of_def split: if_splits)
  moreover have "fired_at f \<notin> set (minutes_of (f_job f) fs)"
    using Cons.prems [of "f_job f"] by (simp add: minutes_of_def)
  ultimately show ?case using Cons.IH by (auto simp: minutes_of_def)
qed simp

lemma passed_none:
  assumes "\<And>j. j \<in> set (jobs c) \<Longrightarrow> \<not> due c m j"
  shows "passed m [0..<length (jobs c)] c = c"
proof -
  have nd: "\<not> due c m (jobs c ! i)" if "i < length (jobs c)" for i using assms that by simp
  then have "filter (\<lambda>i. due c m (jobs c ! i)) [0..<length (jobs c)] = []"
    by (auto simp: filter_empty_conv)
  moreover have "map (\<lambda>i. if i \<in> set [0..<length (jobs c)] \<and> due c m (jobs c ! i)
      then start_job c m (jobs c ! i) else jobs c ! i) [0..<length (jobs c)] = jobs c"
    using nd by (intro nth_equalityI) auto
  ultimately show ?thesis by (simp only: passed_def) simp
qed

text \<open>The list of starts only grows.\<close>

lemma history_step:
  assumes "cstep s s'"
  shows "\<exists>rest. map (\<lambda>f. (f_job f, fired_at f)) (firings s')
    = map (\<lambda>f. (f_job f, fired_at f)) (firings s) @ rest"
  using assms
proof (cases rule: cstep.cases)
  case (job_end n r w)
  then show ?thesis by (simp add: set_phase_def map_update_same)
next
  case (flag_clear n)
  then show ?thesis by (simp add: set_phase_def map_update_same)
next
  case (wg_done n c)
  then show ?thesis by (simp add: set_phase_def map_update_same)
qed simp_all

subsection \<open>A run to the end\<close>

text \<open>
  A job for every minute that panics; the handler counts. It is added, started at 12:00 on
  1 January 1970, recovered and counted, and the scheduler shuts down.
\<close>

definition demo_job :: "(string, nat) job_fn" where
  "demo_job w = (Some ''boom'', w)"

definition demo_handler :: "(string, nat) panic_handler" where
  "demo_handler spec v w = (Some ''again'', Suc w)"

definition demo_sched :: schedule where
  "demo_sched = \<lparr>sc_minute = replicate 60 True, sc_hour = replicate 24 True,
     sc_dom = False # replicate 31 True, sc_month = False # replicate 12 True,
     sc_dow = replicate 8 True, domStar = True, dowStar = True\<rparr>"

definition demo_now :: instant where
  "demo_now = (62135596800 + 43200) * Second + 17"

definition demo_minute :: instant where
  "demo_minute = (62135596800 + 43200) * Second"

lemma demo_parse: "parse ''* * * * *'' = Some (Ok demo_sched)"
  by code_simp

lemma demo_match: "sched_match demo_sched (civil_at UTC demo_minute) = Ok True"
  by code_simp

lemma demo_truncate: "Truncate demo_now Minute = demo_minute" "demo_minute \<noteq> 0"
  by (simp_all add: Truncate_def demo_now_def demo_minute_def Minute_def Second_def)

definition demo_tab :: "bool \<Rightarrow> instant \<Rightarrow> bool \<Rightarrow> int \<Rightarrow> (string, nat) crontab" where
  "demo_tab st l r n = \<lparr>loc = UTC, overlap = False, onPanic = demo_handler,
     jobs = [\<lparr>j_sched = demo_sched, j_fn = demo_job, j_spec = ''* * * * *'', running = r, last_fired = l\<rparr>],
     stop_closed = st, stopped = st, wg = n, waiters = 0\<rparr>"

definition demo_started :: "(string, nat) csys" where
  "demo_started = \<lparr>tab = demo_tab False demo_minute True 1, world = 0, runner = InLoop demo_minute 1,
     firings = [\<lparr>f_job = 0, fired_at = demo_minute, f_phase = Executing\<rparr>], clock = [demo_now],
     drained = False, crashed = False, add_panics = []\<rparr>"

definition demo_end :: "(string, nat) csys" where
  "demo_end = \<lparr>tab = demo_tab True demo_minute False 0, world = 1, runner = AtSelect,
     firings = [\<lparr>f_job = 0, fired_at = demo_minute, f_phase = Finished\<rparr>], clock = [demo_now],
     drained = True, crashed = False, add_panics = []\<rparr>"

lemma demo_reach_quiet: "quiet\<^sup>*\<^sup>* (csys_init demo_handler [] 0) demo_started"
proof -
  define s1 :: "(string, nat) csys" where "s1 = \<lparr>tab = demo_tab False 0 False 0, world = 0,
    runner = AtSelect, firings = [], clock = [], drained = False, crashed = False, add_panics = []\<rparr>"
  define s2 where "s2 = s1\<lparr>runner := InLoop demo_minute 0, clock := [demo_now]\<rparr>"
  note defs = s1_def s2_def demo_tab_def demo_started_def csys_init_def crontab_New_def flags_def
  have "quiet (csys_init demo_handler [] 0) s1"
    using add_job [of "csys_init demo_handler [] 0" "''* * * * *''" demo_job "demo_tab False 0 False 0"]
    by (simp add: quiet_def AddJob_Ok demo_parse unlocked_def defs)
  moreover have "quiet s1 s2"
    using tick [of s1 demo_now] by (simp add: quiet_def defs demo_truncate)
  moreover have "quiet s2 demo_started"
    using visit [of s2 demo_minute 0 "demo_tab False demo_minute True 1" True] demo_truncate(2)
    by (simp add: quiet_def defs dispatch_def demo_match set_job_def wg_Add_def Let_def del: gobind_Ok_iff)
  ultimately show ?thesis by (meson converse_rtranclp_into_rtranclp rtranclp.rtrancl_refl)
qed

lemma demo_reach: "cstep\<^sup>*\<^sup>* (csys_init demo_handler [] 0) demo_started"
  using demo_reach_quiet quiet_run by blast

lemma demo_finish: "cstep\<^sup>*\<^sup>* demo_started demo_end"
proof -
  define s where "s = (\<lambda>r st run n w p. \<lparr>tab = demo_tab st demo_minute r n, world = w, runner = run,
    firings = [\<lparr>f_job = 0, fired_at = demo_minute, f_phase = p\<rparr>], clock = [demo_now],
    drained = False, crashed = False, add_panics = []\<rparr> :: (string, nat) csys)"
  define t where "t = (\<lambda>b. (s False True AtSelect 0 1 Finished)\<lparr>tab :=
    (demo_tab True demo_minute False 0)\<lparr>stop_closed := b\<rparr>\<rparr>)"
  define u where "u = (t True)\<lparr>tab := (demo_tab True demo_minute False 0)\<lparr>waiters := 1\<rparr>\<rparr>"
  note defs = s_def t_def u_def demo_tab_def demo_started_def demo_end_def set_phase_def
  have "cstep demo_started (s True False AtSelect 1 0 Executing)"
    using loop_end [of demo_started demo_minute 1] by (simp add: defs)
  moreover have "cstep (s True False AtSelect 1 0 Executing) (s True False AtSelect 1 1 Recovered)"
    using job_end [of "s True False AtSelect 1 0 Executing" 0 None 1]
    by (simp add: defs fire_body_def demo_job_def demo_handler_def)
  moreover have "cstep (s True False AtSelect 1 1 Recovered) (s False False AtSelect 1 1 Cleared)"
    using flag_clear [of "s True False AtSelect 1 1 Recovered" 0]
    by (simp add: defs fire_clear_def set_job_def)
  moreover have "cstep (s False False AtSelect 1 1 Cleared) (s False False AtSelect 0 1 Finished)"
    using wg_done [of "s False False AtSelect 1 1 Cleared" 0 "demo_tab False demo_minute False 0"]
    by (simp add: defs fire_done_def)
  moreover have "cstep (s False False AtSelect 0 1 Finished) (t False)"
    using shutdown_stop [of "s False False AtSelect 0 1 Finished"]
    by (simp add: defs unlocked_def Shutdown_stop_def)
  moreover have "cstep (t False) (t True)"
    using shutdown_close [of "t False"] by (simp add: defs Shutdown_close_def)
  moreover have "cstep (t True) u"
    using wait_begin [of "t True"] by (simp add: defs Wait_begin_def)
  moreover have "cstep u demo_end"
    using wait_end [of u "demo_tab True demo_minute False 0"] by (simp add: defs Wait_end_Some)
  ultimately show ?thesis by (meson converse_rtranclp_into_rtranclp rtranclp.rtrancl_refl)
qed

subsection \<open>Properties\<close>

text \<open>
  C16: as long as the wall clock is never stepped back, a job is started at most once for a
  minute, in every interleaving of the runner, the running jobs, \<open>AddJob\<close> and
  \<open>Shutdown\<close>.
\<close>

theorem cron_at_most_once:
  assumes "cstep\<^sup>*\<^sup>* (csys_init h opts w) s" and "sorted_wrt (\<ge>) (clock s)"
  shows "distinct (map (\<lambda>f. (f_job f, fired_at f)) (firings s))"
proof -
  have "cinv s" by (rule cron.run_inv [OF assms(1) cinv_init])
  then have safe: "safe_inv s" and once: "once_inv s" by (simp_all add: cinv_def)
  have "distinct (minutes_of i (firings s))" for i
  proof (cases "i < length (jobs (tab s))")
    case True
    then have "sorted_wrt (<) (minutes_of i (firings s))" using once assms(2) by (simp add: once_inv_def)
    then show ?thesis by (simp add: strict_sorted_iff)
  next
    case False
    then have "minutes_of i (firings s) = []"
      using safe by (auto simp: safe_inv_def minutes_of_def filter_empty_conv)
    then show ?thesis by simp
  qed
  then show ?thesis by (rule distinct_by_key)
qed

theorem cron_at_most_once_witness:
  "cstep\<^sup>*\<^sup>* (csys_init demo_handler [] 0) demo_end \<and> firings demo_end \<noteq> []
    \<and> distinct (map (\<lambda>f. (f_job f, fired_at f)) (firings demo_end))"
proof -
  have r: "cstep\<^sup>*\<^sup>* (csys_init demo_handler [] 0) demo_end"
    using demo_reach demo_finish by (rule rtranclp_trans)
  have "sorted_wrt (\<ge>) (clock demo_end)" by (simp add: demo_end_def)
  from cron_at_most_once [OF r this] r show ?thesis by (simp add: demo_end_def)
qed

text \<open>
  C17: jobs run only when their schedule says so. Every start was for the full minute of a
  reading of the clock, and the schedule of the job fires at that minute in the location of the
  scheduler.
\<close>

theorem cron_fires_on_schedule:
  assumes "cstep\<^sup>*\<^sup>* (csys_init h opts w) s" and "f \<in> set (firings s)"
  shows "f_job f < length (jobs (tab s)) \<and> (\<exists>now \<in> set (clock s). fired_at f = Truncate now Minute)
    \<and> sched_match (j_sched (jobs (tab s) ! f_job f)) (civil_at (loc (tab s)) (fired_at f)) = Ok True"
proof -
  have "cinv s" by (rule cron.run_inv [OF assms(1) cinv_init])
  with assms(2) show ?thesis by (auto simp: cinv_def safe_inv_def time_inv_def matches_def)
qed

theorem cron_fires_on_schedule_witness:
  "cstep\<^sup>*\<^sup>* (csys_init demo_handler [] 0) demo_started
    \<and> (\<exists>now \<in> set (clock demo_started). demo_minute = Truncate now Minute)"
proof -
  have "\<lparr>f_job = 0, fired_at = demo_minute, f_phase = Executing\<rparr> \<in> set (firings demo_started)"
    by (simp add: demo_started_def)
  from cron_fires_on_schedule [OF demo_reach this] demo_reach show ?thesis by simp
qed

text \<open>
  C18: without \<open>WithOverlap\<close> a job never runs concurrently with itself: at most one
  \<open>fire\<close> of it has not yet cleared the flag, and the flag says whether there is one.
\<close>

theorem cron_no_overlap:
  assumes "cstep\<^sup>*\<^sup>* (csys_init h opts w) s" and "\<not> overlap (tab s)" and "i < length (jobs (tab s))"
  shows "length (filter (\<lambda>f. f_job f = i \<and> (f_phase f = Executing \<or> f_phase f = Recovered)) (firings s)) \<le> 1
    \<and> (running (jobs (tab s) ! i) \<longleftrightarrow>
         (\<exists>f \<in> set (firings s). f_job f = i \<and> (f_phase f = Executing \<or> f_phase f = Recovered)))"
proof -
  have "cinv s" by (rule cron.run_inv [OF assms(1) cinv_init])
  then have n: "length (filter (busy i) (firings s)) = (if running (jobs (tab s) ! i) then 1 else 0)"
    using assms(2,3) by (simp add: cinv_def flag_inv_def)
  then have "running (jobs (tab s) ! i) \<longleftrightarrow> filter (busy i) (firings s) \<noteq> []" by (auto split: if_splits)
  moreover have "busy i = (\<lambda>f. f_job f = i \<and> (f_phase f = Executing \<or> f_phase f = Recovered))"
    by (rule ext) (simp add: busy_def)
  ultimately show ?thesis using n by (simp add: filter_empty_conv)
qed

theorem cron_no_overlap_witness:
  "\<not> overlap (tab demo_started) \<and> running (jobs (tab demo_started) ! 0)
    \<and> length (filter (\<lambda>f. f_job f = 0 \<and> (f_phase f = Executing \<or> f_phase f = Recovered))
         (firings demo_started)) \<le> 1"
  using cron_no_overlap [OF demo_reach, of 0] by (simp add: demo_started_def demo_tab_def)

text \<open>
  C19: the scheduler never dies of a panic in a goroutine of its own. No reachable state has crashed: the
  panic of a job is recovered, whatever its handler does; no table is indexed out of range; and the wait
  group, which counts exactly the started and unfinished jobs, never gets negative and is never added to
  beside a \<open>Wait\<close>: while the runner is in its loop, nobody waits, because a waiter comes only after the
  flag, the loop is not entered once the flag is set, and the flag is set under the lock the loop
  holds. What can panic is \<open>AddJob\<close>, in the goroutine of its caller and before it takes the lock, on a
  text with a step next to \<open>MaxInt64\<close>; the scheduler goes on.
\<close>

theorem cron_never_crashes:
  assumes "cstep\<^sup>*\<^sup>* (csys_init h opts w) s"
  shows "\<not> crashed s \<and> wg (tab s) = int (length (filter (\<lambda>f. f_phase f \<noteq> Finished) (firings s)))
    \<and> (\<forall>m i. runner s = InLoop m i \<longrightarrow> waiters (tab s) = 0 \<and> \<not> stopped (tab s))
    \<and> (\<forall>spec \<in> set (add_panics s). parse spec = Some Panic \<and> \<not> steps_small spec)"
proof -
  have "cinv s" by (rule cron.run_inv [OF assms cinv_init])
  then have inv: "safe_inv s" "wg_inv s" "stop_inv s" by (simp_all add: cinv_def)
  have "\<not> steps_small spec" if "parse spec = Some Panic" for spec using parse_result [of spec] that by auto
  moreover have "\<not> stopped (tab s)" if "runner s = InLoop m i" for m i
    using inv(3) that by (auto simp: stop_inv_def unlocked_def)
  ultimately show ?thesis using inv loop_can_add [OF inv(3)] by (auto simp: safe_inv_def wg_inv_def)
qed

theorem cron_never_crashes_witness:
  "cstep\<^sup>*\<^sup>* (csys_init demo_handler [] 0) demo_started \<and> wg (tab demo_started) = 1
    \<and> \<not> crashed demo_started \<and> runner demo_started = InLoop demo_minute 1 \<and> waiters (tab demo_started) = 0"
  using demo_reach cron_never_crashes [OF demo_reach] by (simp add: demo_started_def)

text \<open>
  When \<open>Shutdown\<close> has returned nil, every job ever started has finished, and from
  then on nothing runs and nothing is registered: \<open>AddJob\<close> of a valid schedule fails with
  \<open>ErrClosed\<close> and one pass of the runner starts nothing.
\<close>

lemma cron_shutdown_final:
  assumes "cstep\<^sup>*\<^sup>* (csys_init h opts w) s" and "drained s" and "cstep\<^sup>*\<^sup>* s s'"
  shows "(\<forall>f \<in> set (firings s). f_phase f = Finished) \<and> firings s' = firings s \<and> world s' = world s
    \<and> jobs (tab s') = jobs (tab s)
    \<and> (parse spec = Some (Ok sched) \<longrightarrow> AddJob spec fn (tab s') = Some (Err ErrClosed))
    \<and> runDue now (tab s') = Ok (tab s', [])"
proof -
  have inv: "cinv s" by (rule cron.run_inv [OF assms(1) cinv_init])
  have inv': "cinv s'" by (rule cron.run_inv [OF assms(3) inv])
  note d = drained_run [OF inv assms(2,3)]
  then have st: "stopped (tab s')" using inv' by (simp add: cinv_def stop_inv_def)
  have "\<forall>f \<in> set (firings s). f_phase f = Finished" using inv assms(2) by (simp add: cinv_def stop_inv_def)
  with d st show ?thesis by (simp add: AddJob_def runDue_def)
qed

lemma cron_shutdown_final_example:
  "cstep\<^sup>*\<^sup>* (csys_init demo_handler [] 0) demo_end \<and> drained demo_end
    \<and> runDue demo_now (tab demo_end) = Ok (tab demo_end, [])"
proof -
  have r: "cstep\<^sup>*\<^sup>* (csys_init demo_handler [] 0) demo_end"
    using demo_reach demo_finish by (rule rtranclp_trans)
  have d: "drained demo_end" by (simp add: demo_end_def)
  from cron_shutdown_final [OF r d rtranclp.rtrancl_refl, of "[]" undefined undefined demo_now] r d
  show ?thesis by simp
qed

text \<open>
  Shutting down cannot get stuck. From every reachable state, also in the middle of a
  dispatch loop and with jobs running that panic, there is a run to a state in which
  \<open>Shutdown\<close> has returned nil.
\<close>

lemma cron_shutdown_completes:
  assumes "cstep\<^sup>*\<^sup>* (csys_init h opts w) s"
  shows "\<exists>s'. cstep\<^sup>*\<^sup>* s s' \<and> drained s' \<and> (\<forall>f \<in> set (firings s'). f_phase f = Finished)
    \<and> (\<exists>rest. map (\<lambda>f. (f_job f, fired_at f)) (firings s') = map (\<lambda>f. (f_job f, fired_at f)) (firings s) @ rest)"
proof -
  let ?k = "map (\<lambda>f. (f_job f, fired_at f))"
  have inv: "cinv s" by (rule cron.run_inv [OF assms cinv_init])
  obtain s' where s': "cstep\<^sup>*\<^sup>* s s'" "drained s'" using stop_drains [OF inv] by blast
  have "cinv s'" by (rule cron.run_inv [OF s'(1) inv])
  with s'(2) have "\<forall>f \<in> set (firings s'). f_phase f = Finished" by (simp add: cinv_def stop_inv_def)
  moreover have "\<exists>rest. ?k (firings s') = ?k (firings s) @ rest"
    using s'(1) by (rule cron.run_rel [OF _ inv]) (auto dest: history_step)
  ultimately show ?thesis using s' by blast
qed

lemma cron_shutdown_completes_example:
  "runner demo_started \<noteq> AtSelect \<and> (\<exists>s'. cstep\<^sup>*\<^sup>* demo_started s' \<and> drained s')"
  using cron_shutdown_completes [OF demo_reach] by (auto simp: demo_started_def)

text \<open>
  C22: one pass of \<open>runDue\<close> on a running scheduler starts exactly the jobs that are due, in
  their order: those whose schedule fires in the minute, that were not started for this minute
  already, and that are not running or may overlap. Nothing else changes, and a second pass in
  the same minute starts nothing. The one exception is a wait group of zero that somebody waits for, with a
  job due: that pass panics. In the scheduler it does not occur, which is part of C19.
\<close>

theorem runDue_exact:
  assumes "\<forall>j \<in> set (jobs c). sized (j_sched j)" and "\<not> stopped c"
  shows "if wg c \<le> 0 \<and> 0 < waiters c \<and> (\<exists>j \<in> set (jobs c). due c (Truncate now Minute) j)
    then runDue now c = Panic
    else \<exists>c'. runDue now c = Ok (c', filter (\<lambda>i. due c (Truncate now Minute) (jobs c ! i)) [0..<length (jobs c)])
      \<and> jobs c' = map (\<lambda>j. if due c (Truncate now Minute) j then start_job c (Truncate now Minute) j else j) (jobs c)
      \<and> wg c' = wg c + int (length (filter (due c (Truncate now Minute)) (jobs c)))
      \<and> c' = c\<lparr>jobs := jobs c', wg := wg c'\<rparr>
      \<and> runDue now c' = Ok (c', [])"
proof (cases "wg c \<le> 0 \<and> 0 < waiters c \<and> (\<exists>j \<in> set (jobs c). due c (Truncate now Minute) j)")
  case True
  then obtain i where "i < length (jobs c)" "due c (Truncate now Minute) (jobs c ! i)"
    by (auto simp: in_set_conv_nth)
  then have "\<exists>k \<in> set [0..<length (jobs c)]. due c (Truncate now Minute) (jobs c ! k)"
    by (intro bexI [of _ i]) simp_all
  moreover have "\<not> can_add c" using True by (simp add: can_add_def)
  ultimately have "dispatch_all (Truncate now Minute) [0..<length (jobs c)] c = Panic"
    using assms(1) by (intro dispatch_all_misused) simp_all
  with True assms show ?thesis by (simp add: runDue_def)
next
  case False
  let ?m = "Truncate now Minute" and ?is = "[0..<length (jobs c)]"
  let ?c = "passed ?m ?is c"
  let ?go = "\<lambda>j. if due c ?m j then start_job c ?m j else j"
  have "can_add c \<or> (\<forall>k \<in> set ?is. \<not> due c ?m (jobs c ! k))" using False by (auto simp: can_add_def)
  then have r: "runDue now c = Ok (?c, filter (\<lambda>i. due c ?m (jobs c ! i)) ?is)"
    using assms by (simp add: runDue_def dispatch_all_passed)
  have j: "jobs ?c = map ?go (jobs c)"
    by (rule nth_equalityI) (simp_all add: passed_def)
  have "length (filter (\<lambda>i. due c ?m (jobs c ! i)) ?is) = length (filter (due c ?m) (map ((!) (jobs c)) ?is))"
    by (simp add: filter_map comp_def)
  then have w: "wg ?c = wg c + int (length (filter (due c ?m) (jobs c)))"
    by (simp add: passed_def map_nth)
  have nd: "\<not> due ?c ?m j" if "j \<in> set (jobs ?c)" for j
    using that unfolding j by (auto simp: due_def matches_def passed_def)
  have "\<forall>j \<in> set (jobs ?c). sized (j_sched j)" using assms(1) unfolding j by auto
  moreover have "\<not> stopped ?c" using assms(2) by (simp add: passed_def)
  moreover have "filter (\<lambda>i. due ?c ?m (jobs ?c ! i)) [0..<length (jobs ?c)] = []"
    using nd by (auto simp: filter_empty_conv)
  moreover have "passed ?m [0..<length (jobs ?c)] ?c = ?c"
    using nd by (simp add: passed_none)
  ultimately have "runDue now ?c = Ok (?c, [])"
    using nd by (simp add: runDue_def dispatch_all_passed)
  with r j w False show ?thesis by (simp only: if_False) (intro exI [of _ ?c], simp add: passed_def)
qed

theorem runDue_exact_witness:
  "\<exists>c'. runDue demo_now (demo_tab False 0 False 0) = Ok (c', [0]) \<and> runDue demo_now c' = Ok (c', [])"
proof -
  have "sized demo_sched" by (simp add: sized_def demo_sched_def)
  then have "\<forall>j \<in> set (jobs (demo_tab False 0 False 0)). sized (j_sched j)" "\<not> stopped (demo_tab False 0 False 0)"
    by (simp_all add: demo_tab_def)
  from runDue_exact [OF this, of demo_now] show ?thesis
    using demo_match demo_truncate
    by (auto simp: due_def matches_def demo_tab_def)
qed

text \<open>
  C24: registering a job. \<open>AddJob\<close> of the text of a well-formed schedule on a scheduler that
  is not shut down appends a job that is due, when first looked at, exactly at the minutes
  at which the schedule fires; after the shutdown it is refused; text the parser rejects is an error in
  either case. \<open>MustAddJob\<close> turns every error into a panic.
\<close>

theorem AddJob_registers:
  assumes "wf_spec sp"
  shows "(\<not> stopped c \<longrightarrow> (\<exists>j. AddJob (show_spec sp) fn c = Some (Ok (c\<lparr>jobs := jobs c @ [j]\<rparr>))
        \<and> MustAddJob (show_spec sp) fn c = AddJob (show_spec sp) fn c
        \<and> (\<forall>m. m \<noteq> 0 \<longrightarrow> due c m j = fires sp (civil_at (loc c) m))))
    \<and> (stopped c \<longrightarrow> AddJob (show_spec sp) fn c = Some (Err ErrClosed)
        \<and> MustAddJob (show_spec sp) fn c = Some Panic)
    \<and> (parse bad = Some (Err e) \<longrightarrow> AddJob bad fn c = Some (Err (ParseError e))
        \<and> MustAddJob bad fn c = Some Panic)"
proof -
  obtain s where p: "parse (show_spec sp) = Some (Ok s)" using parse_show_spec [OF assms] by blast
  have m: "sched_match s t = Ok (fires sp t)" if "valid_civil t" for t
    using parse_fires [OF assms that] p by auto
  let ?j = "\<lparr>j_sched = s, j_fn = fn, j_spec = show_spec sp, running = False, last_fired = 0\<rparr>"
  have "due c m ?j = fires sp (civil_at (loc c) m)" if "m \<noteq> 0" for m
    using that m [OF civil_at_valid] by (auto simp: due_def matches_def)
  then show ?thesis
    by (auto simp: AddJob_def MustAddJob_def p intro!: exI [of _ ?j])
qed

theorem AddJob_registers_witness:
  "wf_spec example_spec \<and> (\<exists>j. AddJob (show_spec example_spec) demo_job (demo_tab False 0 False 0) =
      Some (Ok ((demo_tab False 0 False 0)\<lparr>jobs := jobs (demo_tab False 0 False 0) @ [j]\<rparr>)))"
proof -
  have w: "wf_spec example_spec" by (simp add: example_spec_def wf_spec_def wf_field_def)
  moreover have "\<not> stopped (demo_tab False 0 False 0)" by (simp add: demo_tab_def)
  ultimately show ?thesis
    using AddJob_registers [OF w, of "demo_tab False 0 False 0" demo_job] by blast
qed

end
