(* ===== verification/Retry.thy ===== *)
theory Retry
  imports Go_Errors
begin

section \<open>Package retry\<close>

text \<open>
  Models \<open>retry/retry.go\<close> and \<open>retry/options.go\<close>. The world \<open>'w\<close> is whatever the
  function under retry, the context, the clock and the random source share; each of them is a
  parameter that may change it. Durations are nanoseconds in 64-bit arithmetic.
\<close>

subsection \<open>The retrier and its options\<close>

record retry =
  maxRetries :: int
  delayStep :: int
  retryIf :: "(goerror option \<Rightarrow> bool) option"
  jitter :: bool

text \<open>What \<open>DoCtx\<close> uses of a \<open>context.Context\<close>: \<open>Err\<close>, and the outcome of the
  \<open>select\<close> between a timer and \<open>Done\<close> (\<open>True\<close>: the timer fired).\<close>

record 'w goctx =
  ctx_Err :: "'w \<Rightarrow> goerror option"
  timer_first :: "int \<Rightarrow> 'w \<Rightarrow> bool \<times> 'w"

type_synonym 'w gofn = "'w \<Rightarrow> goerror option \<times> 'w"

text \<open>\<open>rand.Int64N\<close>.\<close>

type_synonym 'w gorand = "int \<Rightarrow> 'w \<Rightarrow> int \<times> 'w"

definition DefaultMaxRetries :: int where
  "DefaultMaxRetries = 3"

definition DefaultDelayStep :: int where
  "DefaultDelayStep = 1 * 1000000000"

definition DefaultJitter :: bool where
  "DefaultJitter = True"

type_synonym retry_option = "retry \<Rightarrow> retry"

definition WithMaxRetries :: "int \<Rightarrow> retry_option" where
  "WithMaxRetries n r = r\<lparr>maxRetries := n\<rparr>"

definition WithDelayStep :: "int \<Rightarrow> retry_option" where
  "WithDelayStep d r = r\<lparr>delayStep := d\<rparr>"

definition WithJitter :: "bool \<Rightarrow> retry_option" where
  "WithJitter j r = r\<lparr>jitter := j\<rparr>"

definition WithRetryIf :: "(goerror option \<Rightarrow> bool) option \<Rightarrow> retry_option" where
  "WithRetryIf predicate r = (if predicate \<noteq> None then r\<lparr>retryIf := predicate\<rparr> else r)"

text \<open>\<open>New\<close>: the defaults, the non-nil options in order, then the clamp.\<close>

definition retry_New :: "retry_option option list \<Rightarrow> retry" where
  "retry_New options =
     (let r = \<lparr>maxRetries = DefaultMaxRetries, delayStep = DefaultDelayStep,
               retryIf = Some (\<lambda>err. err \<noteq> None), jitter = DefaultJitter\<rparr>;
          r = foldl (\<lambda>r opt. case opt of None \<Rightarrow> r | Some f \<Rightarrow> f r) r options
      in if maxRetries r < 1 then r\<lparr>maxRetries := 1\<rparr> else r)"

subsection \<open>Delays\<close>

definition shouldRetry :: "retry \<Rightarrow> goerror option \<Rightarrow> bool" where
  "shouldRetry r err = (case retryIf r of None \<Rightarrow> True | Some p \<Rightarrow> p err)"

definition calculateJitter :: "'w gorand \<Rightarrow> int \<Rightarrow> 'w \<Rightarrow> int \<times> 'w" where
  "calculateJitter rnd delay w = (if delay \<le> 0 then (0, w) else rnd delay w)"

definition linearDelay :: "retry \<Rightarrow> 'w gorand \<Rightarrow> int \<Rightarrow> 'w \<Rightarrow> int \<times> 'w" where
  "linearDelay r rnd i w =
     (let delay = wrap64 (delayStep r * wrap64 (i + 1))
      in if jitter r then calculateJitter rnd delay w else (delay, w))"

definition nextDelay :: "retry \<Rightarrow> 'w gorand \<Rightarrow> int \<Rightarrow> goerror \<Rightarrow> 'w \<Rightarrow> int \<times> 'w" where
  "nextDelay r rnd i err w =
     (case errors_As as_DelayHinter err of
        Some hint \<Rightarrow>
          if 0 < hint
          then (if jitter r
                then (case calculateJitter rnd (go_div hint 10) w of
                        (j, w') \<Rightarrow> (wrap64 (hint + j), w'))
                else (hint, w))
          else linearDelay r rnd i w
      | None \<Rightarrow> linearDelay r rnd i w)"

definition retry_After :: "int \<Rightarrow> goerror" where
  "retry_After d = GoError (HintError d) []"

definition sleep :: "'w goctx \<Rightarrow> int \<Rightarrow> 'w \<Rightarrow> goerror option \<times> 'w" where
  "sleep ctx delay w =
     (case timer_first ctx delay w of
        (True, w') \<Rightarrow> (None, w')
      | (False, w') \<Rightarrow> (ctx_Err ctx w', w'))"

subsection \<open>The loop\<close>

definition ErrNilRetry :: goerror where
  "ErrNilRetry = sentinel ''retry: nil retrier''"

definition ErrNilContext :: goerror where
  "ErrNilContext = sentinel ''retry: nil context''"

definition ErrNilFn :: goerror where
  "ErrNilFn = sentinel ''retry: nil fn''"

definition validate :: "retry option \<Rightarrow> 'w goctx option \<Rightarrow> 'w gofn option \<Rightarrow> goerror option" where
  "validate r ctx fn =
     (if r = None then Some ErrNilRetry
      else if ctx = None then Some ErrNilContext
      else if fn = None then Some ErrNilFn
      else None)"

text \<open>\<open>n\<close> iterations are left of \<open>for i := range maxR\<close>; \<open>err\<close> is the last error.\<close>

fun do_loop :: "retry \<Rightarrow> 'w goctx \<Rightarrow> 'w gofn \<Rightarrow> 'w gorand \<Rightarrow> int \<Rightarrow> nat \<Rightarrow> int \<Rightarrow> goerror option \<Rightarrow> 'w
    \<Rightarrow> goerror option \<times> 'w" where
  "do_loop r ctx fn rnd maxR 0 i err w = (err, w)"
| "do_loop r ctx fn rnd maxR (Suc n) i err w =
     (case ctx_Err ctx w of
        Some ctxErr \<Rightarrow> (Some ctxErr, w)
      | None \<Rightarrow>
          (case fn w of
             (None, w1) \<Rightarrow> (None, w1)
           | (Some e, w1) \<Rightarrow>
               if \<not> shouldRetry r (Some e) then (Some e, w1)
               else if i = maxR - 1 then (Some e, w1)
               else
                 (case nextDelay r rnd i e w1 of
                    (d, w2) \<Rightarrow>
                      (case sleep ctx d w2 of
                         (Some e', w3) \<Rightarrow> (Some e', w3)
                       | (None, w3) \<Rightarrow> do_loop r ctx fn rnd maxR n (i + 1) (Some e) w3))))"

definition DoCtx :: "retry option \<Rightarrow> 'w goctx option \<Rightarrow> 'w gofn option \<Rightarrow> 'w gorand \<Rightarrow> 'w
    \<Rightarrow> goerror option \<times> 'w" where
  "DoCtx r ctx fn rnd w =
     (case validate r ctx fn of
        Some err \<Rightarrow> (Some err, w)
      | None \<Rightarrow>
          (let maxR = max (maxRetries (the r)) 1
           in do_loop (the r) (the ctx) (the fn) rnd maxR (nat maxR) 0 None w))"

text \<open>\<open>Do\<close> passes \<open>context.Background()\<close>, which is never done.\<close>

definition background :: "(int \<Rightarrow> 'w \<Rightarrow> 'w) \<Rightarrow> 'w goctx" where
  "background pass = \<lparr>ctx_Err = (\<lambda>w. None), timer_first = (\<lambda>d w. (True, pass d w))\<rparr>"

definition Do :: "retry option \<Rightarrow> 'w gofn option \<Rightarrow> (int \<Rightarrow> 'w \<Rightarrow> 'w) \<Rightarrow> 'w gorand \<Rightarrow> 'w
    \<Rightarrow> goerror option \<times> 'w" where
  "Do r fn pass rnd w = DoCtx r (Some (background pass)) fn rnd w"

subsection \<open>What a client gets\<close>

text \<open>
  The client's side of the interface. \<open>I\<close> holds before every call of the client's function and
  after every failed one, and the waiting and the random source keep it; \<open>J\<close> holds after a
  successful call. Then \<open>J\<close> holds when \<open>DoCtx\<close> returns nil and \<open>I\<close> when it returns an error.
\<close>

locale retry_client =
  fixes ctx :: "'w goctx" and fn :: "'w gofn" and rnd :: "'w gorand" and I J :: "'w \<Rightarrow> bool"
  assumes fn_fails: "I w \<Longrightarrow> fn w = (Some e, w') \<Longrightarrow> I w'"
    and fn_succeeds: "I w \<Longrightarrow> fn w = (None, w') \<Longrightarrow> J w'"
    and wait_inv: "I w \<Longrightarrow> timer_first ctx d w = (b, w') \<Longrightarrow> I w'"
    and rnd_inv: "I w \<Longrightarrow> rnd k w = (j, w') \<Longrightarrow> I w'"
begin

lemma jitter_inv: "I w \<Longrightarrow> calculateJitter rnd d w = (j, w') \<Longrightarrow> I w'"
  by (auto simp: calculateJitter_def intro: rnd_inv split: if_splits)

lemma linear_inv: "I w \<Longrightarrow> linearDelay r rnd i w = (d, w') \<Longrightarrow> I w'"
  by (auto simp: linearDelay_def Let_def intro: jitter_inv split: if_splits)

lemma delay_inv: "I w \<Longrightarrow> nextDelay r rnd i e w = (d, w') \<Longrightarrow> I w'"
  by (auto simp: nextDelay_def intro: linear_inv jitter_inv split: option.splits if_splits prod.splits)

lemma sleep_inv: "I w \<Longrightarrow> sleep ctx d w = (e, w') \<Longrightarrow> I w'"
  by (auto simp: sleep_def intro: wait_inv split: prod.splits bool.splits)

lemma loop_inv:
  "I w \<Longrightarrow> do_loop r ctx fn rnd maxR n i err w = (res, w') \<Longrightarrow> 0 < n \<or> err \<noteq> None \<Longrightarrow>
    if res = None then J w' else I w'"
proof (induction n arbitrary: i err w)
  case (Suc n)
  show ?case
  proof (cases "ctx_Err ctx w")
    case None
    obtain e w1 where fn: "fn w = (e, w1)" by force
    show ?thesis
    proof (cases e)
      case None
      with fn_succeeds [OF Suc.prems(1)] fn Suc.prems \<open>ctx_Err ctx w = None\<close> show ?thesis by auto
    next
      case (Some x)
      then have I1: "I w1" using fn_fails [OF Suc.prems(1)] fn by simp
      show ?thesis
      proof (cases "\<not> shouldRetry r e \<or> i = maxR - 1")
        case True
        then show ?thesis using Suc.prems None fn I1 Some by (auto split: if_splits)
      next
        case False
        obtain d w2 where d: "nextDelay r rnd i x w1 = (d, w2)" by force
        obtain s w3 where s: "sleep ctx d w2 = (s, w3)" by force
        have I3: "I w3" using I1 d s by (blast intro: delay_inv sleep_inv)
        show ?thesis
          using Suc.IH [OF I3, of "i + 1" "Some x"] Suc.prems(2) None fn Some d s False I3 by (cases s) auto
      qed
    qed
  qed (use Suc.prems in auto)
qed auto

lemma DoCtx_inv:
  "I w \<Longrightarrow> DoCtx (Some r) (Some ctx) (Some fn) rnd w = (res, w') \<Longrightarrow> if res = None then J w' else I w'"
  by (rule loop_inv [of w r "max (maxRetries r) 1" "nat (max (maxRetries r) 1)" 0 None res w'])
    (simp_all add: DoCtx_def validate_def Let_def)

end

text \<open>A client that counts its calls: at most \<open>max(maxRetries, 1)\<close> of them in one \<open>DoCtx\<close>.\<close>

locale retry_counter = retry_client ctx fn rnd I J
  for ctx :: "'w goctx" and fn :: "'w gofn" and rnd :: "'w gorand" and I J :: "'w \<Rightarrow> bool" +
  fixes cnt :: "'w \<Rightarrow> int"
  assumes fn_cnt: "fn w = (e, w') \<Longrightarrow> cnt w' = cnt w + 1"
    and wait_cnt: "timer_first ctx d w = (b, w') \<Longrightarrow> cnt w' = cnt w"
    and rnd_cnt: "rnd k w = (j, w') \<Longrightarrow> cnt w' = cnt w"
begin

lemma delay_cnt: "nextDelay r rnd i e w = (d, w') \<Longrightarrow> cnt w' = cnt w"
  by (auto simp: nextDelay_def linearDelay_def calculateJitter_def Let_def dest: rnd_cnt
      split: option.splits if_splits prod.splits)

lemma sleep_cnt: "sleep ctx d w = (e, w') \<Longrightarrow> cnt w' = cnt w"
  by (auto simp: sleep_def dest: wait_cnt split: prod.splits bool.splits)

lemma loop_cnt:
  "do_loop r ctx fn rnd maxR n i err w = (res, w') \<Longrightarrow> cnt w \<le> cnt w' \<and> cnt w' \<le> cnt w + int n"
proof (induction n arbitrary: i err w)
  case (Suc n)
  then show ?case
    by (auto split: option.splits prod.splits if_splits dest!: fn_cnt delay_cnt sleep_cnt)
      (force dest!: Suc.IH)+
qed simp

lemma DoCtx_cnt:
  assumes "DoCtx (Some r) (Some ctx) (Some fn) rnd w = (res, w')"
  shows "cnt w \<le> cnt w' \<and> cnt w' \<le> cnt w + max (maxRetries r) 1"
proof -
  have "do_loop r ctx fn rnd (max (maxRetries r) 1) (nat (max (maxRetries r) 1)) 0 None w = (res, w')"
    using assms by (simp add: DoCtx_def validate_def Let_def)
  from loop_cnt [OF this] show ?thesis by (auto simp: max_def)
qed

end

text \<open>
  What happens between two calls. \<open>P\<close> holds before a call and after a wait; \<open>Q e\<close> after a call that
  failed with \<open>e\<close>, in which the wait must lead back to \<open>P\<close>; \<open>D\<close> is what the run is to end in.
\<close>

locale retry_pacer =
  fixes r :: retry and ctx :: "'w goctx" and fn :: "'w gofn" and rnd :: "'w gorand"
    and P D :: "'w \<Rightarrow> bool" and Q :: "goerror \<Rightarrow> 'w \<Rightarrow> bool"
  assumes call_fails: "P w \<Longrightarrow> fn w = (Some e, w') \<Longrightarrow> Q e w'"
    and call_succeeds: "P w \<Longrightarrow> fn w = (None, w') \<Longrightarrow> D w'"
    and waits_P: "Q e w \<Longrightarrow> shouldRetry r (Some e) \<Longrightarrow> nextDelay r rnd i e w = (d, w1) \<Longrightarrow>
      timer_first ctx d w1 = (b, w') \<Longrightarrow> P w'"
    and P_D: "P w \<Longrightarrow> D w" and Q_D: "Q e w \<Longrightarrow> D w"
begin

lemma sleep_P:
  "Q e w \<Longrightarrow> shouldRetry r (Some e) \<Longrightarrow> nextDelay r rnd i e w = (d, w1) \<Longrightarrow> sleep ctx d w1 = (s, w') \<Longrightarrow> P w'"
  by (auto simp: sleep_def intro: waits_P split: prod.splits bool.splits)

lemma loop_paced: "P w \<Longrightarrow> do_loop r ctx fn rnd maxR n i err w = (res, w') \<Longrightarrow> D w'"
proof (induction n arbitrary: i err w)
  case (Suc n)
  show ?case
  proof (cases "ctx_Err ctx w")
    case None
    obtain e w1 where fn: "fn w = (e, w1)" by force
    show ?thesis
    proof (cases e)
      case (Some x)
      then have q: "Q x w1" using call_fails [OF Suc.prems(1)] fn by simp
      obtain d w2 where d: "nextDelay r rnd i x w1 = (d, w2)" by force
      obtain s w3 where s: "sleep ctx d w2 = (s, w3)" by force
      have "P w3" if "shouldRetry r (Some x)" using sleep_P [OF q that d s] .
      then show ?thesis
        using Suc.prems(2) Suc.IH [of w3] None fn Some d s Q_D [OF q] P_D
        by (auto split: if_splits option.splits)
    qed (use Suc.prems call_succeeds None fn in auto)
  qed (use Suc.prems P_D in auto)
qed (simp add: P_D)

lemma DoCtx_paced: "P w \<Longrightarrow> DoCtx (Some r) (Some ctx) (Some fn) rnd w = (res, w') \<Longrightarrow> D w'"
  by (rule loop_paced) (simp_all add: DoCtx_def validate_def Let_def)

end

text \<open>
  Two worlds, one of them seen through the other: when the context, the function and the random source
  commute with the view, so does the whole run.
\<close>

locale retry_view =
  fixes view :: "'w \<Rightarrow> 'v" and ctx :: "'w goctx" and fn :: "'w gofn" and rnd :: "'w gorand"
    and ctx' :: "'v goctx" and fn' :: "'v gofn" and rnd' :: "'v gorand"
  assumes view_Err: "ctx_Err ctx' (view w) = ctx_Err ctx w"
    and view_timer: "timer_first ctx' d (view w) = map_prod id view (timer_first ctx d w)"
    and view_fn: "fn' (view w) = map_prod id view (fn w)"
    and view_rnd: "rnd' k (view w) = map_prod id view (rnd k w)"
begin

lemma view_delay: "nextDelay r rnd' i e (view w) = map_prod id view (nextDelay r rnd i e w)"
  by (simp add: nextDelay_def linearDelay_def calculateJitter_def Let_def view_rnd
      split: option.splits prod.splits)

lemma view_sleep: "sleep ctx' d (view w) = map_prod id view (sleep ctx d w)"
  by (simp add: sleep_def view_timer view_Err split: prod.splits bool.splits)

lemma view_loop:
  "do_loop r ctx' fn' rnd' maxR n i err (view w) = map_prod id view (do_loop r ctx fn rnd maxR n i err w)"
  by (induction n arbitrary: i err w)
    (auto simp: view_Err view_fn view_delay view_sleep split: option.splits prod.splits)

lemma view_DoCtx:
  "DoCtx r (Some ctx') (Some fn') rnd' (view w) = map_prod id view (DoCtx r (Some ctx) (Some fn) rnd w)"
  by (cases r) (simp_all add: DoCtx_def validate_def Let_def view_loop)

end

subsection \<open>A recorded run\<close>

text \<open>
  The same run with a log beside the world: every call of the function with what it returned
  and every wait with its duration. Recording changes neither the result nor the world.
\<close>

datatype retry_event = Called "goerror option" | Waited int

definition log_fn :: "'w gofn \<Rightarrow> ('w \<times> retry_event list) gofn" where
  "log_fn fn = (\<lambda>(w, l). case fn w of (e, w') \<Rightarrow> (e, (w', l @ [Called e])))"

definition log_ctx :: "'w goctx \<Rightarrow> ('w \<times> retry_event list) goctx" where
  "log_ctx ctx = \<lparr>ctx_Err = (\<lambda>(w, l). ctx_Err ctx w),
     timer_first = (\<lambda>d (w, l). case timer_first ctx d w of (b, w') \<Rightarrow> (b, (w', l @ [Waited d])))\<rparr>"

definition log_rnd :: "'w gorand \<Rightarrow> ('w \<times> retry_event list) gorand" where
  "log_rnd rnd = (\<lambda>k (w, l). case rnd k w of (j, w') \<Rightarrow> (j, (w', l)))"

fun calls :: "retry_event list \<Rightarrow> goerror option list" where
  "calls [] = []"
| "calls (Called e # l) = e # calls l"
| "calls (Waited d # l) = calls l"

fun waits :: "retry_event list \<Rightarrow> int list" where
  "waits [] = []"
| "waits (Called e # l) = waits l"
| "waits (Waited d # l) = d # waits l"

lemma nextDelay_log:
  "nextDelay r (log_rnd rnd) i e (w, l) = (case nextDelay r rnd i e w of (d, w') \<Rightarrow> (d, (w', l)))"
  by (auto simp: nextDelay_def linearDelay_def calculateJitter_def log_rnd_def Let_def
      split: option.splits prod.splits)

lemma sleep_log:
  "sleep (log_ctx ctx) d (w, l) = (case sleep ctx d w of (e, w') \<Rightarrow> (e, (w', l @ [Waited d])))"
  by (auto simp: sleep_def log_ctx_def split: prod.splits bool.splits)

lemma ctx_Err_log [simp]: "ctx_Err (log_ctx ctx) (w, l) = ctx_Err ctx w"
  by (simp add: log_ctx_def)

lemma log_fn_eq [simp]: "log_fn fn (w, l) = (case fn w of (e, w') \<Rightarrow> (e, (w', l @ [Called e])))"
  by (simp add: log_fn_def)

interpretation logged: retry_view fst "log_ctx ctx" "log_fn fn" "log_rnd rnd" ctx fn rnd
  by unfold_locales (auto simp: log_ctx_def log_fn_def log_rnd_def split: prod.splits)

lemma log_faithful:
  "map_prod id fst (DoCtx r (Some (log_ctx ctx)) (Some (log_fn fn)) (log_rnd rnd) (w, l))
     = DoCtx r (Some ctx) (Some fn) rnd w"
  using logged.view_DoCtx [where w = "(w, l)"] by simp

text \<open>What one stretch of the loop does, from iteration \<open>i\<close> with \<open>n\<close> iterations left.\<close>

definition wait_from :: "retry \<Rightarrow> 'w gorand \<Rightarrow> int \<Rightarrow> goerror option \<Rightarrow> int \<Rightarrow> bool" where
  "wait_from r rnd i e d \<longleftrightarrow> (\<exists>x w w'. e = Some x \<and> nextDelay r rnd i x w = (d, w'))"

definition retryable :: "retry \<Rightarrow> goerror option \<Rightarrow> bool" where
  "retryable r e \<longleftrightarrow> e \<noteq> None \<and> shouldRetry r e"

text \<open>A run alternates, starting with a call: it ends with a call, or with a wait when the context is over.\<close>

fun alternates :: "retry_event list \<Rightarrow> bool" where
  "alternates [] = True"
| "alternates [Called e] = True"
| "alternates (Called e # Waited d # evs) = alternates evs"
| "alternates _ = False"

definition outcome_ok ::
    "retry \<Rightarrow> nat \<Rightarrow> goerror option \<Rightarrow> goerror option \<Rightarrow> goerror option list \<Rightarrow> int list \<Rightarrow> bool" where
  "outcome_ok r n ctxErr res cs ds \<longleftrightarrow>
     (res = None \<and> cs \<noteq> [] \<and> last cs = None \<and> length cs = Suc (length ds))
     \<or> (res \<noteq> None \<and> cs \<noteq> [] \<and> last cs = res \<and> (length cs = n \<or> \<not> shouldRetry r res)
          \<and> length cs = Suc (length ds))
     \<or> (res \<noteq> None \<and> res = ctxErr \<and> list_all (retryable r) cs \<and> length cs = length ds \<and> length cs < n)"

definition stretch_ok ::
    "retry \<Rightarrow> 'w gorand \<Rightarrow> nat \<Rightarrow> int \<Rightarrow> goerror option \<Rightarrow> goerror option \<Rightarrow> retry_event list \<Rightarrow> bool" where
  "stretch_ok r rnd n i ctxErr res evs \<longleftrightarrow>
     length (calls evs) \<le> n \<and> list_all (retryable r) (butlast (calls evs))
     \<and> outcome_ok r n ctxErr res (calls evs) (waits evs) \<and> alternates evs
     \<and> length (waits evs) \<le> length (calls evs) \<and> length (calls evs) \<le> Suc (length (waits evs))
     \<and> (\<forall>k < length (waits evs). wait_from r rnd (i + int k) (calls evs ! k) (waits evs ! k))"

lemma stretch_step:
  assumes "retryable r e" "wait_from r rnd i e d"
    and "stretch_ok r rnd n (i + 1) c res evs" and "0 < n"
  shows "stretch_ok r rnd (Suc n) i c res (Called e # Waited d # evs)"
proof -
  have "wait_from r rnd (i + int k) ((e # calls evs) ! k) ((d # waits evs) ! k)"
    if "k < Suc (length (waits evs))" for k
    using assms(2,3) that
    by (cases k) (auto simp: stretch_ok_def algebra_simps)
  then show ?thesis using assms by (auto simp: stretch_ok_def outcome_ok_def)
qed

lemma loop_log:
  assumes "do_loop r (log_ctx ctx) (log_fn fn) (log_rnd rnd) maxR n i err (w, l) = (res, (w', l'))"
    and "int n = maxR - i" and "0 < n"
  shows "\<exists>evs. l' = l @ evs \<and> stretch_ok r rnd n i (ctx_Err ctx w') res evs"
  using assms
proof (induction n arbitrary: i err w l)
  case (Suc n)
  show ?case
  proof (cases "ctx_Err ctx w")
    case (Some c)
    then have "res = Some c" "ctx_Err ctx w' = Some c" "l' = l" using Suc.prems(1) by auto
    then show ?thesis by (intro exI [of _ "[]"]) (simp add: stretch_ok_def outcome_ok_def)
  next
    case None
    obtain e w1 where fn: "fn w = (e, w1)" by force
    show ?thesis
    proof (cases "e = None \<or> \<not> shouldRetry r e \<or> i = maxR - 1")
      case True
      then show ?thesis using Suc.prems None fn
        by (intro exI [of _ "[Called e]"])
          (auto simp: stretch_ok_def outcome_ok_def split: option.splits if_splits)
    next
      case False
      then obtain x where e: "e = Some x" by auto
      have retr: "retryable r e" using False by (simp add: retryable_def)
      have n: "0 < n" "int n = maxR - (i + 1)" using False Suc.prems(2) by auto
      obtain d w2 where d: "nextDelay r rnd i x w1 = (d, w2)" by force
      then have wait: "wait_from r rnd i e d" using e by (auto simp: wait_from_def)
      obtain s w3 where s: "sleep ctx d w2 = (s, w3)" by force
      show ?thesis
      proof (cases s)
        case None': (Some y)
        then have y: "ctx_Err ctx w3 = Some y"
          using s by (auto simp: sleep_def split: prod.splits bool.splits)
        have "res = Some y \<and> w' = w3 \<and> l' = l @ [Called e, Waited d]"
          using Suc.prems(1) None fn e d s False None' by (auto simp: nextDelay_log sleep_log)
        then show ?thesis using y retr wait n
          by (intro exI [of _ "[Called e, Waited d]"]) (simp add: stretch_ok_def outcome_ok_def)
      next
        case None'': None
        have "do_loop r (log_ctx ctx) (log_fn fn) (log_rnd rnd) maxR n (i + 1) (Some x)
            (w3, l @ [Called e, Waited d]) = (res, (w', l'))"
          using Suc.prems(1) None fn e d s False None'' by (simp add: nextDelay_log sleep_log)
        from Suc.IH [OF this n(2,1)] obtain evs where
          "l' = (l @ [Called e, Waited d]) @ evs"
          "stretch_ok r rnd n (i + 1) (ctx_Err ctx w') res evs" by blast
        with stretch_step [OF retr wait] n(1) show ?thesis
          by (intro exI [of _ "Called e # Waited d # evs"]) simp
      qed
    qed
  qed
qed simp

subsection \<open>Delay bounds\<close>

lemma go_div_10: "0 < h \<Longrightarrow> go_div h 10 = h div 10"
  by (simp add: go_div_def)

text \<open>\<open>rand.Int64N(n)\<close> returns a value in \<open>[0, n)\<close> for positive \<open>n\<close>.\<close>

definition rand_ok :: "'w gorand \<Rightarrow> bool" where
  "rand_ok rnd \<longleftrightarrow> (\<forall>n w. 0 < n \<longrightarrow> 0 \<le> fst (rnd n w) \<and> fst (rnd n w) < n)"

lemma jitter_bounds:
  "rand_ok rnd \<Longrightarrow> calculateJitter rnd d w = (j, w') \<Longrightarrow> 0 \<le> j \<and> (if 0 < d then j < d else j = 0)"
proof -
  assume r: "rand_ok rnd" and c: "calculateJitter rnd d w = (j, w')"
  show ?thesis
  proof (cases "0 < d")
    case True
    with c have "fst (rnd d w) = j" by (simp add: calculateJitter_def)
    with True r show ?thesis unfolding rand_ok_def by metis
  qed (use c in \<open>simp add: calculateJitter_def\<close>)
qed

text \<open>The interval a wait is drawn from: a floor by a hint, or the linear step.\<close>

definition delay_range :: "retry \<Rightarrow> int \<Rightarrow> goerror \<Rightarrow> int \<times> int" where
  "delay_range r i err =
     (let base = delayStep r * (i + 1)
      in case errors_As as_DelayHinter err of
           Some h \<Rightarrow> if 0 < h then (h, if jitter r then h + h div 10 else h)
                     else (if jitter r then 0 else base, base)
         | None \<Rightarrow> (if jitter r then 0 else base, base))"

lemma linear_bounds:
  assumes "rand_ok rnd" "0 \<le> i" "int64 (i + 1)" "0 \<le> delayStep r" "int64 (delayStep r * (i + 1))"
    and "linearDelay r rnd i w = (d, w')"
  shows "(if jitter r then 0 else delayStep r * (i + 1)) \<le> d \<and> d \<le> delayStep r * (i + 1)"
proof -
  have "wrap64 (delayStep r * wrap64 (i + 1)) = delayStep r * (i + 1)"
    using assms(3,5) by (simp add: wrap64_id)
  moreover have "0 \<le> delayStep r * (i + 1)" using assms by simp
  ultimately show ?thesis
    using assms(6) jitter_bounds [OF assms(1), of "delayStep r * (i + 1)" w]
    by (auto simp: linearDelay_def Let_def split: if_splits)
qed

text \<open>A positive hint is a floor, and a tenth of it bounds what the jitter adds.\<close>

lemma nextDelay_hint:
  assumes "rand_ok rnd" "errors_As as_DelayHinter err = Some h" "0 < h" "h + h div 10 \<le> MaxInt64"
    and "nextDelay r rnd i err w = (d, w')"
  shows "h \<le> d \<and> d \<le> (if jitter r then h + h div 10 else h)"
proof -
  have "wrap64 (h + j) = h + j" if "0 \<le> j" "j \<le> h div 10" for j
    using that assms(3,4) by (intro wrap64_id) (simp add: int64_def MinInt64_def)
  then show ?thesis
    using assms jitter_bounds [OF assms(1), of "h div 10" w]
    by (auto simp: nextDelay_def Let_def go_div_10 split: prod.splits if_splits)
qed

lemma nextDelay_bounds:
  assumes "rand_ok rnd" "0 \<le> i" "int64 (i + 1)" "0 \<le> delayStep r"
    and "int64 (delayStep r * (i + 1))"
    and "\<And>h. errors_As as_DelayHinter err = Some h \<Longrightarrow> h + h div 10 \<le> MaxInt64"
    and "nextDelay r rnd i err w = (d, w')"
  shows "fst (delay_range r i err) \<le> d \<and> d \<le> snd (delay_range r i err)"
proof (cases "\<exists>h. errors_As as_DelayHinter err = Some h \<and> 0 < h")
  case True
  then obtain h where h: "errors_As as_DelayHinter err = Some h" "0 < h" by blast
  from nextDelay_hint [OF assms(1) h assms(6) [OF h(1)] assms(7)] h show ?thesis
    by (simp add: delay_range_def)
next
  case False
  then have "nextDelay r rnd i err w = linearDelay r rnd i w"
    by (auto simp: nextDelay_def split: option.splits)
  with assms(7) have "linearDelay r rnd i w = (d, w')" by simp
  from linear_bounds [OF assms(1-5) this] False show ?thesis
    by (auto simp: delay_range_def Let_def split: option.splits)
qed

subsection \<open>Properties\<close>

text \<open>A server that asks to wait five seconds, then answers; the world counts the calls.\<close>

definition demo_fn :: "nat gofn" where
  "demo_fn n = (if n = 0 then Some (retry_After 5000000000) else None, Suc n)"

definition demo_ctx :: "nat goctx" where
  "demo_ctx = background (\<lambda>d w. w)"

definition demo_rnd :: "nat gorand" where
  "demo_rnd k w = (k - 1, w)"

definition demo_evs :: "retry_event list" where
  "demo_evs = [Called (Some (retry_After 5000000000)), Waited 5499999999, Called None]"

lemma demo_retried:
  "DoCtx (Some (retry_New [])) (Some (log_ctx demo_ctx)) (Some (log_fn demo_fn)) (log_rnd demo_rnd)
     (0, []) = (None, (2, demo_evs))"
  by (simp add: DoCtx_def validate_def retry_New_def DefaultMaxRetries_def DefaultDelayStep_def
      DefaultJitter_def Let_def demo_fn_def demo_ctx_def demo_rnd_def background_def demo_evs_def
      numeral_3_eq_3 shouldRetry_def nextDelay_log nextDelay_def retry_After_def go_div_def
      calculateJitter_def log_rnd_def log_ctx_def sleep_log sleep_def wrap64_def numeral_2_eq_2)

text \<open>
  C32: what \<open>DoCtx\<close> does. The function is called at most \<open>max(maxRetries, 1)\<close> times, and every
  call but the last failed with a retryable error. Calls and waits alternate: one wait between two calls,
  and none after the last call of a run that succeeds, uses up its attempts or stops at a non-retryable error,
  so the number of waits is one below the number of calls. Its result is nil after a successful last
  call, and else the last error. Otherwise the context ended the run, before its attempts were used up: then
  the result is the error of the context, every call failed with a retryable error and had its wait.
\<close>

theorem DoCtx_run:
  assumes "DoCtx (Some r) (Some (log_ctx ctx)) (Some (log_fn fn)) (log_rnd rnd) (w, [])
    = (res, (w', evs))"
  shows "int (length (calls evs)) \<le> max (maxRetries r) 1
    \<and> list_all (\<lambda>e. e \<noteq> None \<and> shouldRetry r e) (butlast (calls evs))
    \<and> alternates evs
    \<and> (res = None \<longrightarrow> calls evs \<noteq> [] \<and> last (calls evs) = None
         \<and> length (calls evs) = Suc (length (waits evs)))
    \<and> (res \<noteq> None \<longrightarrow>
         calls evs \<noteq> [] \<and> last (calls evs) = res
           \<and> (int (length (calls evs)) = max (maxRetries r) 1 \<or> \<not> shouldRetry r res)
           \<and> length (calls evs) = Suc (length (waits evs))
         \<or> res = ctx_Err ctx w' \<and> list_all (\<lambda>e. e \<noteq> None \<and> shouldRetry r e) (calls evs)
           \<and> length (calls evs) = length (waits evs)
           \<and> int (length (calls evs)) < max (maxRetries r) 1)"
proof -
  let ?m = "max (maxRetries r) 1"
  from assms have "do_loop r (log_ctx ctx) (log_fn fn) (log_rnd rnd) ?m (nat ?m) 0 None (w, [])
      = (res, (w', evs))"
    by (simp add: DoCtx_def validate_def Let_def)
  from loop_log [OF this] have st: "stretch_ok r rnd (nat ?m) 0 (ctx_Err ctx w') res evs" by auto
  have r: "retryable r = (\<lambda>e. e \<noteq> None \<and> shouldRetry r e)" by (simp add: retryable_def fun_eq_iff)
  have "0 \<le> ?m" by (rule order_trans [of 0 1]) (rule zero_le_one, rule max.cobounded2)
  then obtain n where n: "?m = int n" by (rule nonneg_int_cases)
  show ?thesis using st unfolding stretch_ok_def outcome_ok_def r n by (cases res) auto
qed

theorem DoCtx_run_witness:
  "DoCtx (Some (retry_New [])) (Some (log_ctx demo_ctx)) (Some (log_fn demo_fn)) (log_rnd demo_rnd)
     (0, []) = (None, (2, demo_evs))
   \<and> int (length (calls demo_evs)) \<le> 3 \<and> last (calls demo_evs) = None
   \<and> length (calls demo_evs) = Suc (length (waits demo_evs)) \<and> alternates demo_evs"
  using demo_retried DoCtx_run [OF demo_retried] by (simp add: retry_New_def DefaultMaxRetries_def)

text \<open>
  C34: how long \<open>DoCtx\<close> waits. With a step that is not negative, and as long as no product or hint leaves 64 bits, the wait after
  attempt \<open>k\<close> is \<open>delayStep * (k+1)\<close>, or with jitter between 0 and that; a positive hint of
  the error replaces it as a floor, with at most a tenth on top.
\<close>

theorem DoCtx_delays:
  assumes "DoCtx (Some r) (Some (log_ctx ctx)) (Some (log_fn fn)) (log_rnd rnd) (w, [])
      = (res, (w', evs))"
    and "rand_ok rnd" and "0 \<le> delayStep r" and "int64 (maxRetries r)"
    and "delayStep r * max (maxRetries r) 1 \<le> MaxInt64"
    and "\<And>x h. Some x \<in> set (calls evs) \<Longrightarrow> errors_As as_DelayHinter x = Some h \<Longrightarrow>
      h + h div 10 \<le> MaxInt64"
    and k: "k < length (waits evs)"
  shows "\<exists>x. calls evs ! k = Some x \<and> fst (delay_range r (int k) x) \<le> waits evs ! k
    \<and> waits evs ! k \<le> snd (delay_range r (int k) x)"
proof -
  let ?m = "max (maxRetries r) 1"
  from assms(1) have "do_loop r (log_ctx ctx) (log_fn fn) (log_rnd rnd) ?m (nat ?m) 0 None (w, [])
      = (res, (w', evs))"
    by (simp add: DoCtx_def validate_def Let_def)
  from loop_log [OF this] have st: "stretch_ok r rnd (nat ?m) 0 (ctx_Err ctx w') res evs" by auto
  then have "wait_from r rnd (int k) (calls evs ! k) (waits evs ! k)"
    and len: "length (waits evs) \<le> length (calls evs)" "length (calls evs) \<le> nat ?m"
    using k by (auto simp: stretch_ok_def)
  then obtain x v v' where x: "calls evs ! k = Some x"
    and d: "nextDelay r rnd (int k) x v = (waits evs ! k, v')"
    by (auto simp: wait_from_def)
  have mem: "Some x \<in> set (calls evs)" using x len k by (metis nth_mem order_less_le_trans)
  have "int k + 1 \<le> ?m" using len k by simp
  then have k1: "int64 (int k + 1)" and step: "delayStep r * (int k + 1) \<le> delayStep r * ?m"
    using assms(3,4) by (auto simp: int64_def MinInt64_def MaxInt64_def intro: mult_left_mono)
  moreover have "0 \<le> delayStep r * (int k + 1)" using assms(3) by simp
  ultimately have base: "int64 (delayStep r * (int k + 1))"
    using assms(5) by (simp add: int64_def MinInt64_def)
  from nextDelay_bounds [OF assms(2) _ k1 assms(3) base assms(6) [OF mem] d] x show ?thesis by simp
qed

theorem DoCtx_delays_witness:
  "rand_ok demo_rnd \<and> waits demo_evs = [5499999999]
    \<and> (\<exists>x. calls demo_evs ! 0 = Some x \<and> fst (delay_range (retry_New []) (int 0) x) \<le> waits demo_evs ! 0
         \<and> waits demo_evs ! 0 \<le> snd (delay_range (retry_New []) (int 0) x))"
proof -
  have rnd: "rand_ok demo_rnd" by (simp add: rand_ok_def demo_rnd_def)
  have hint: "h + h div 10 \<le> MaxInt64"
    if "Some x \<in> set (calls demo_evs)" "errors_As as_DelayHinter x = Some h" for x h
    using that by (auto simp: demo_evs_def retry_After_def MaxInt64_def)
  from DoCtx_delays [OF demo_retried rnd _ _ _ hint, where k = 0] rnd show ?thesis
    by (simp add: demo_evs_def retry_New_def DefaultMaxRetries_def DefaultDelayStep_def
        DefaultJitter_def int64_def MinInt64_def MaxInt64_def)
qed

text \<open>
  A hint near the top of the range overflows when the jitter is added: the wait is negative,
  so the timer fires at once and the floor the server asked for is gone.
\<close>

lemma hint_overflow:
  "fst (nextDelay (retry_New []) demo_rnd 0 (retry_After MaxInt64) 0) < 0"
  by (simp add: nextDelay_def retry_New_def DefaultMaxRetries_def DefaultDelayStep_def DefaultJitter_def
      Let_def retry_After_def MaxInt64_def calculateJitter_def demo_rnd_def go_div_def wrap64_def)

text \<open>Whatever the options, a retrier built by \<open>New\<close> makes at least one attempt.\<close>

lemma retry_New_min: "1 \<le> maxRetries (retry_New options)
    \<and> maxRetries (retry_New (options @ [Some (WithMaxRetries n)])) = max n 1
    \<and> retryIf (retry_New (options @ [Some (WithRetryIf None)])) = retryIf (retry_New options)"
  by (simp add: retry_New_def Let_def WithMaxRetries_def WithRetryIf_def)

end
