(* ===== verification/Http_Retry.thy ===== *)
theory Http_Retry
  imports Retry Go_Strings
begin

section \<open>The retrying HTTP transport\<close>

text \<open>
  Models \<open>httpclient/retry_transport.go\<close> and \<open>classify.go\<close> on top of the model of package
  \<open>retry\<close>. The base transport, the contexts, the clock, the budget and the hook are parameters over
  an external state; a response is named by the attempt that got it, and so is the context of an
  attempt. What happens to bodies and contexts is recorded in a trace.
\<close>

subsection \<open>Errors and classification\<close>

definition ErrNonReplayableBody :: goerror where
  "ErrNonReplayableBody =
     sentinel ''httpclient: retryable request has a body but no GetBody to rewind it''"

definition errAttemptTimeout :: goerror where
  "errAttemptTimeout = sentinel ''httpclient: per-attempt timeout''"

definition errBudgetExhausted :: goerror where
  "errBudgetExhausted = sentinel ''httpclient: retry budget exhausted''"

definition ECONNREFUSED :: goerror where
  "ECONNREFUSED = GoError (Errno 111 False) []"

definition ECONNRESET :: goerror where
  "ECONNRESET = GoError (Errno 104 False) []"

definition retryableStatuses :: "int set" where
  "retryableStatuses = {429, 500, 502, 503, 504}"

definition idempotentMethods :: "string set" where
  "idempotentMethods = {''GET'', ''HEAD'', ''OPTIONS'', ''PUT'', ''DELETE'', ''TRACE''}"

definition isCallerCtxErr :: "goerror \<Rightarrow> bool" where
  "isCallerCtxErr err \<longleftrightarrow> errors_Is err ctx_Canceled \<or> errors_Is err ctx_DeadlineExceeded"

fun as_StatusError :: "errkind \<Rightarrow> (int \<times> int) option" where
  "as_StatusError (StatusError s d) = Some (s, d)"
| "as_StatusError _ = None"

definition retryableStatusError :: "int \<Rightarrow> int \<Rightarrow> goerror" where
  "retryableStatusError status delay = GoError (StatusError status delay) []"

definition defaultRetryIf :: "goerror option \<Rightarrow> bool" where
  "defaultRetryIf e =
     (case e of
        None \<Rightarrow> False
      | Some err \<Rightarrow>
          if isCallerCtxErr err then False
          else if errors_Is err errAttemptTimeout then True
          else if errors_As as_StatusError err \<noteq> None then True
          else if errors_As as_NetError err = Some True then True
          else errors_Is err ECONNREFUSED \<or> errors_Is err ECONNRESET)"

subsection \<open>State\<close>

record response =
  r_attempt :: int
  StatusCode :: int
  RetryAfter :: string

record attempt_info =
  ai_method :: string
  ai_host :: string
  ai_attempt :: int
  ai_status :: int
  ai_err :: "goerror option"
  ai_elapsed :: int
  ai_retrying :: bool
  ai_reused :: bool

text \<open>
  What is recorded: an attempt context was made with or without a timeout, the body was rewound, a
  request was sent, a response came, a body was drained and closed, was given a closing that also
  cancels, a context was cancelled, and the budget was asked and told.
\<close>

datatype hevent =
    Ctx int "int option" | Rewound int | Sent int | Got int | Drained int | Closed int
  | Wrapped int | Cancelled int | Allowed bool | Recorded bool

record request =
  Method :: string
  Host :: string
  has_Body :: bool
  has_GetBody :: bool

text \<open>
  The environment of one \<open>RoundTrip\<close>: the base transport for an attempt, the caller's context
  (its error and the time left to its deadline), whether the context of an attempt with the given
  timeout has run out, rewinding the body, the budget, the hook, a stopwatch, whether the
  connection was reused, draining a body, and the time until an HTTP date.
\<close>

record 'e httpenv =
  base_RoundTrip :: "int \<Rightarrow> 'e \<Rightarrow> (goerror + int \<times> string) \<times> 'e"
  parent_Err :: "'e \<Rightarrow> goerror option"
  time_left :: "'e \<Rightarrow> int option"
  ran_out :: "int option \<Rightarrow> int \<Rightarrow> 'e \<Rightarrow> bool"
  GetBody :: "'e \<Rightarrow> goerror option \<times> 'e"
  budget_Allow :: "'e \<Rightarrow> bool \<times> 'e"
  budget_Record :: "bool \<Rightarrow> 'e \<Rightarrow> 'e"
  onAttempt :: "(attempt_info \<Rightarrow> 'e \<Rightarrow> 'e) option"
  elapsed :: "'e \<Rightarrow> 'e \<Rightarrow> int"
  reused :: "'e \<Rightarrow> bool"
  drain :: "int \<Rightarrow> 'e \<Rightarrow> 'e"
  date_until :: "string \<Rightarrow> 'e \<Rightarrow> int option"

record retry_transport =
  rt_retrier :: "retry option"
  perAttempt :: int
  nonIdem :: bool
  maxRetryAfter :: int

text \<open>The fields of \<open>attemptLoop\<close> beside the external state and the trace.\<close>

record 'e aloop =
  ext :: 'e
  trace :: "hevent list"
  l_attempt :: int
  l_resp :: "response option"
  l_prev :: "(response \<times> int) option"

definition note_ev :: "hevent \<Rightarrow> 'e aloop \<Rightarrow> 'e aloop" where
  "note_ev ev l = l\<lparr>trace := trace l @ [ev]\<rparr>"

subsection \<open>Retry-After\<close>

definition Second :: int where
  "Second = 1000000000"

definition parseRetryAfter :: "retry_transport \<Rightarrow> (string \<Rightarrow> int option) \<Rightarrow> response \<Rightarrow> int" where
  "parseRetryAfter rt until r =
     (if StatusCode r \<noteq> 429 \<and> StatusCode r \<noteq> 503 then 0
      else
        (let v = RetryAfter r;
             date = (case until v of Some d \<Rightarrow> if 0 < d then d else 0 | None \<Rightarrow> 0)
         in case Atoi v of
              Some secs \<Rightarrow>
                if 0 < secs
                then (if wrap64 (go_div (maxRetryAfter rt) Second + 1) < secs
                      then wrap64 (maxRetryAfter rt + Second)
                      else wrap64 (secs * Second))
                else date
            | None \<Rightarrow> date))"

definition retryAfterDelay :: "retry_transport \<Rightarrow> (string \<Rightarrow> int option) \<Rightarrow> response \<Rightarrow> int \<times> bool" where
  "retryAfterDelay rt until r =
     (let delay = parseRetryAfter rt until r in if maxRetryAfter rt < delay then (0, False) else (delay, True))"

subsection \<open>One attempt\<close>

definition drainClose :: "'e httpenv \<Rightarrow> response \<Rightarrow> int \<Rightarrow> 'e aloop \<Rightarrow> 'e aloop" where
  "drainClose env r cancel l =
     (let l = l\<lparr>ext := drain env (r_attempt r) (ext l)\<rparr>
      in note_ev (Cancelled cancel) (note_ev (Closed (r_attempt r)) (note_ev (Drained (r_attempt r)) l)))"

definition drainPrev :: "'e httpenv \<Rightarrow> 'e aloop \<Rightarrow> 'e aloop" where
  "drainPrev env l =
     (case l_prev l of
        None \<Rightarrow> l
      | Some (r, cancel) \<Rightarrow> (drainClose env r cancel l)\<lparr>l_prev := None\<rparr>)"

definition emit :: "'e httpenv \<Rightarrow> request \<Rightarrow> int \<Rightarrow> int \<Rightarrow> goerror option \<Rightarrow> int \<Rightarrow> bool \<Rightarrow> bool
    \<Rightarrow> 'e aloop \<Rightarrow> 'e aloop" where
  "emit env req attempt status err el retrying reu l =
     (case onAttempt env of
        None \<Rightarrow> l
      | Some hook \<Rightarrow>
          l\<lparr>ext := hook \<lparr>ai_method = Method req, ai_host = Host req, ai_attempt = attempt, ai_status = status,
              ai_err = err, ai_elapsed = el, ai_retrying = retrying, ai_reused = reu\<rparr> (ext l)\<rparr>)"

text \<open>The timeout of the attempt context; the deadline of the caller counts when it is sooner.\<close>

definition attemptContext :: "retry_transport \<Rightarrow> 'e httpenv \<Rightarrow> 'e \<Rightarrow> int option" where
  "attemptContext rt env e =
     (if perAttempt rt \<le> 0 then None
      else Some (case time_left env e of
                   Some remaining \<Rightarrow> if remaining < perAttempt rt then remaining else perAttempt rt
                 | None \<Rightarrow> perAttempt rt))"

text \<open>
  \<open>Err\<close> of an attempt context: that of the caller's context, which it is derived from, the
  deadline when it has run out, and \<open>Canceled\<close> once its cancel function was called.
\<close>

definition attempt_Err :: "'e httpenv \<Rightarrow> int option \<Rightarrow> int \<Rightarrow> 'e aloop \<Rightarrow> goerror option" where
  "attempt_Err env tmo k l =
     (case parent_Err env (ext l) of
        Some e \<Rightarrow> Some e
      | None \<Rightarrow>
          if ran_out env tmo k (ext l) then Some ctx_DeadlineExceeded
          else if Cancelled k \<in> set (trace l) then Some ctx_Canceled
          else None)"

definition normalizeErr :: "'e httpenv \<Rightarrow> int option \<Rightarrow> int \<Rightarrow> goerror \<Rightarrow> 'e aloop \<Rightarrow> goerror" where
  "normalizeErr env tmo k rerr l =
     (case parent_Err env (ext l) of
        Some e \<Rightarrow> e
      | None \<Rightarrow> if attempt_Err env tmo k l \<noteq> None then errAttemptTimeout else rerr)"

definition wrapBodyCancel :: "response \<Rightarrow> int \<Rightarrow> 'e aloop \<Rightarrow> 'e aloop" where
  "wrapBodyCancel r cancel l = note_ev (Wrapped (r_attempt r)) l"

text \<open>What the caller does in the end: \<open>Close\<close> of the wrapped body also cancels.\<close>

definition cancelOnClose_Close :: "response \<Rightarrow> int \<Rightarrow> 'e aloop \<Rightarrow> 'e aloop" where
  "cancelOnClose_Close r cancel l = note_ev (Cancelled cancel) (note_ev (Closed (r_attempt r)) l)"

definition classify :: "retry_transport \<Rightarrow> 'e httpenv \<Rightarrow> request \<Rightarrow> bool \<Rightarrow> response \<Rightarrow> int \<Rightarrow> int \<Rightarrow> bool \<Rightarrow> 'e aloop
    \<Rightarrow> goerror option \<times> 'e aloop" where
  "classify rt env req can_retry r cancel el reu l =
     (let terminal =
            (let l = (wrapBodyCancel r cancel l)\<lparr>l_resp := Some r\<rparr>
             in (None, emit env req (l_attempt l) (StatusCode r) None el False reu l))
      in if can_retry \<and> StatusCode r \<in> retryableStatuses
         then
           (case retryAfterDelay rt (\<lambda>v. date_until env v (ext l)) r of
              (delay, withinCap) \<Rightarrow>
                if withinCap
                then (Some (retryableStatusError (StatusCode r) delay),
                      emit env req (l_attempt l) (StatusCode r) None el True reu (l\<lparr>l_prev := Some (r, cancel)\<rparr>))
                else terminal)
         else terminal)"

text \<open>Sending, once the body is in place.\<close>

definition transmit :: "retry_transport \<Rightarrow> 'e httpenv \<Rightarrow> request \<Rightarrow> bool \<Rightarrow> int option \<Rightarrow> 'e aloop
    \<Rightarrow> goerror option \<times> 'e aloop" where
  "transmit rt env req can_retry tmo l =
     (let k = l_attempt l; start = ext l in
      case base_RoundTrip env k (ext l) of
        (Inr (status, header), e) \<Rightarrow>
          classify rt env req can_retry \<lparr>r_attempt = k, StatusCode = status, RetryAfter = header\<rparr> k
            (elapsed env start e) (reused env e) (note_ev (Got k) (note_ev (Sent k) (l\<lparr>ext := e\<rparr>)))
      | (Inl rerr, e) \<Rightarrow>
          (let l = note_ev (Cancelled k) (note_ev (Sent k) (l\<lparr>ext := e\<rparr>));
               normErr = normalizeErr env tmo k rerr l;
               retrying = (can_retry \<and> \<not> isCallerCtxErr normErr)
           in (Some normErr, emit env req k 0 (Some normErr) (elapsed env start e) retrying (reused env e) l)))"

definition send :: "retry_transport \<Rightarrow> 'e httpenv \<Rightarrow> request \<Rightarrow> bool \<Rightarrow> 'e aloop \<Rightarrow> goerror option \<times> 'e aloop" where
  "send rt env req can_retry l =
     (let k = l_attempt l;
          tmo = attemptContext rt env (ext l);
          l = note_ev (Ctx k tmo) l
      in if 1 < k \<and> has_GetBody req
         then
           (case GetBody env (ext l) of
              (Some err, e) \<Rightarrow> (Some err, note_ev (Cancelled k) (l\<lparr>ext := e\<rparr>))
            | (None, e) \<Rightarrow> transmit rt env req can_retry tmo (note_ev (Rewound k) (l\<lparr>ext := e\<rparr>)))
         else transmit rt env req can_retry tmo l)"

definition once :: "retry_transport \<Rightarrow> 'e httpenv \<Rightarrow> request \<Rightarrow> bool \<Rightarrow> 'e aloop \<Rightarrow> goerror option \<times> 'e aloop" where
  "once rt env req can_retry l =
     (let l = l\<lparr>l_attempt := l_attempt l + 1\<rparr>;
          l = drainPrev env l
      in if 1 < l_attempt l
         then
           (case budget_Allow env (ext l) of
              (allow, e) \<Rightarrow>
                (let l = note_ev (Allowed allow) (l\<lparr>ext := e\<rparr>);
                     l = note_ev (Recorded allow) (l\<lparr>ext := budget_Record env allow (ext l)\<rparr>)
                 in if allow then send rt env req can_retry l else (Some errBudgetExhausted, l)))
         else send rt env req can_retry l)"

subsection \<open>A round trip\<close>

definition result :: "'e httpenv \<Rightarrow> goerror option \<times> 'e aloop \<Rightarrow> (response option \<times> goerror option) \<times> 'e aloop" where
  "result env res =
     (let (err, l) = res in
      case l_resp l of
        Some r \<Rightarrow> ((Some r, None), l)
      | None \<Rightarrow>
          (case l_prev l of
             Some (r, cancel) \<Rightarrow>
               if err \<noteq> None \<and> errors_As as_StatusError (the err) \<noteq> None
               then ((Some r, None), wrapBodyCancel r cancel l)
               else ((None, err), drainClose env r cancel l)
           | None \<Rightarrow> ((None, err), l)))"

text \<open>The caller's context and the random source act on the external state alone.\<close>

definition lift_ctx :: "'e httpenv \<Rightarrow> (int \<Rightarrow> 'e \<Rightarrow> bool \<times> 'e) \<Rightarrow> 'e aloop goctx" where
  "lift_ctx env timer = \<lparr>ctx_Err = (\<lambda>l. parent_Err env (ext l)),
     timer_first = (\<lambda>d l. case timer d (ext l) of (b, e) \<Rightarrow> (b, l\<lparr>ext := e\<rparr>))\<rparr>"

definition lift_rnd :: "'e gorand \<Rightarrow> 'e aloop gorand" where
  "lift_rnd rnd = (\<lambda>k l. case rnd k (ext l) of (j, e) \<Rightarrow> (j, l\<lparr>ext := e\<rparr>))"

definition can_retry :: "retry_transport \<Rightarrow> request \<Rightarrow> bool" where
  "can_retry rt req \<longleftrightarrow> nonIdem rt \<or> Method req \<in> idempotentMethods"

definition new_loop :: "'e \<Rightarrow> 'e aloop" where
  "new_loop e = \<lparr>ext = e, trace = [], l_attempt = 0, l_resp = None, l_prev = None\<rparr>"

definition RoundTrip :: "retry_transport \<Rightarrow> 'e httpenv \<Rightarrow> (int \<Rightarrow> 'e \<Rightarrow> bool \<times> 'e) \<Rightarrow> 'e gorand \<Rightarrow> request \<Rightarrow> 'e
    \<Rightarrow> (response option \<times> goerror option) \<times> 'e aloop" where
  "RoundTrip rt env timer rnd req e =
     (let retryable = can_retry rt req; l = new_loop e in
      if retryable \<and> has_Body req \<and> \<not> has_GetBody req then ((None, Some ErrNonReplayableBody), l)
      else if \<not> retryable then result env (once rt env req retryable l)
      else result env (DoCtx (rt_retrier rt) (Some (lift_ctx env timer)) (Some (once rt env req retryable))
             (lift_rnd rnd) l))"

subsection \<open>The life of an attempt\<close>

text \<open>
  The trace, seen from one attempt and from the budget. What one attempt leaves is one of a few
  words: its context is opened, the body rewound when the attempt is a retry, the request sent;
  then it failed and its context was cancelled, or its response is held, was drained, or is live.
\<close>

fun ev_attempt :: "hevent \<Rightarrow> int option" where
  "ev_attempt (Ctx k t) = Some k"
| "ev_attempt (Rewound k) = Some k"
| "ev_attempt (Sent k) = Some k"
| "ev_attempt (Got k) = Some k"
| "ev_attempt (Drained k) = Some k"
| "ev_attempt (Closed k) = Some k"
| "ev_attempt (Wrapped k) = Some k"
| "ev_attempt (Cancelled k) = Some k"
| "ev_attempt (Allowed b) = None"
| "ev_attempt (Recorded b) = None"

definition of_attempt :: "int \<Rightarrow> 'e aloop \<Rightarrow> hevent list" where
  "of_attempt k l = filter (\<lambda>ev. ev_attempt ev = Some k) (trace l)"

definition budget_events :: "'e aloop \<Rightarrow> hevent list" where
  "budget_events l = filter (\<lambda>ev. ev_attempt ev = None) (trace l)"

text \<open>The budget is asked and told the answer, once per retry.\<close>

definition asked :: "bool list \<Rightarrow> hevent list" where
  "asked bs = concat (map (\<lambda>b. [Allowed b, Recorded b]) bs)"

definition opened :: "request \<Rightarrow> int \<Rightarrow> int option \<Rightarrow> hevent list" where
  "opened req k t = Ctx k t # (if 1 < k \<and> has_GetBody req then [Rewound k] else [])"

definition failed_life :: "request \<Rightarrow> int \<Rightarrow> hevent list \<Rightarrow> bool" where
  "failed_life req k evs \<longleftrightarrow>
     (\<exists>t. evs = opened req k t @ [Sent k, Cancelled k]
        \<or> 1 < k \<and> has_GetBody req \<and> evs = [Ctx k t, Cancelled k])"

definition held_life :: "request \<Rightarrow> int \<Rightarrow> hevent list \<Rightarrow> bool" where
  "held_life req k evs \<longleftrightarrow> (\<exists>t. evs = opened req k t @ [Sent k, Got k])"

definition live_life :: "request \<Rightarrow> int \<Rightarrow> hevent list \<Rightarrow> bool" where
  "live_life req k evs \<longleftrightarrow> (\<exists>t. evs = opened req k t @ [Sent k, Got k, Wrapped k])"

definition drained_life :: "request \<Rightarrow> int \<Rightarrow> hevent list \<Rightarrow> bool" where
  "drained_life req k evs \<longleftrightarrow>
     (\<exists>t. evs = opened req k t @ [Sent k, Got k, Drained k, Closed k, Cancelled k])"

definition settled :: "request \<Rightarrow> int \<Rightarrow> hevent list \<Rightarrow> bool" where
  "settled req k evs \<longleftrightarrow> evs = [] \<or> failed_life req k evs \<or> drained_life req k evs"

lemma of_attempt_simps [simp]:
  "of_attempt k (note_ev ev l) = of_attempt k l @ (if ev_attempt ev = Some k then [ev] else [])"
  "of_attempt k (l\<lparr>ext := e\<rparr>) = of_attempt k l"
  "of_attempt k (l\<lparr>l_attempt := n\<rparr>) = of_attempt k l"
  "of_attempt k (l\<lparr>l_resp := r\<rparr>) = of_attempt k l"
  "of_attempt k (l\<lparr>l_prev := pr\<rparr>) = of_attempt k l"
  by (simp_all add: of_attempt_def note_ev_def)

lemma budget_events_simps [simp]:
  "budget_events (note_ev ev l) = budget_events l @ (if ev_attempt ev = None then [ev] else [])"
  "budget_events (l\<lparr>ext := e\<rparr>) = budget_events l"
  "budget_events (l\<lparr>l_attempt := n\<rparr>) = budget_events l"
  "budget_events (l\<lparr>l_resp := r\<rparr>) = budget_events l"
  "budget_events (l\<lparr>l_prev := pr\<rparr>) = budget_events l"
  by (simp_all add: budget_events_def note_ev_def)

lemma note_ev_fields [simp]:
  "ext (note_ev ev l) = ext l" "l_attempt (note_ev ev l) = l_attempt l"
  "l_resp (note_ev ev l) = l_resp l" "l_prev (note_ev ev l) = l_prev l"
  by (simp_all add: note_ev_def)

lemma emit_fields [simp]:
  "trace (emit env req k st er el rt ru l) = trace l" "l_attempt (emit env req k st er el rt ru l) = l_attempt l"
  "l_resp (emit env req k st er el rt ru l) = l_resp l" "l_prev (emit env req k st er el rt ru l) = l_prev l"
  "of_attempt j (emit env req k st er el rt ru l) = of_attempt j l"
  "budget_events (emit env req k st er el rt ru l) = budget_events l"
  by (simp_all add: emit_def of_attempt_def budget_events_def split: option.splits)

lemma drainClose_fields [simp]:
  "l_attempt (drainClose env r c l) = l_attempt l" "l_resp (drainClose env r c l) = l_resp l"
  "l_prev (drainClose env r c l) = l_prev l" "budget_events (drainClose env r c l) = budget_events l"
  "of_attempt k (drainClose env r c l) = of_attempt k l
     @ (if k = r_attempt r then [Drained k, Closed k] else []) @ (if k = c then [Cancelled k] else [])"
  by (simp_all add: drainClose_def Let_def)

subsection \<open>One attempt, from the open context on\<close>

text \<open>Attempt \<open>k\<close> touches nothing of the others, nor the budget.\<close>

definition only_attempt :: "int \<Rightarrow> 'e aloop \<Rightarrow> 'e aloop \<Rightarrow> bool" where
  "only_attempt k l l' \<longleftrightarrow> l_attempt l' = l_attempt l \<and> budget_events l' = budget_events l
     \<and> (\<forall>j. j \<noteq> k \<longrightarrow> of_attempt j l' = of_attempt j l)"

definition attempt_ok :: "request \<Rightarrow> int \<Rightarrow> goerror option \<Rightarrow> 'e aloop \<Rightarrow> bool" where
  "attempt_ok req k res l \<longleftrightarrow>
     (case res of
        None \<Rightarrow> (\<exists>r. l_resp l = Some r \<and> r_attempt r = k \<and> l_prev l = None \<and> live_life req k (of_attempt k l))
      | Some e \<Rightarrow> l_resp l = None
          \<and> (case l_prev l of
                None \<Rightarrow> failed_life req k (of_attempt k l)
              | Some (r, c) \<Rightarrow> c = k \<and> r_attempt r = k \<and> held_life req k (of_attempt k l)))"

lemma classify_ok:
  assumes "classify rt env req cr r k el reu l = (res, l')" and "r_attempt r = k"
    and "l_prev l = None" "l_resp l = None" "held_life req k (of_attempt k l)"
  shows "attempt_ok req k res l' \<and> only_attempt k l l'"
  using assms
  by (auto simp: classify_def Let_def wrapBodyCancel_def attempt_ok_def only_attempt_def held_life_def
      live_life_def split: if_splits prod.splits)

lemma transmit_ok:
  assumes "transmit rt env req cr tmo l = (res, l')" and "l_attempt l = k"
    and "l_prev l = None" "l_resp l = None" "of_attempt k l = opened req k t"
  shows "attempt_ok req k res l' \<and> only_attempt k l l'"
proof (cases "base_RoundTrip env k (ext l)")
  case (Pair a e)
  show ?thesis
  proof (cases a)
    case (Inl rerr)
    then show ?thesis using assms Pair
      by (auto simp: transmit_def Let_def attempt_ok_def only_attempt_def failed_life_def)
  next
    case (Inr p)
    obtain st h where p: "p = (st, h)" by force
    let ?l = "note_ev (Got k) (note_ev (Sent k) (l\<lparr>ext := e\<rparr>))"
    have "classify rt env req cr \<lparr>r_attempt = k, StatusCode = st, RetryAfter = h\<rparr> k
        (elapsed env (ext l) e) (reused env e) ?l = (res, l')"
      using assms(1,2) Pair Inr p by (simp add: transmit_def Let_def)
    from classify_ok [OF this] assms(3-5) show ?thesis
      by (auto simp: held_life_def only_attempt_def)
  qed
qed

lemma send_ok:
  assumes "send rt env req cr l = (res, l')" and "l_attempt l = k"
    and "l_prev l = None" "l_resp l = None" "of_attempt k l = []"
  shows "attempt_ok req k res l' \<and> only_attempt k l l'"
proof -
  define t where "t = attemptContext rt env (ext l)"
  let ?l = "note_ev (Ctx k t) l"
  have pre: "l_attempt ?l = k" "l_prev ?l = None" "l_resp ?l = None" "of_attempt k ?l = [Ctx k t]"
    and frame: "only_attempt k l ?l"
    using assms by (simp_all add: only_attempt_def)
  show ?thesis
  proof (cases "1 < k \<and> has_GetBody req")
    case True
    show ?thesis
    proof (cases "GetBody env (ext l)")
      case (Pair a e)
      show ?thesis
      proof (cases a)
        case None
        let ?m = "note_ev (Rewound k) (?l\<lparr>ext := e\<rparr>)"
        have "transmit rt env req cr t ?m = (res, l')"
          using assms(1,2) True Pair None by (simp add: send_def t_def Let_def)
        from transmit_ok [OF this, of k t] pre True frame show ?thesis
          by (simp add: opened_def only_attempt_def)
      next
        case (Some err)
        then show ?thesis using assms True Pair pre
          by (auto simp: send_def t_def Let_def attempt_ok_def only_attempt_def failed_life_def)
      qed
    qed
  next
    case False
    then have "transmit rt env req cr t ?l = (res, l')"
      using assms(1,2) by (auto simp: send_def t_def Let_def)
    from transmit_ok [OF this, of k t] pre False frame show ?thesis
      by (auto simp: opened_def only_attempt_def)
  qed
qed

subsection \<open>Between attempts\<close>

text \<open>
  What holds between two attempts (\<open>idle\<close>) and after the terminal one (\<open>finished\<close>): all earlier
  attempts are settled, the last one is settled, held, or live, attempts are numbered from 1, and the
  budget was asked before each attempt but the first; a denied attempt does nothing.
\<close>

definition budget_ok :: "'e aloop \<Rightarrow> bool list \<Rightarrow> bool" where
  "budget_ok l bs \<longleftrightarrow> budget_events l = asked bs \<and> length bs = nat (l_attempt l - 1)
     \<and> (\<forall>k. 1 < k \<and> k \<le> l_attempt l \<and> \<not> bs ! nat (k - 2) \<longrightarrow> of_attempt k l = [])"

definition numbered :: "'e aloop \<Rightarrow> bool" where
  "numbered l \<longleftrightarrow> 0 \<le> l_attempt l \<and> (\<forall>k. k < 1 \<or> l_attempt l < k \<longrightarrow> of_attempt k l = [])
     \<and> (\<exists>bs. budget_ok l bs)"

definition others_settled :: "request \<Rightarrow> 'e aloop \<Rightarrow> bool" where
  "others_settled req l \<longleftrightarrow> (\<forall>k. k \<noteq> l_attempt l \<longrightarrow> settled req k (of_attempt k l))"

definition idle_last :: "request \<Rightarrow> 'e aloop \<Rightarrow> bool" where
  "idle_last req l \<longleftrightarrow> l_resp l = None
     \<and> (case l_prev l of
           None \<Rightarrow> settled req (l_attempt l) (of_attempt (l_attempt l) l)
         | Some (r, c) \<Rightarrow> c = l_attempt l \<and> r_attempt r = l_attempt l
             \<and> held_life req (l_attempt l) (of_attempt (l_attempt l) l))"

definition idle :: "request \<Rightarrow> 'e aloop \<Rightarrow> bool" where
  "idle req l \<longleftrightarrow> numbered l \<and> others_settled req l \<and> idle_last req l"

definition finished :: "request \<Rightarrow> 'e aloop \<Rightarrow> bool" where
  "finished req l \<longleftrightarrow> numbered l \<and> others_settled req l
     \<and> (\<exists>r. l_resp l = Some r \<and> r_attempt r = l_attempt l \<and> l_prev l = None
          \<and> live_life req (l_attempt l) (of_attempt (l_attempt l) l))"

lemma settled_Nil [simp]: "settled req k []"
  by (simp add: settled_def)

lemma held_not_Nil: "\<not> held_life req k []"
  by (simp add: held_life_def opened_def)

lemma held_drained: "held_life req k evs \<Longrightarrow> settled req k (evs @ [Drained k, Closed k, Cancelled k])"
  by (auto simp: held_life_def settled_def drained_life_def)

lemma asked_snoc [simp]: "asked (bs @ [b]) = asked bs @ [Allowed b, Recorded b]"
  by (simp add: asked_def)

lemma asked_Nil [simp]: "asked [] = []"
  by (simp add: asked_def)

text \<open>The start of attempt \<open>k\<close>: nothing is held, everything is settled.\<close>

definition cleared :: "request \<Rightarrow> int \<Rightarrow> 'e aloop \<Rightarrow> bool" where
  "cleared req k l \<longleftrightarrow> l_attempt l = k \<and> l_prev l = None \<and> l_resp l = None
     \<and> (\<forall>j. settled req j (of_attempt j l)) \<and> (\<forall>j. j < 1 \<or> k \<le> j \<longrightarrow> of_attempt j l = [])"

definition next_attempt :: "'e httpenv \<Rightarrow> 'e aloop \<Rightarrow> 'e aloop" where
  "next_attempt env l = drainPrev env (l\<lparr>l_attempt := l_attempt l + 1\<rparr>)"

lemma next_attempt_cleared:
  assumes "idle req l"
  shows "cleared req (l_attempt l + 1) (next_attempt env l)"
proof (cases "l_prev l")
  case None
  with assms have "settled req j (of_attempt j l)" for j
    by (cases "j = l_attempt l") (auto simp: idle_def others_settled_def idle_last_def)
  with None assms show ?thesis
    by (simp add: cleared_def next_attempt_def drainPrev_def idle_def numbered_def idle_last_def)
next
  case (Some p)
  obtain r c where p: "p = (r, c)" by force
  have h: "c = l_attempt l" "r_attempt r = l_attempt l" "held_life req (l_attempt l) (of_attempt (l_attempt l) l)"
    using assms Some p by (auto simp: idle_def idle_last_def)
  have pos: "1 \<le> l_attempt l"
  proof (rule ccontr)
    assume "\<not> 1 \<le> l_attempt l"
    then have "of_attempt (l_attempt l) l = []" using assms by (simp add: idle_def numbered_def)
    with h(3) show False by (simp add: held_not_Nil)
  qed
  have "of_attempt j (next_attempt env l)
      = of_attempt j l @ (if j = l_attempt l then [Drained j, Closed j, Cancelled j] else [])" for j
    using Some p h by (simp add: next_attempt_def drainPrev_def)
  with assms h pos show ?thesis
    by (auto simp: cleared_def idle_def numbered_def others_settled_def idle_last_def held_drained
        next_attempt_def drainPrev_def Some p)
qed

lemma next_attempt_budget:
  assumes "idle req l" "budget_ok l bs"
  shows "budget_events (next_attempt env l) = asked bs"
    and "1 < k \<Longrightarrow> k \<le> l_attempt l \<Longrightarrow> \<not> bs ! nat (k - 2) \<Longrightarrow> of_attempt k (next_attempt env l) = []"
proof -
  show "budget_events (next_attempt env l) = asked bs"
    using assms(2) by (auto simp: budget_ok_def next_attempt_def drainPrev_def split: option.splits)
  assume k: "1 < k" "k \<le> l_attempt l" "\<not> bs ! nat (k - 2)"
  then have nil: "of_attempt k l = []" using assms(2) by (auto simp: budget_ok_def)
  then have "k \<noteq> l_attempt l \<or> l_prev l = None"
    using assms(1) held_not_Nil by (force simp: idle_def idle_last_def)
  then show "of_attempt k (next_attempt env l) = []"
    using nil assms(1)
    by (auto simp: next_attempt_def drainPrev_def idle_def idle_last_def split: option.splits)
qed

lemma send_finish:
  assumes "send rt env req cr l = (res, l')" and "cleared req k l" and "1 \<le> k"
    and "budget_ok l bs" and "1 < k \<longrightarrow> bs ! nat (k - 2)"
  shows "if res = None then finished req l' else idle req l'"
proof -
  have at: "attempt_ok req k res l'" and only: "only_attempt k l l'"
    using send_ok [OF assms(1)] assms(2,3) by (auto simp: cleared_def)
  have k: "l_attempt l' = k" using only assms(2) by (simp add: only_attempt_def cleared_def)
  have eq: "of_attempt j l' = of_attempt j l" if "j \<noteq> k" for j
    using only that by (simp add: only_attempt_def)
  have "of_attempt j l' = []" if "1 < j" "j \<le> k" "\<not> bs ! nat (j - 2)" for j
    using eq [of j] that assms(2,4,5) by (cases "j = k") (auto simp: budget_ok_def cleared_def)
  then have "budget_ok l' bs"
    using assms(2,4) only by (auto simp: budget_ok_def only_attempt_def cleared_def)
  moreover have "of_attempt j l' = []" if "j < 1 \<or> k < j" for j
    using eq [of j] that assms(2,3) by (auto simp: cleared_def)
  ultimately have n: "numbered l'" using k assms(3) by (auto simp: numbered_def)
  have o: "others_settled req l'" using eq k assms(2) by (simp add: others_settled_def cleared_def)
  show ?thesis
  proof (cases res)
    case None
    with at n o k show ?thesis by (auto simp: finished_def attempt_ok_def)
  next
    case (Some e)
    with at k have "idle_last req l'"
      by (auto simp: idle_last_def attempt_ok_def settled_def split: option.splits)
    with n o Some show ?thesis by (simp add: idle_def)
  qed
qed

lemma once_next:
  "once rt env req cr l =
     (let l = next_attempt env l in
      if 1 < l_attempt l
      then (case budget_Allow env (ext l) of
              (allow, e) \<Rightarrow>
                (let l = note_ev (Allowed allow) (l\<lparr>ext := e\<rparr>);
                     l = note_ev (Recorded allow) (l\<lparr>ext := budget_Record env allow (ext l)\<rparr>)
                 in if allow then send rt env req cr l else (Some errBudgetExhausted, l)))
      else send rt env req cr l)"
  by (simp add: once_def next_attempt_def Let_def)

lemma once_ok:
  assumes "once rt env req cr l = (res, l')" and "idle req l"
  shows "if res = None then finished req l' else idle req l'"
proof -
  define k where "k = l_attempt l + 1"
  define m where "m = next_attempt env l"
  obtain bs where bs: "budget_ok l bs" and k1: "1 \<le> k"
    using assms(2) by (auto simp: idle_def numbered_def k_def)
  note cl = next_attempt_cleared [OF assms(2), where env = env, folded m_def k_def]
  note bu = next_attempt_budget [OF assms(2) bs, where env = env, folded m_def]
  have km: "l_attempt m = k" using cl by (simp add: cleared_def)
  show ?thesis
  proof (cases "1 < k")
    case False
    then have "send rt env req cr m = (res, l')"
      using assms(1) km by (simp add: once_next m_def Let_def)
    moreover have "budget_ok m bs"
      using bs bu False k1 km by (auto simp: budget_ok_def k_def)
    ultimately show ?thesis using send_finish [OF _ cl k1] False by blast
  next
    case True
    obtain a e where al: "budget_Allow env (ext m) = (a, e)" by force
    define m1 where "m1 = note_ev (Allowed a) (m\<lparr>ext := e\<rparr>)"
    define m2 where "m2 = note_ev (Recorded a) (m1\<lparr>ext := budget_Record env a (ext m1)\<rparr>)"
    have cl2: "cleared req k m2"
      using cl by (simp add: m1_def m2_def cleared_def)
    have len: "length bs = nat (k - 2)" using bs by (simp add: budget_ok_def k_def)
    have b2: "budget_ok m2 (bs @ [a])"
      unfolding budget_ok_def
    proof (intro conjI allI impI)
      show "budget_events m2 = asked (bs @ [a])" using bu(1) by (simp add: m1_def m2_def)
      show "length (bs @ [a]) = nat (l_attempt m2 - 1)" using len True km by (simp add: m1_def m2_def)
      fix j assume j: "1 < j \<and> j \<le> l_attempt m2 \<and> \<not> (bs @ [a]) ! nat (j - 2)"
      show "of_attempt j m2 = []"
      proof (cases "j = k")
        case True
        then show ?thesis using cl2 by (simp add: cleared_def)
      next
        case False
        then have "j \<le> l_attempt l" "\<not> bs ! nat (j - 2)"
          using j len km by (auto simp: m1_def m2_def k_def nth_append split: if_splits)
        then show ?thesis using bu(2) [of j] j by (simp add: m1_def m2_def)
      qed
    qed
    show ?thesis
    proof (cases a)
      case True
      have "send rt env req cr m2 = (res, l')"
        using assms(1) \<open>1 < k\<close> km al True by (simp add: once_next m_def [symmetric] m1_def m2_def Let_def)
      with True len show ?thesis using send_finish [OF _ cl2 k1 b2] by (simp add: nth_append)
    next
      case False
      have "res = Some errBudgetExhausted" "l' = m2"
        using assms(1) \<open>1 < k\<close> km al False by (simp_all add: once_next m_def [symmetric] m1_def m2_def Let_def)
      with b2 cl2 k1 show ?thesis
        by (auto simp: idle_def numbered_def others_settled_def idle_last_def cleared_def)
    qed
  qed
qed

text \<open>The external state does not matter to the invariant, and each attempt is counted once.\<close>

lemma idle_ext [simp]: "idle req (l\<lparr>ext := e\<rparr>) \<longleftrightarrow> idle req l"
  by (cases "l_prev l") (auto simp: idle_def numbered_def budget_ok_def others_settled_def idle_last_def)

lemma idle_new: "idle req (new_loop e)"
proof -
  have "of_attempt k (new_loop e) = []" "budget_events (new_loop e) = []" for k
    by (simp_all add: of_attempt_def budget_events_def new_loop_def)
  then show ?thesis
    by (auto simp: idle_def numbered_def budget_ok_def others_settled_def idle_last_def new_loop_def
        intro!: exI [of _ "[]"])
qed

lemma send_count: "send rt env req cr l = (res, l') \<Longrightarrow> l_attempt l' = l_attempt l"
  by (auto simp: send_def transmit_def classify_def wrapBodyCancel_def Let_def
      split: if_splits prod.splits option.splits sum.splits)

lemma next_attempt_count: "l_attempt (next_attempt env l) = l_attempt l + 1"
  by (simp add: next_attempt_def drainPrev_def split: option.splits)

lemma once_count: "once rt env req cr l = (res, l') \<Longrightarrow> l_attempt l' = l_attempt l + 1"
  by (auto simp: once_next Let_def next_attempt_count dest!: send_count split: if_splits prod.splits)

interpretation http: retry_counter "lift_ctx env timer" "once rt env req cr" "lift_rnd rnd"
    "idle req" "finished req" l_attempt
proof unfold_locales
  fix w w' :: "'a aloop" and e
  assume "idle req w" "once rt env req cr w = (Some e, w')"
  with once_ok show "idle req w'" by fastforce
next
  fix w w' :: "'a aloop"
  assume "idle req w" "once rt env req cr w = (None, w')"
  with once_ok show "finished req w'" by fastforce
qed (auto simp: lift_ctx_def lift_rnd_def once_count split: prod.splits)

subsection \<open>The end of a round trip\<close>

definition outcome_state :: "request \<Rightarrow> response option \<times> goerror option \<Rightarrow> 'e aloop \<Rightarrow> bool" where
  "outcome_state req out l \<longleftrightarrow> numbered l
     \<and> (case out of
           (Some r, None) \<Rightarrow> r_attempt r = l_attempt l
             \<and> (\<forall>k. if k = l_attempt l then live_life req k (of_attempt k l) else settled req k (of_attempt k l))
         | (None, Some e) \<Rightarrow> (\<forall>k. settled req k (of_attempt k l))
         | _ \<Rightarrow> False)"

lemma numbered_extend:
  assumes "numbered l" "l_attempt l' = l_attempt l" "budget_events l' = budget_events l"
    and "\<And>k. of_attempt k l = [] \<Longrightarrow> of_attempt k l' = []"
  shows "numbered l'"
  using assms by (auto simp: numbered_def budget_ok_def)

lemma result_ok:
  assumes "if err = None then finished req l else idle req l" and "result env (err, l) = (out, l')"
  shows "outcome_state req out l' \<and> l_attempt l' = l_attempt l"
proof (cases err)
  case None
  then show ?thesis using assms
    by (auto simp: result_def finished_def outcome_state_def others_settled_def)
next
  case (Some e)
  then have i: "idle req l" using assms(1) by simp
  then have resp: "l_resp l = None" by (simp add: idle_def idle_last_def)
  show ?thesis
  proof (cases "l_prev l")
    case None
    have "settled req k (of_attempt k l)" for k
      using i None by (cases "k = l_attempt l") (auto simp: idle_def others_settled_def idle_last_def)
    then show ?thesis using assms(2) Some None resp i
      by (auto simp: result_def outcome_state_def idle_def)
  next
    case (Some p)
    obtain r c where p: "p = (r, c)" by force
    have h: "c = l_attempt l" "r_attempt r = l_attempt l" "held_life req (l_attempt l) (of_attempt (l_attempt l) l)"
      using i Some p by (auto simp: idle_def idle_last_def)
    have o: "settled req k (of_attempt k l)" if "k \<noteq> l_attempt l" for k
      using i that by (simp add: idle_def others_settled_def)
    have nil: "k \<noteq> l_attempt l" if "of_attempt k l = []" for k
      using h(3) that held_not_Nil by metis
    have num: "numbered l" using i by (simp add: idle_def)
    have n: "numbered (wrapBodyCancel r c l)"
      by (rule numbered_extend [OF num]) (use h nil in \<open>auto simp: wrapBodyCancel_def\<close>)
    have n': "numbered (drainClose env r c l)"
      by (rule numbered_extend [OF num]) (use h nil in auto)
    show ?thesis
    proof (cases "errors_As as_StatusError e \<noteq> None")
      case True
      then have "out = (Some r, None)" "l' = wrapBodyCancel r c l"
        using assms(2) \<open>err = Some e\<close> Some p resp by (auto simp: result_def)
      then show ?thesis using h o n
        by (auto simp: outcome_state_def wrapBodyCancel_def held_life_def live_life_def)
    next
      case False
      then have "out = (None, err)" "l' = drainClose env r c l"
        using assms(2) \<open>err = Some e\<close> Some p resp by (auto simp: result_def)
      then show ?thesis using h o n' held_drained [OF h(3)] \<open>err = Some e\<close>
        by (auto simp: outcome_state_def)
    qed
  qed
qed

definition attempt_limit :: "retry_transport \<Rightarrow> request \<Rightarrow> int" where
  "attempt_limit rt req =
     (if can_retry rt req then (case rt_retrier rt of None \<Rightarrow> 0 | Some r \<Rightarrow> max (maxRetries r) 1) else 1)"

lemma RoundTrip_split:
  assumes "RoundTrip rt env timer rnd req e = (out, l)"
  shows "out = (None, Some ErrNonReplayableBody) \<and> l = new_loop e
    \<or> \<not> can_retry rt req \<and> result env (once rt env req False (new_loop e)) = (out, l)
    \<or> can_retry rt req \<and> result env (DoCtx (rt_retrier rt) (Some (lift_ctx env timer))
        (Some (once rt env req True)) (lift_rnd rnd) (new_loop e)) = (out, l)"
  using assms unfolding RoundTrip_def Let_def
  by (cases "can_retry rt req"; cases "has_Body req"; cases "has_GetBody req") simp_all

lemma RoundTrip_outcome:
  assumes "RoundTrip rt env timer rnd req e = (out, l)"
  shows "outcome_state req out l \<and> l_attempt l \<le> attempt_limit rt req"
proof -
  have lim: "0 \<le> attempt_limit rt req" by (auto simp: attempt_limit_def max_def split: option.splits)
  have new: "l_attempt (new_loop e) = 0" by (simp add: new_loop_def)
  consider (refused) "out = (None, Some ErrNonReplayableBody)" "l = new_loop e"
    | (single) "\<not> can_retry rt req" "result env (once rt env req False (new_loop e)) = (out, l)"
    | (many) "can_retry rt req" "result env (DoCtx (rt_retrier rt) (Some (lift_ctx env timer))
        (Some (once rt env req True)) (lift_rnd rnd) (new_loop e)) = (out, l)"
    using RoundTrip_split [OF assms] by blast
  then show ?thesis
  proof cases
    case refused
    have "settled req k (of_attempt k (new_loop e))" for k
      by (simp add: of_attempt_def new_loop_def)
    with refused lim new idle_new [of req e] show ?thesis by (auto simp: outcome_state_def idle_def)
  next
    case single
    obtain err l1 where o: "once rt env req False (new_loop e) = (err, l1)" by force
    from result_ok [OF once_ok [OF o idle_new]] single o once_count [OF o] new show ?thesis
      by (simp add: attempt_limit_def)
  next
    case many
    show ?thesis
    proof (cases "rt_retrier rt")
      case None
      then have "result env (Some ErrNilRetry, new_loop e) = (out, l)"
        using many by (simp add: DoCtx_def validate_def)
      with result_ok [of "Some ErrNilRetry" req "new_loop e" env out l] idle_new [of req e] lim new show ?thesis by simp
    next
      case (Some r)
      obtain err l1 where d: "DoCtx (Some r) (Some (lift_ctx env timer)) (Some (once rt env req True))
          (lift_rnd rnd) (new_loop e) = (err, l1)" by force
      note inv = http.DoCtx_inv [OF idle_new d]
      note cnt = http.DoCtx_cnt [OF d]
      have "result env (err, l1) = (out, l)" using many(2) Some d by simp
      from result_ok [OF inv this] cnt new many(1) Some show ?thesis by (simp add: attempt_limit_def)
    qed
  qed
qed

subsection \<open>Properties\<close>

text \<open>A server that is unavailable once, asks for two seconds, then answers; the state counts the requests.\<close>

definition demo_env :: "nat httpenv" where
  "demo_env = \<lparr>base_RoundTrip = (\<lambda>k n. (Inr (if n = 0 then (503, ''2'') else (200, '''')), Suc n)),
     parent_Err = (\<lambda>n. None), time_left = (\<lambda>n. None), ran_out = (\<lambda>t k n. False),
     GetBody = (\<lambda>n. (None, n)), budget_Allow = (\<lambda>n. (True, n)), budget_Record = (\<lambda>b n. n),
     onAttempt = None, elapsed = (\<lambda>a b. 0), reused = (\<lambda>n. False), drain = (\<lambda>k n. n),
     date_until = (\<lambda>v n. None)\<rparr>"

definition demo_rt :: "retry option \<Rightarrow> retry_transport" where
  "demo_rt r = \<lparr>rt_retrier = r, perAttempt = 0, nonIdem = False, maxRetryAfter = 30000000000\<rparr>"

definition demo_req :: "string \<Rightarrow> request" where
  "demo_req m = \<lparr>Method = m, Host = ''example.org'', has_Body = True, has_GetBody = True\<rparr>"

definition demo_retry :: "retry option" where
  "demo_retry = Some (retry_New [Some (WithRetryIf (Some defaultRetryIf))])"

definition demo_out :: "nat aloop" where
  "demo_out = \<lparr>ext = 2,
     trace = [Ctx 1 None, Sent 1, Got 1, Drained 1, Closed 1, Cancelled 1, Allowed True, Recorded True,
       Ctx 2 None, Rewound 2, Sent 2, Got 2, Wrapped 2],
     l_attempt = 2, l_resp = Some \<lparr>r_attempt = 2, StatusCode = 200, RetryAfter = ''''\<rparr>, l_prev = None\<rparr>"

lemma demo_round_trip:
  "RoundTrip (demo_rt demo_retry) demo_env (\<lambda>d n. (True, n)) (\<lambda>k n. (0, n)) (demo_req ''GET'') 0
   = ((Some \<lparr>r_attempt = 2, StatusCode = 200, RetryAfter = ''''\<rparr>, None), demo_out)"
  by code_simp

text \<open>Every context that was made is cancelled once, that of a live response when its body is closed.\<close>

fun is_Ctx :: "int \<Rightarrow> hevent \<Rightarrow> bool" where
  "is_Ctx k (Ctx j t) = (j = k)"
| "is_Ctx k _ = False"

definition released :: "int \<Rightarrow> 'e aloop \<Rightarrow> bool" where
  "released k l \<longleftrightarrow> length (filter (is_Ctx k) (trace l)) = count_list (trace l) (Cancelled k)"

lemma count_of_attempt: "ev_attempt ev = Some k \<Longrightarrow> count_list (trace l) ev = count_list (of_attempt k l) ev"
proof -
  assume "ev_attempt ev = Some k"
  then have "count_list xs ev = count_list (filter (\<lambda>ev. ev_attempt ev = Some k) xs) ev" for xs
    by (induction xs) auto
  then show ?thesis by (simp add: of_attempt_def)
qed

lemma released_iff:
  "released k l \<longleftrightarrow> length (filter (is_Ctx k) (of_attempt k l)) = count_list (of_attempt k l) (Cancelled k)"
proof -
  have "is_Ctx k ev \<and> ev_attempt ev = Some k \<longleftrightarrow> is_Ctx k ev" for ev by (cases ev) auto
  then show ?thesis by (simp add: released_def count_of_attempt of_attempt_def conj_commute)
qed

lemma settled_released: "settled req k (of_attempt k l) \<Longrightarrow> released k l"
  by (auto simp: released_iff settled_def failed_life_def drained_life_def opened_def)

lemma live_released:
  assumes "live_life req k (of_attempt k l)" "r_attempt r = k"
  shows "released k (cancelOnClose_Close r k l)"
  using assms by (auto simp: released_iff cancelOnClose_Close_def live_life_def opened_def)

lemma closed_other: "k \<noteq> r_attempt r \<Longrightarrow> released k (cancelOnClose_Close r (r_attempt r) l) = released k l"
  by (simp add: released_iff cancelOnClose_Close_def)

text \<open>
  C25: no body and no context leaks. A round trip returns exactly one of a response and an error.
  The trace of every attempt is one of a few words: the returned response belongs to the last
  attempt, undrained, its context to be cancelled by closing the body; every other attempt that got
  a response drained and closed it once and then cancelled its context, a failed one cancelled its
  context once, and an attempt that the budget denied did nothing. So once the caller has closed the
  body, every context that was made has been cancelled exactly once.
\<close>

theorem RoundTrip_lifecycle:
  "case RoundTrip rt env timer rnd req e of
     ((Some r, None), l) \<Rightarrow> r_attempt r = l_attempt l
       \<and> (\<forall>k. if k = r_attempt r then live_life req k (of_attempt k l) else settled req k (of_attempt k l))
       \<and> (\<forall>k. released k (cancelOnClose_Close r (r_attempt r) l))
   | ((None, Some err), l) \<Rightarrow> \<forall>k. settled req k (of_attempt k l) \<and> released k l
   | _ \<Rightarrow> False"
proof -
  obtain out l where o: "RoundTrip rt env timer rnd req e = (out, l)" by (rule prod.exhaust)
  have st: "outcome_state req out l" using RoundTrip_outcome [OF o] by blast
  have "released k (cancelOnClose_Close r (l_attempt l) l)"
    if "r_attempt r = l_attempt l"
      and "\<forall>k. if k = l_attempt l then live_life req k (of_attempt k l) else settled req k (of_attempt k l)"
    for r k
  proof (cases "k = l_attempt l")
    case True
    with that show ?thesis by (metis live_released)
  next
    case False
    with that have "released k l" by (metis settled_released)
    with False that show ?thesis by (metis closed_other)
  qed
  moreover have "released k l" if "\<forall>k. settled req k (of_attempt k l)" for k
    using that by (metis settled_released)
  ultimately show ?thesis
    using st unfolding o by (cases out) (auto simp: outcome_state_def split: option.splits)
qed

lemma sent_opened:
  assumes "settled req k evs \<or> live_life req k evs" and "Sent k \<in> set evs"
  shows "1 < k \<longrightarrow> has_GetBody req \<longrightarrow> Rewound k \<in> set evs" and "count_list evs (Sent k) = 1"
  using assms
  by (auto simp: settled_def failed_life_def drained_life_def live_life_def opened_def split: if_splits)

lemma trace_of_attempt: "ev_attempt ev = Some k \<Longrightarrow> ev \<in> set (trace l) \<longleftrightarrow> ev \<in> set (of_attempt k l)"
  by (simp add: of_attempt_def)

text \<open>
  C27: how often a request is sent. At most \<open>max(maxRetries, 1)\<close> times, and once when the method
  is not idempotent and replaying is not opted in; each attempt sends once, and a retry only when the
  budget allowed it and after the body was rewound. The budget is asked before each attempt but the
  first, and told the answer. A request that would need a body it cannot rewind is refused unsent.
\<close>

theorem RoundTrip_attempts:
  assumes "RoundTrip rt env timer rnd req e = (out, l)"
  shows "l_attempt l \<le> (if can_retry rt req
       then (case rt_retrier rt of None \<Rightarrow> 0 | Some r \<Rightarrow> max (maxRetries r) 1) else 1)
    \<and> (\<exists>allowed. budget_events l = concat (map (\<lambda>b. [Allowed b, Recorded b]) allowed)
         \<and> length allowed = nat (l_attempt l - 1)
         \<and> (\<forall>k. Sent k \<in> set (trace l) \<longrightarrow>
              1 \<le> k \<and> k \<le> l_attempt l \<and> count_list (trace l) (Sent k) = 1
              \<and> (1 < k \<longrightarrow> allowed ! nat (k - 2) \<and> (has_GetBody req \<longrightarrow> Rewound k \<in> set (trace l)))))
    \<and> (can_retry rt req \<and> has_Body req \<and> \<not> has_GetBody req \<longrightarrow>
         out = (None, Some ErrNonReplayableBody) \<and> trace l = [])"
proof (intro conjI impI)
  note o = RoundTrip_outcome [OF assms]
  show "l_attempt l \<le> (if can_retry rt req
       then (case rt_retrier rt of None \<Rightarrow> 0 | Some r \<Rightarrow> max (maxRetries r) 1) else 1)"
    using o by (simp add: attempt_limit_def)
  obtain bs where b: "budget_ok l bs" using o by (auto simp: outcome_state_def numbered_def)
  have "1 \<le> k \<and> k \<le> l_attempt l \<and> count_list (trace l) (Sent k) = 1
      \<and> (1 < k \<longrightarrow> bs ! nat (k - 2) \<and> (has_GetBody req \<longrightarrow> Rewound k \<in> set (trace l)))"
    if "Sent k \<in> set (trace l)" for k
  proof -
    have s: "Sent k \<in> set (of_attempt k l)" using that by (simp add: of_attempt_def)
    then have "of_attempt k l \<noteq> []" by auto
    then have r: "1 \<le> k" "k \<le> l_attempt l" "1 < k \<longrightarrow> bs ! nat (k - 2)"
      using o b by (force simp: outcome_state_def numbered_def budget_ok_def)+
    have "settled req k (of_attempt k l) \<or> live_life req k (of_attempt k l)"
      using o by (cases out) (auto simp: outcome_state_def split: option.splits if_splits)
    from sent_opened [OF this s] r show ?thesis
      by (auto simp: trace_of_attempt [of _ k] count_of_attempt [of _ k])
  qed
  then show "\<exists>allowed. budget_events l = concat (map (\<lambda>b. [Allowed b, Recorded b]) allowed)
      \<and> length allowed = nat (l_attempt l - 1)
      \<and> (\<forall>k. Sent k \<in> set (trace l) \<longrightarrow>
           1 \<le> k \<and> k \<le> l_attempt l \<and> count_list (trace l) (Sent k) = 1
           \<and> (1 < k \<longrightarrow> allowed ! nat (k - 2) \<and> (has_GetBody req \<longrightarrow> Rewound k \<in> set (trace l))))"
    using b by (auto simp: budget_ok_def asked_def)
  assume "can_retry rt req \<and> has_Body req \<and> \<not> has_GetBody req"
  then show "out = (None, Some ErrNonReplayableBody)" "trace l = []"
    using assms by (auto simp: RoundTrip_def new_loop_def)
qed

theorem RoundTrip_attempts_witness:
  "RoundTrip (demo_rt demo_retry) demo_env (\<lambda>d n. (True, n)) (\<lambda>k n. (0, n)) (demo_req ''GET'') 0
     = ((Some \<lparr>r_attempt = 2, StatusCode = 200, RetryAfter = ''''\<rparr>, None), demo_out)
   \<and> Rewound 2 \<in> set (trace demo_out) \<and> l_attempt demo_out \<le> 3"
proof -
  have "Sent 2 \<in> set (trace demo_out)" by (simp add: demo_out_def)
  then have "Rewound 2 \<in> set (trace demo_out)"
    using RoundTrip_attempts [OF demo_round_trip] by (force simp: demo_req_def)
  moreover have "l_attempt demo_out \<le> 3"
    using RoundTrip_attempts [OF demo_round_trip]
    by (auto simp: demo_rt_def demo_retry_def retry_New_def WithRetryIf_def DefaultMaxRetries_def can_retry_def
        demo_req_def idempotentMethods_def split: if_splits)
  ultimately show ?thesis using demo_round_trip by blast
qed

text \<open>
  C28: a transport error is lost. \<open>send\<close> cancels the attempt's context before \<open>normalizeErr\<close> asks
  that context for its error, so while the caller's context is alive the raw error is always replaced
  by the per-attempt timeout: it does not reach the caller, and the classifier, which would end on
  many of them, always sees a retryable error.
\<close>

theorem RoundTrip_masks_errors:
  assumes "\<And>e. parent_Err env e = None" and "base_RoundTrip env (l_attempt l) (ext l) = (Inl rerr, e')"
  shows "fst (transmit rt env req cr tmo l) = Some errAttemptTimeout
      \<and> defaultRetryIf (Some errAttemptTimeout)
      \<and> (\<not> can_retry rt req \<and> base_RoundTrip env 1 e = (Inl rerr, e') \<longrightarrow>
           fst (RoundTrip rt env timer rnd req e) = (None, Some errAttemptTimeout))"
proof (intro conjI impI)
  show "defaultRetryIf (Some errAttemptTimeout)"
    by (simp add: defaultRetryIf_def isCallerCtxErr_def errAttemptTimeout_def)
  have masked: "fst (transmit rt env req cr tmo l) = Some errAttemptTimeout"
    if "base_RoundTrip env (l_attempt l) (ext l) = (Inl rerr, e')" for cr tmo l
    using assms(1) that by (simp add: transmit_def Let_def normalizeErr_def attempt_Err_def note_ev_def)
  with assms(2) show "fst (transmit rt env req cr tmo l) = Some errAttemptTimeout" by blast
  assume c: "\<not> can_retry rt req \<and> base_RoundTrip env 1 e = (Inl rerr, e')"
  define m where "m = note_ev (Ctx 1 (attemptContext rt env e)) (next_attempt env (new_loop e))"
  have m: "l_attempt m = 1" "ext m = e"
    by (simp_all add: m_def next_attempt_def drainPrev_def new_loop_def note_ev_def)
  have "once rt env req False (new_loop e) = transmit rt env req False (attemptContext rt env e) m"
    by (simp add: once_next send_def m_def next_attempt_def drainPrev_def new_loop_def note_ev_def Let_def)
  then obtain l' where l': "once rt env req False (new_loop e) = (Some errAttemptTimeout, l')"
    using masked [of m False "attemptContext rt env e"] c m by (metis eq_fst_iff)
  have "l_prev l' = None"
    using l' unfolding once_next send_def transmit_def
    by (auto simp: Let_def next_attempt_def drainPrev_def new_loop_def note_ev_def classify_def wrapBodyCancel_def
        emit_def split: prod.splits sum.splits option.splits if_splits)
  moreover have "l_resp l' = None" using once_ok [OF l' idle_new] by (simp add: idle_def idle_last_def)
  ultimately show "fst (RoundTrip rt env timer rnd req e) = (None, Some errAttemptTimeout)"
    using c l' by (simp add: RoundTrip_def Let_def result_def)
qed

text \<open>An unknown certificate authority, which no retry can mend and which the classifier would not retry.\<close>

definition demo_x509 :: goerror where
  "demo_x509 = sentinel ''x509: certificate signed by unknown authority''"

definition demo_fail :: "nat httpenv" where
  "demo_fail = demo_env\<lparr>base_RoundTrip := (\<lambda>k n. (Inl demo_x509, Suc n))\<rparr>"

theorem RoundTrip_masks_errors_witness:
  "\<not> defaultRetryIf (Some demo_x509)
   \<and> fst (transmit (demo_rt None) demo_fail (demo_req ''GET'') True None (new_loop 0)) = Some errAttemptTimeout
   \<and> fst (RoundTrip (demo_rt None) demo_fail (\<lambda>d n. (True, n)) (\<lambda>k n. (0, n)) (demo_req ''POST'') 0)
       = (None, Some errAttemptTimeout)"
proof -
  have "\<not> defaultRetryIf (Some demo_x509)" by code_simp
  moreover have "parent_Err demo_fail n = None" for n by (simp add: demo_fail_def demo_env_def)
  moreover have "base_RoundTrip demo_fail k n = (Inl demo_x509, Suc n)" for k n by (simp add: demo_fail_def)
  moreover have "\<not> can_retry (demo_rt None) (demo_req ''POST'')" by code_simp
  ultimately show ?thesis
    using RoundTrip_masks_errors [of demo_fail "new_loop 0" demo_x509 "Suc 0"] by (simp add: new_loop_def)
qed

subsection \<open>Retry-After within the cap\<close>

lemma div_le_dividend_int: "0 \<le> m \<Longrightarrow> 0 < k \<Longrightarrow> m div k \<le> (m :: int)"
  by (cases "m = 0") (auto simp: int_div_less_self intro: zdiv_mono2 [of m 1 k, simplified])

lemma clamp_cmp:
  assumes "0 \<le> m" "m + Second \<le> MaxInt64"
  shows "wrap64 (go_div m Second + 1) = m div Second + 1"
proof -
  have "0 \<le> m div Second" "m div Second \<le> m" using assms(1) div_le_dividend_int
    by (simp_all add: Second_def pos_imp_zdiv_nonneg_iff)
  then have "int64 (m div Second + 1)" using assms by (simp add: int64_def MinInt64_def MaxInt64_def Second_def)
  then show ?thesis using assms by (simp add: go_div_def wrap64_id)
qed

text \<open>
  A \<open>Retry-After\<close> in seconds. Unless the cap is within a second of the largest duration,
  the delay handed to the retrier lies between 0 and the cap, nothing overflows however large the
  header, and the response is returned live exactly when the header asks for more than the cap.
\<close>

lemma retryAfter_bounds:
  assumes "0 \<le> maxRetryAfter rt" "maxRetryAfter rt + Second \<le> MaxInt64"
    and "retryAfterDelay rt until r = (d, withinCap)"
  shows "0 \<le> d \<and> d \<le> maxRetryAfter rt
    \<and> (StatusCode r \<noteq> 429 \<and> StatusCode r \<noteq> 503 \<longrightarrow> d = 0 \<and> withinCap)
    \<and> (\<forall>n. (StatusCode r = 429 \<or> StatusCode r = 503) \<and> Atoi (RetryAfter r) = Some n \<and> 0 < n \<longrightarrow>
         withinCap = (n * Second \<le> maxRetryAfter rt) \<and> d = (if withinCap then n * Second else 0))"
proof -
  let ?m = "maxRetryAfter rt"
  have clamp: "wrap64 (?m + Second) = ?m + Second"
    using assms(1,2) by (intro wrap64_id) (simp add: int64_def MinInt64_def Second_def)
  have small: "wrap64 (n * Second) = n * Second" if "0 < n" "n \<le> ?m div Second + 1" for n
  proof -
    have "n * Second \<le> (?m div Second + 1) * Second" using that by (intro mult_right_mono) (simp_all add: Second_def)
    also have "\<dots> \<le> ?m + Second" using assms(1) by (simp add: Second_def algebra_simps)
    finally show ?thesis using that assms(2) by (intro wrap64_id) (simp add: int64_def MinInt64_def Second_def)
  qed
  have large: "?m < n * Second" if "?m div Second + 1 < n" for n
  proof -
    have "?m < (?m div Second + 1) * Second" by (simp add: Second_def algebra_simps)
    also have "\<dots> \<le> n * Second" using that by (intro mult_right_mono) (simp_all add: Second_def)
    finally show ?thesis .
  qed
  have date: "0 \<le> (case until v of Some d \<Rightarrow> if 0 < d then d else 0 | None \<Rightarrow> 0)" for v
    by (simp split: option.splits)
  have sec: "parseRetryAfter rt until r = (if ?m div Second + 1 < n then ?m + Second else n * Second)"
    if "StatusCode r = 429 \<or> StatusCode r = 503" "Atoi (RetryAfter r) = Some n" "0 < n" for n
    using that small [of n] clamp clamp_cmp [OF assms(1,2)] by (auto simp: parseRetryAfter_def Let_def)
  have nonneg: "0 \<le> parseRetryAfter rt until r"
  proof (cases "(StatusCode r = 429 \<or> StatusCode r = 503) \<and> (\<exists>n. Atoi (RetryAfter r) = Some n \<and> 0 < n)")
    case True
    with sec assms(1) show ?thesis by (auto simp: Second_def)
  next
    case False
    then show ?thesis using date by (auto simp: parseRetryAfter_def Let_def split: option.splits)
  qed
  with assms have "0 \<le> d \<and> d \<le> ?m" by (auto simp: retryAfterDelay_def Let_def split: if_splits)
  moreover have "d = 0 \<and> withinCap" if "StatusCode r \<noteq> 429 \<and> StatusCode r \<noteq> 503"
    using assms that by (auto simp: retryAfterDelay_def parseRetryAfter_def Let_def split: if_splits)
  moreover have "withinCap = (n * Second \<le> ?m) \<and> d = (if withinCap then n * Second else 0)"
    if "StatusCode r = 429 \<or> StatusCode r = 503" "Atoi (RetryAfter r) = Some n" "0 < n" for n
    using assms(3) sec [OF that] large [of n]
    by (auto simp: retryAfterDelay_def Let_def Second_def split: if_splits)
  ultimately show ?thesis by blast
qed

lemma retryAfter_bounds_example:
  "retryAfterDelay (demo_rt None) (\<lambda>v. None) \<lparr>r_attempt = 1, StatusCode = 429, RetryAfter = ''9223372037''\<rparr> = (0, False)
   \<and> \<not> 9223372037 * Second \<le> maxRetryAfter (demo_rt None)"
proof -
  let ?r = "\<lparr>r_attempt = 1, StatusCode = 429, RetryAfter = ''9223372037''\<rparr>"
  have run: "retryAfterDelay (demo_rt None) (\<lambda>v. None) ?r = (0, False)" by code_simp
  have "Atoi (RetryAfter ?r) = Some 9223372037" by code_simp
  with run retryAfter_bounds [OF _ _ run] show ?thesis by (simp add: demo_rt_def Second_def MaxInt64_def)
qed

text \<open>
  With a cap at the top of the range, which reads as no cap, the clamp itself overflows: the delay
  wraps to a negative duration, which the comment on \<open>parseRetryAfter\<close> rules out.
\<close>

lemma retryAfter_overflow:
  "retryAfterDelay ((demo_rt None)\<lparr>maxRetryAfter := MaxInt64\<rparr>) (\<lambda>v. None)
     \<lparr>r_attempt = 1, StatusCode = 429, RetryAfter = ''9223372037''\<rparr> = (- 9223372036709551616, True)"
  by code_simp

end
