(* ===== verification/Go_Net.thy ===== *)
theory Go_Net
  imports Go_Strings "HOL-Library.Word"
begin

section \<open>The parts of package net the code uses\<close>

text \<open>
  \<open>net.IP\<close> as Go has it, a slice of 4 or 16 bytes: parsing, printing, masks and prefixes, the
  classification methods, and \<open>SplitHostPort\<close> and \<open>JoinHostPort\<close>. A byte is an \<open>8 word\<close>; the nil slice
  is the empty list where a method returns it.
\<close>

unbundle bit_operations_syntax

named_theorems go_net \<open>equations of package net on concrete shapes\<close>

type_synonym byte = "8 word"
type_synonym ip = "byte list"

subsection \<open>Representation\<close>

definition v4InV6Prefix :: "byte list" where
  "v4InV6Prefix = replicate 10 0 @ [0xff, 0xff]"

definition To4 :: "ip \<Rightarrow> ip option" where
  "To4 ip =
     (if length ip = 4 then Some ip
      else if length ip = 16 \<and> take 12 ip = v4InV6Prefix then Some (drop 12 ip)
      else None)"

definition ip_Equal :: "ip \<Rightarrow> ip \<Rightarrow> bool" where
  "ip_Equal ip x =
     (if length ip = length x then ip = x
      else if length ip = 4 \<and> length x = 16 then take 12 x = v4InV6Prefix \<and> ip = drop 12 x
      else if length ip = 16 \<and> length x = 4 then take 12 ip = v4InV6Prefix \<and> drop 12 ip = x
      else False)"

definition IPv4zero :: ip where
  "IPv4zero = v4InV6Prefix @ [0, 0, 0, 0]"

definition IPv6unspecified :: ip where
  "IPv6unspecified = replicate 16 0"

definition IPv6loopback :: ip where
  "IPv6loopback = replicate 15 0 @ [1]"

subsection \<open>Classification\<close>

definition IsUnspecified :: "ip \<Rightarrow> bool" where
  "IsUnspecified ip \<longleftrightarrow> ip_Equal ip IPv4zero \<or> ip_Equal ip IPv6unspecified"

definition IsLoopback :: "ip \<Rightarrow> bool" where
  "IsLoopback ip = (case To4 ip of Some v4 \<Rightarrow> v4 ! 0 = 127 | None \<Rightarrow> ip_Equal ip IPv6loopback)"

definition IsPrivate :: "ip \<Rightarrow> bool" where
  "IsPrivate ip =
     (case To4 ip of
        Some v4 \<Rightarrow> v4 ! 0 = 10 \<or> (v4 ! 0 = 172 \<and> v4 ! 1 AND 0xf0 = 16) \<or> (v4 ! 0 = 192 \<and> v4 ! 1 = 168)
      | None \<Rightarrow> length ip = 16 \<and> ip ! 0 AND 0xfe = 0xfc)"

definition IsMulticast :: "ip \<Rightarrow> bool" where
  "IsMulticast ip =
     (case To4 ip of
        Some v4 \<Rightarrow> v4 ! 0 AND 0xf0 = 0xe0
      | None \<Rightarrow> length ip = 16 \<and> ip ! 0 = 0xff)"

definition IsLinkLocalMulticast :: "ip \<Rightarrow> bool" where
  "IsLinkLocalMulticast ip =
     (case To4 ip of
        Some v4 \<Rightarrow> v4 ! 0 = 224 \<and> v4 ! 1 = 0 \<and> v4 ! 2 = 0
      | None \<Rightarrow> length ip = 16 \<and> ip ! 0 = 0xff \<and> ip ! 1 AND 0x0f = 0x02)"

definition IsLinkLocalUnicast :: "ip \<Rightarrow> bool" where
  "IsLinkLocalUnicast ip =
     (case To4 ip of
        Some v4 \<Rightarrow> v4 ! 0 = 169 \<and> v4 ! 1 = 254
      | None \<Rightarrow> length ip = 16 \<and> ip ! 0 = 0xfe \<and> ip ! 1 AND 0xc0 = 0x80)"

subsection \<open>Masks and prefixes\<close>

fun mask_bytes :: "nat \<Rightarrow> nat \<Rightarrow> byte list" where
  "mask_bytes 0 n = []"
| "mask_bytes (Suc l) n = (if 8 \<le> n then 0xff # mask_bytes l (n - 8) else NOT (drop_bit n 0xff) # mask_bytes l 0)"

definition CIDRMask :: "nat \<Rightarrow> nat \<Rightarrow> byte list" where
  "CIDRMask ones bits =
     (if (bits = 32 \<or> bits = 128) \<and> ones \<le> bits then mask_bytes (bits div 8) ones else [])"

definition ip_Mask :: "ip \<Rightarrow> byte list \<Rightarrow> ip" where
  "ip_Mask ip m =
     (let m = (if length m = 16 \<and> length ip = 4 \<and> take 12 m = replicate 12 0xff then drop 12 m else m);
          ip = (if length m = 4 \<and> length ip = 16 \<and> take 12 ip = v4InV6Prefix then drop 12 ip else ip)
      in if length ip = length m then map2 (AND) ip m else [])"

text \<open>An \<open>IPNet\<close> is the masked address and the mask.\<close>

type_synonym ipnet = "ip \<times> byte list"

definition networkNumberAndMask :: "ipnet \<Rightarrow> ip \<times> byte list" where
  "networkNumberAndMask n =
     (let ip = (case To4 (fst n) of Some v4 \<Rightarrow> v4 | None \<Rightarrow> fst n); m = snd n
      in if length ip \<noteq> 4 \<and> length ip \<noteq> 16 then ([], [])
         else if length m = 4 then (if length ip = 4 then (ip, m) else ([], []))
         else if length m = 16 then (ip, if length ip = 4 then drop 12 m else m)
         else ([], []))"

definition net_Contains :: "ipnet \<Rightarrow> ip \<Rightarrow> bool" where
  "net_Contains n ip =
     (case networkNumberAndMask n of
        (nn, m) \<Rightarrow>
          (let ip = (case To4 ip of Some v4 \<Rightarrow> v4 | None \<Rightarrow> ip)
           in length ip = length nn \<and> map2 (AND) nn m = map2 (AND) ip m))"

subsection \<open>Parsing addresses\<close>

text \<open>
  The four fields of dotted decimal: \<open>fields\<close> so far, the value and the number of digits of the
  current one. No leading zeros, nothing over 255, no empty field.
\<close>

fun v4_fields :: "byte list \<Rightarrow> nat \<Rightarrow> nat \<Rightarrow> string \<Rightarrow> byte list option" where
  "v4_fields fs val dig [] = (if length fs < 3 then None else Some (fs @ [of_nat val]))"
| "v4_fields fs val dig (c # s) =
     (if is_digit c
      then (if dig = 1 \<and> val = 0 then None
            else (let val = val * 10 + (of_char c - 48)
                  in if 255 < val then None else v4_fields fs val (Suc dig) s))
      else if c = CHR ''.''
      then (if dig = 0 \<or> s = [] then None
            else if length fs = 3 then None
            else v4_fields (fs @ [of_nat val]) 0 0 s)
      else None)"

definition hex_val :: "char \<Rightarrow> nat option" where
  "hex_val c =
     (let n = of_char c in
      if 48 \<le> n \<and> n \<le> 57 then Some (n - 48)
      else if 97 \<le> n \<and> n \<le> 102 then Some (n - 87)
      else if 65 \<le> n \<and> n \<le> 70 then Some (n - 55)
      else None)"

text \<open>One group of at most four hex digits: the number of digits, its value and the rest.\<close>

fun hex_group :: "nat \<Rightarrow> nat \<Rightarrow> string \<Rightarrow> (nat \<times> nat \<times> string) option" where
  "hex_group off acc [] = Some (off, acc, [])"
| "hex_group off acc (c # s) =
     (case hex_val c of
        None \<Rightarrow> Some (off, acc, c # s)
      | Some d \<Rightarrow>
          (let acc = acc * 16 + d in if 3 < off \<or> 65535 < acc then None else hex_group (Suc off) acc s))"

text \<open>Groups of an IPv6 address: the bytes so far, where the ellipsis was, and the rest.\<close>

function v6_loop :: "byte list \<Rightarrow> nat option \<Rightarrow> string \<Rightarrow> (byte list \<times> nat option \<times> string) option" where
  "v6_loop bs ell s =
     (if 16 \<le> length bs then Some (bs, ell, s)
      else
        (case hex_group 0 0 s of
           None \<Rightarrow> None
         | Some (off, acc, r) \<Rightarrow>
             if off = 0 then None
             else if r \<noteq> [] \<and> hd r = CHR ''.''
             then (if ell = None \<and> length bs \<noteq> 12 \<or> 16 < length bs + 4 then None
                   else (case v4_fields [] 0 0 s of None \<Rightarrow> None | Some fs \<Rightarrow> Some (bs @ fs, ell, [])))
             else
               (let bs = bs @ [of_nat (acc div 256), of_nat acc] in
                case r of
                  [] \<Rightarrow> Some (bs, ell, [])
                | c # r \<Rightarrow>
                    if c \<noteq> CHR '':'' \<or> r = [] then None
                    else if hd r = CHR '':''
                    then (if ell \<noteq> None then None
                          else if tl r = [] then Some (bs, Some (length bs), [])
                          else v6_loop bs (Some (length bs)) (tl r))
                    else v6_loop bs ell r)))"
  by pat_completeness auto

termination
  by (relation "measure (\<lambda>(bs, ell, s). 16 - length bs)") auto

declare v6_loop.simps [simp del]

definition parse_v6 :: "string \<Rightarrow> byte list option" where
  "parse_v6 s =
     (let lead = (take 2 s = ''::''); s = (if lead then drop 2 s else s) in
      if lead \<and> s = [] then Some (replicate 16 0)
      else
        (case v6_loop [] (if lead then Some 0 else None) s of
           Some (bs, ell, []) \<Rightarrow>
             if length bs < 16
             then (case ell of
                     None \<Rightarrow> None
                   | Some e \<Rightarrow> Some (take e bs @ replicate (16 - length bs) 0 @ drop e bs))
             else if ell \<noteq> None then None else Some bs
         | _ \<Rightarrow> None))"

text \<open>
  \<open>netip.ParseAddr\<close> without a zone: the callers reject an address with one, and a percent sign is
  allowed nowhere else.
\<close>

definition ParseAddr :: "string \<Rightarrow> byte list option" where
  "ParseAddr s =
     (if CHR ''%'' \<in> set s then None
      else
        (case dropWhile (\<lambda>c. c \<noteq> CHR ''.'' \<and> c \<noteq> CHR '':'') s of
           [] \<Rightarrow> None
         | c # r \<Rightarrow> if c = CHR ''.'' then v4_fields [] 0 0 s else parse_v6 s))"

definition As16 :: "byte list \<Rightarrow> ip" where
  "As16 a = (if length a = 4 then v4InV6Prefix @ a else a)"

definition ParseIP :: "string \<Rightarrow> ip option" where
  "ParseIP s = map_option As16 (ParseAddr s)"

text \<open>\<open>ParseCIDR\<close>, of which only the network is used. The prefix length is plain decimal.\<close>

definition ParseCIDR :: "string \<Rightarrow> ipnet option" where
  "ParseCIDR s =
     (case Cut s (CHR ''/'') of
        (addr, pfx, found) \<Rightarrow>
          if \<not> found then None
          else
            (case (ParseAddr addr, if pfx \<noteq> [] \<and> list_all is_digit pfx then digits_acc 0 pfx else None) of
               (Some a, Some n) \<Rightarrow>
                 if int (8 * length a) < n then None
                 else (let m = CIDRMask (nat n) (8 * length a) in Some (ip_Mask (As16 a) m, m))
             | _ \<Rightarrow> None))"

subsection \<open>Printing addresses\<close>

definition hex_char :: "nat \<Rightarrow> char" where
  "hex_char d = (if d < 10 then char_of (48 + d) else char_of (87 + d))"

fun hex_text :: "nat \<Rightarrow> string" where
  "hex_text n = (if n < 16 then [hex_char n] else hex_text (n div 16) @ [hex_char (n mod 16)])"

declare hex_text.simps [simp del]

fun groups :: "byte list \<Rightarrow> nat list" where
  "groups (a # b # bs) = (unat a * 256 + unat b) # groups bs"
| "groups _ = []"

text \<open>The first of the longest runs of at least two zero groups, as its start and end.\<close>

definition zero_run :: "nat list \<Rightarrow> (nat \<times> nat) option" where
  "zero_run gs =
     foldl (\<lambda>best i.
         (let j = i + length (takeWhile (\<lambda>g. g = 0) (drop i gs))
          in if 2 \<le> j - i \<and> (case best of None \<Rightarrow> 0 | Some (a, b) \<Rightarrow> b - a) < j - i then Some (i, j) else best))
       None [0..<8]"

definition v6_text :: "nat list \<Rightarrow> string" where
  "v6_text gs =
     (case zero_run gs of
        None \<Rightarrow> Join (map hex_text gs) '':''
      | Some (a, b) \<Rightarrow>
          Join (map hex_text (take a gs)) '':'' @ ''::'' @ Join (map hex_text (drop b gs)) '':'')"

definition v4_text :: "ip \<Rightarrow> string" where
  "v4_text ip = Join (map (\<lambda>b. decimal (unat b)) ip) ''.''"

definition hex_bytes :: "byte list \<Rightarrow> string" where
  "hex_bytes bs = concat (map (\<lambda>b. [hex_char (unat b div 16), hex_char (unat b mod 16)]) bs)"

definition ip_String :: "ip \<Rightarrow> string" where
  "ip_String ip =
     (if ip = [] then ''<nil>''
      else if length ip \<noteq> 4 \<and> length ip \<noteq> 16 then ''?'' @ hex_bytes ip
      else (case To4 ip of Some v4 \<Rightarrow> v4_text v4 | None \<Rightarrow> v6_text (groups ip)))"

subsection \<open>Host and port\<close>

text \<open>The text before and after the last occurrence of a byte.\<close>

fun cut_last :: "char \<Rightarrow> string \<Rightarrow> (string \<times> string) option" where
  "cut_last c [] = None"
| "cut_last c (x # s) =
     (case cut_last c s of
        Some (b, a) \<Rightarrow> Some (x # b, a)
      | None \<Rightarrow> if x = c then Some ([], s) else None)"

text \<open>Both results of \<open>SplitHostPort\<close>, or \<open>None\<close> for its error.\<close>

definition SplitHostPort :: "string \<Rightarrow> (string \<times> string) option" where
  "SplitHostPort hp =
     (case cut_last (CHR '':'') hp of
        None \<Rightarrow> None
      | Some (front, port) \<Rightarrow>
          if hd hp = CHR ''[''
          then
            (case Cut (tl hp) (CHR '']'') of
               (host, r, closed) \<Rightarrow>
                 if \<not> closed \<or> length r \<noteq> length port + 1 then None
                 else if CHR ''['' \<in> set host \<or> CHR ''['' \<in> set r \<or> CHR '']'' \<in> set r then None
                 else Some (host, port))
          else if CHR '':'' \<in> set front \<or> CHR ''['' \<in> set hp \<or> CHR '']'' \<in> set hp then None
          else Some (front, port))"

definition JoinHostPort :: "string \<Rightarrow> string \<Rightarrow> string" where
  "JoinHostPort host port =
     (if CHR '':'' \<in> set host then ''['' @ host @ '']:'' @ port else host @ '':'' @ port)"

end
