(* ===== verification/Kit_IP.thy ===== *)
theory Kit_IP
  imports Go_Net
begin

section \<open>Addresses: ip.go\<close>

text \<open>
  Models \<open>AnonymizeIP\<close> and \<open>IsValidIP\<close> of \<open>ip.go\<close> over the model of package \<open>net\<close>, with the
  lemmas that give address classes as ranges: a list of bytes is compared as the big-endian number
  it is, by the lexicographic order of \<open>List_Lexorder\<close>.
\<close>

subsection \<open>The functions\<close>

definition AnonymizeIP :: "string \<Rightarrow> string" where
  "AnonymizeIP ip =
     (if ip = '''' then ''''
      else
        (case ParseIP ip of
           None \<Rightarrow> ip
         | Some parsedIP \<Rightarrow>
             (case To4 parsedIP of
                Some v4 \<Rightarrow> ip_String (ip_Mask v4 (CIDRMask 24 32))
              | None \<Rightarrow> ip_String (ip_Mask parsedIP (CIDRMask 48 128)))))"

definition IsValidIP :: "string \<Rightarrow> bool" where
  "IsValidIP ipStr =
     (case ParseIP ipStr of
        None \<Rightarrow> False
      | Some ip \<Rightarrow> \<not> IsUnspecified ip \<and> \<not> IsPrivate ip \<and> \<not> IsLoopback ip \<and> \<not> IsMulticast ip
          \<and> \<not> IsLinkLocalUnicast ip \<and> \<not> IsLinkLocalMulticast ip)"

subsection \<open>Bytes\<close>

lemma bytes_up_to:
  assumes "list_all P [0..255]"
  shows "P (uint (b :: byte))"
proof -
  have "0 \<le> uint b" "uint b \<le> 255" using unsigned_less [of b, where 'a = int] by simp_all
  with assms show ?thesis by (simp add: list_all_iff)
qed

lemma byte_and_ff [simp]: "(b :: byte) AND 0xff = b" "(0xff :: byte) AND b = b"
proof -
  have "(0xff :: byte) = - 1" by simp
  then show "b AND 0xff = b" "(0xff :: byte) AND b = b" by (simp_all only: and.right_neutral and.left_neutral)
qed

lemma byte_le_ff [simp]: "(b :: byte) \<le> 0xff"
proof -
  have "(0xff :: byte) = - 1" by simp
  then show ?thesis by (simp only: word_n1_ge)
qed

lemma byte_masks:
  "(b :: byte) AND 0xf0 = 0x10 \<longleftrightarrow> 16 \<le> b \<and> b \<le> 31"
  "b AND 0xf0 = 0xe0 \<longleftrightarrow> 224 \<le> b \<and> b \<le> 239"
  "b AND 0xfe = 0xfc \<longleftrightarrow> 0xfc \<le> b \<and> b \<le> 0xfd"
  "b AND 0xc0 = 0x80 \<longleftrightarrow> 0x80 \<le> b \<and> b \<le> 0xbf"
  "b AND 0xc0 = 0x40 \<longleftrightarrow> 0x40 \<le> b \<and> b \<le> 0x7f"
proof -
  have "list_all (\<lambda>n. ((n AND 0xf0 = 0x10) = (16 \<le> n \<and> n \<le> 31)) \<and> ((n AND 0xf0 = 0xe0) = (224 \<le> n \<and> n \<le> 239))
     \<and> ((n AND 0xfe = 0xfc) = (0xfc \<le> n \<and> n \<le> 0xfd)) \<and> ((n AND 0xc0 = 0x80) = (0x80 \<le> n \<and> n \<le> 0xbf))
     \<and> ((n AND 0xc0 = 0x40) = (0x40 \<le> n \<and> n \<le> 0x7f))) [0..255 :: int]"
    by code_simp
  note masks = bytes_up_to [OF this, of b]
  show "b AND 0xf0 = 0x10 \<longleftrightarrow> 16 \<le> b \<and> b \<le> 31" "b AND 0xf0 = 0xe0 \<longleftrightarrow> 224 \<le> b \<and> b \<le> 239"
    "b AND 0xfe = 0xfc \<longleftrightarrow> 0xfc \<le> b \<and> b \<le> 0xfd" "b AND 0xc0 = 0x80 \<longleftrightarrow> 0x80 \<le> b \<and> b \<le> 0xbf"
    "b AND 0xc0 = 0x40 \<longleftrightarrow> 0x40 \<le> b \<and> b \<le> 0x7f"
    using masks by (simp_all add: word_uint_eq_iff word_le_def unsigned_and_eq)
qed

subsection \<open>Ranges\<close>

text \<open>The addresses from \<open>lo\<close> to \<open>hi\<close>; and those that begin with \<open>p\<close> and a byte between \<open>a\<close> and \<open>b\<close>.\<close>

definition in_range :: "ip \<times> ip \<Rightarrow> ip \<Rightarrow> bool" where
  "in_range r ip \<longleftrightarrow> length ip = length (fst r) \<and> fst r \<le> ip \<and> ip \<le> snd r"

definition block :: "byte list \<Rightarrow> byte \<Rightarrow> byte \<Rightarrow> nat \<Rightarrow> ip \<times> ip" where
  "block p a b n = (p @ a # replicate n 0, p @ b # replicate n 0xff)"

lemma zeros_le: "length xs = n \<Longrightarrow> replicate n (0 :: byte) \<le> xs"
  by (induction xs arbitrary: n) (auto simp: word_neq_0_conv)

lemma le_ones: "length xs = n \<Longrightarrow> xs \<le> replicate n (0xff :: byte)"
  by (induction xs arbitrary: n) (auto simp: order.strict_iff_order)

lemma in_block:
  "in_range (block p a b n) ip \<longleftrightarrow> length ip = length p + 1 + n
    \<and> take (length p) ip = p \<and> a \<le> ip ! length p \<and> ip ! length p \<le> b"
proof (induction p arbitrary: ip)
  case Nil
  show ?case
  proof (cases ip)
    case (Cons c cs)
    have "a \<le> c \<longleftrightarrow> a < c \<or> a = c" "c \<le> b \<longleftrightarrow> c < b \<or> c = b" by (simp_all only: le_less)
    then show ?thesis
      using zeros_le [of cs n] le_ones [of cs n] Cons by (cases "length cs = n") (simp_all add: in_range_def block_def)
  qed (simp add: in_range_def block_def)
next
  case IH: (Cons c p)
  show ?case
  proof (cases ip)
    case (Cons d ds)
    show ?thesis
    proof (cases "d = c")
      case True
      have "in_range (block (c # p) a b n) (c # ds) \<longleftrightarrow> in_range (block p a b n) ds"
        by (simp add: in_range_def block_def)
      with IH [of ds] True Cons show ?thesis by simp
    next
      case False
      moreover have "\<not> (c < d \<and> d < c)" using less_asym by blast
      ultimately show ?thesis using Cons by (auto simp: in_range_def block_def)
    qed
  qed (simp add: in_range_def block_def)
qed

definition in_ranges :: "(ip \<times> ip) list \<Rightarrow> ip \<Rightarrow> bool" where
  "in_ranges rs ip = list_ex (\<lambda>r. in_range r ip) rs"

lemma in_ranges_simps [simp]:
  "in_ranges [] ip = False" "in_ranges (r # rs) ip = (in_range r ip \<or> in_ranges rs ip)"
  by (simp_all add: in_ranges_def)

subsection \<open>The classes on the four and the sixteen bytes\<close>

lemma To4_length: "To4 ip = Some v4 \<Longrightarrow> length v4 = 4"
  by (auto simp: To4_def split: if_splits)

lemma To4_bytes:
  assumes "To4 ip = Some v4"
  obtains a b c d where "v4 = [a, b, c, d]"
  using To4_length [OF assms] by (auto simp: length_Suc_conv numeral_eq_Suc)

lemma sixteen:
  assumes "length (ip :: 'a list) = 16"
  obtains a0 a1 a2 a3 a4 a5 a6 a7 a8 a9 a10 a11 a12 a13 a14 a15 where
    "ip = [a0, a1, a2, a3, a4, a5, a6, a7, a8, a9, a10, a11, a12, a13, a14, a15]"
proof -
  have "ip = map ((!) ip) [0..<16]" using assms map_nth [of ip] by simp
  then show thesis by (intro that) (simp add: upt_rec)
qed

lemma byte_le_1: "(b :: byte) \<le> 1 \<longleftrightarrow> b = 0 \<or> b = 1"
proof -
  have "list_all (\<lambda>n. (n \<le> 1) = (n = 0 \<or> n = 1)) [0..255 :: int]" by code_simp
  from bytes_up_to [OF this, of b] show ?thesis by (simp add: word_uint_eq_iff word_le_def)
qed

lemma byte_eq_between: "(a :: byte) \<le> b \<and> b \<le> a \<longleftrightarrow> b = a"
  by auto

lemma To4_cases:
  assumes "To4 ip = Some v4"
  shows "length ip = 4 \<and> ip = v4 \<or> length ip = 16 \<and> ip = v4InV6Prefix @ v4"
  using assms by (auto simp: To4_def split: if_splits) (metis append_take_drop_id)

lemma unspecified4: "To4 ip = Some v4 \<Longrightarrow> IsUnspecified ip \<longleftrightarrow> v4 = [0, 0, 0, 0]"
proof -
  assume t: "To4 ip = Some v4"
  have c: "take 12 IPv6unspecified \<noteq> v4InV6Prefix" "length v4InV6Prefix = 12" "length IPv4zero = 16"
    "length IPv6unspecified = 16"
    by code_simp+
  then have "IPv6unspecified \<noteq> v4InV6Prefix @ v4" by (metis append_eq_conv_conj)
  note c = this c
  have z: "take 12 IPv4zero = v4InV6Prefix" "drop 12 IPv4zero = [0, 0, 0, 0]"
    using c by (simp_all add: IPv4zero_def)
  from To4_cases [OF t] show ?thesis
  proof
    assume "length ip = 4 \<and> ip = v4"
    then show ?thesis using c z To4_length [OF t] by (simp add: IsUnspecified_def ip_Equal_def)
  next
    assume "length ip = 16 \<and> ip = v4InV6Prefix @ v4"
    then show ?thesis using c by (auto simp: IsUnspecified_def ip_Equal_def IPv4zero_def)
  qed
qed

lemma unspecified6:
  assumes "To4 ip = None"
  shows "IsUnspecified ip \<longleftrightarrow> ip = IPv6unspecified" and "ip_Equal ip IPv6loopback \<longleftrightarrow> ip = IPv6loopback"
proof -
  have "length ip \<noteq> 4" "ip \<noteq> IPv4zero" using assms by (auto simp: To4_def IPv4zero_def v4InV6Prefix_def)
  moreover have "length IPv4zero = 16" "length IPv6unspecified = 16" "length IPv6loopback = 16" by code_simp+
  ultimately show "IsUnspecified ip \<longleftrightarrow> ip = IPv6unspecified" "ip_Equal ip IPv6loopback \<longleftrightarrow> ip = IPv6loopback"
    by (auto simp: IsUnspecified_def ip_Equal_def)
qed

text \<open>The ranges \<open>IsValidIP\<close> leaves out.\<close>

definition reserved4 :: "(ip \<times> ip) list" where
  "reserved4 = [([0, 0, 0, 0], [0, 0, 0, 0]), ([10, 0, 0, 0], [10, 255, 255, 255]),
     ([127, 0, 0, 0], [127, 255, 255, 255]), ([169, 254, 0, 0], [169, 254, 255, 255]),
     ([172, 16, 0, 0], [172, 31, 255, 255]), ([192, 168, 0, 0], [192, 168, 255, 255]),
     ([224, 0, 0, 0], [239, 255, 255, 255])]"

definition reserved6 :: "(ip \<times> ip) list" where
  "reserved6 = [block (replicate 15 0) 0 1 0, block [] 0xfc 0xfd 15, block [0xfe] 0x80 0xbf 14, block [] 0xff 0xff 15]"

lemma reserved4_blocks:
  "reserved4 = [block [0, 0, 0] 0 0 0, block [] 10 10 3, block [] 127 127 3, block [169] 254 254 2,
     block [172] 16 31 2, block [192] 168 168 2, block [] 224 239 3]"
  by (simp add: reserved4_def block_def numeral_eq_Suc)

lemma classes4:
  assumes "To4 ip = Some v4"
  shows "IsUnspecified ip \<or> IsPrivate ip \<or> IsLoopback ip \<or> IsMulticast ip \<or> IsLinkLocalUnicast ip
    \<or> IsLinkLocalMulticast ip \<longleftrightarrow> in_ranges reserved4 v4"
proof -
  obtain a b c d where v: "v4 = [a, b, c, d]" using To4_bytes [OF assms] .
  have m: "a = 224 \<or> (224 \<le> a \<and> a \<le> 239) \<longleftrightarrow> 224 \<le> a \<and> a \<le> 239" by auto
  have "in_ranges reserved4 v4 \<longleftrightarrow> v4 = [0, 0, 0, 0] \<or> a = 10 \<or> a = 127 \<or> a = 169 \<and> b = 254
      \<or> a = 172 \<and> 16 \<le> b \<and> b \<le> 31 \<or> a = 192 \<and> b = 168 \<or> 224 \<le> a \<and> a \<le> 239"
    by (simp add: v reserved4_blocks in_block byte_eq_between)
  then show ?thesis
    using m unfolding unspecified4 [OF assms] IsPrivate_def IsLoopback_def IsMulticast_def IsLinkLocalUnicast_def
      IsLinkLocalMulticast_def assms v by (simp add: byte_masks) blast
qed

lemma classes6:
  assumes "To4 ip = None" "length ip = 16"
  shows "IsUnspecified ip \<or> IsPrivate ip \<or> IsLoopback ip \<or> IsMulticast ip \<or> IsLinkLocalUnicast ip
    \<or> IsLinkLocalMulticast ip \<longleftrightarrow> in_ranges reserved6 ip"
proof -
  obtain a0 a1 a2 a3 a4 a5 a6 a7 a8 a9 a10 a11 a12 a13 a14 a15 where
    v: "ip = [a0, a1, a2, a3, a4, a5, a6, a7, a8, a9, a10, a11, a12, a13, a14, a15]"
    using sixteen [OF assms(2)] .
  have z: "ip = IPv6unspecified \<or> ip = IPv6loopback \<longleftrightarrow> in_range (block (replicate 15 0) 0 1 0) ip"
    by (simp add: v in_block byte_le_1 IPv6unspecified_def IPv6loopback_def numeral_eq_Suc) blast
  have ff: "0xff \<le> a0 \<longleftrightarrow> a0 = 0xff" by (metis byte_le_ff order_antisym order_refl)
  have "in_ranges reserved6 ip \<longleftrightarrow> (ip = IPv6unspecified \<or> ip = IPv6loopback) \<or> 0xfc \<le> a0 \<and> a0 \<le> 0xfd
      \<or> a0 = 0xfe \<and> 0x80 \<le> a1 \<and> a1 \<le> 0xbf \<or> a0 = 0xff"
    using ff unfolding z by (simp add: v reserved6_def in_block byte_eq_between)
  then show ?thesis
    unfolding unspecified6 [OF assms(1)] IsPrivate_def IsLoopback_def IsMulticast_def IsLinkLocalUnicast_def
      IsLinkLocalMulticast_def assms(1) by (simp add: v byte_masks) blast
qed

subsection \<open>Printing and parsing back\<close>

lemma v4_fields_decimal:
  "n \<le> 255 \<Longrightarrow> v4_fields fs 0 0 (decimal n @ r) = v4_fields fs n (length (decimal n)) r"
proof (induction n arbitrary: r rule: decimal.induct)
  case (1 n)
  show ?case
  proof (cases "n < 10")
    case True
    then show ?thesis
      by (subst (1 2) decimal.simps) (simp add: digit_char_props of_char_digit)
  next
    case False
    have dec: "decimal n = decimal (n div 10) @ [digit_char (n mod 10)]"
      using False by (subst decimal.simps) simp
    have "0 < n div 10" using False by (simp add: div_greater_zero_iff)
    then have ne: "\<not> (length (decimal (n div 10)) = 1 \<and> n div 10 = 0)" by simp
    have "v4_fields fs 0 0 (decimal n @ r)
        = v4_fields fs (n div 10) (length (decimal (n div 10))) (digit_char (n mod 10) # r)"
      using 1 False dec by simp
    also have "\<dots> = v4_fields fs n (Suc (length (decimal (n div 10)))) r"
      using ne \<open>n \<le> 255\<close> by (auto simp: digit_char_props of_char_digit Let_def)
    finally show ?thesis by (simp add: dec)
  qed
qed

lemma v4_fields_text:
  assumes "length ip = 4"
  shows "v4_fields [] 0 0 (v4_text ip) = Some ip"
proof -
  obtain a b c d where v: "ip = [a, b, c, d]"
    using assms by (auto simp: length_Suc_conv numeral_eq_Suc)
  have le: "unat (x :: byte) \<le> 255" for x using unsigned_less [of x, where 'a = nat] by simp
  have nd: "\<not> is_digit (CHR ''.'')" by code_simp
  show ?thesis
    by (simp add: v v4_text_def v4_fields_decimal le nd v4_fields_decimal [where r = "[]", simplified])
qed

lemma digits_no_sep:
  "c \<in> set (decimal n) \<Longrightarrow> c \<noteq> CHR ''.'' \<and> c \<noteq> CHR '':'' \<and> c \<noteq> CHR ''%''"
  using decimal_digits [of n] by (auto simp: is_digit_def Let_def)

lemma ParseIP_v4_text:
  assumes "length ip = 4"
  shows "ParseIP (v4_text ip) = Some (v4InV6Prefix @ ip)"
proof -
  obtain a b c d where v: "ip = [a, b, c, d]"
    using assms by (auto simp: length_Suc_conv numeral_eq_Suc)
  let ?t = "CHR ''.'' # decimal (unat b) @ CHR ''.'' # decimal (unat c) @ CHR ''.'' # decimal (unat d)"
  have t: "v4_text ip = decimal (unat a) @ ?t" by (simp add: v v4_text_def)
  have "CHR ''%'' \<notin> set (v4_text ip)"
    unfolding t using digits_no_sep by auto
  moreover have "dropWhile (\<lambda>c. c \<noteq> CHR ''.'' \<and> c \<noteq> CHR '':'') (v4_text ip) = ?t"
    unfolding t using digits_no_sep by (subst dropWhile_append2) auto
  ultimately show ?thesis
    using assms by (simp add: ParseIP_def ParseAddr_def v4_fields_text As16_def)
qed

lemma hex_val_char: "d < 16 \<Longrightarrow> hex_val (hex_char d) = Some d"
  by (auto simp: hex_val_def hex_char_def Let_def)

lemma hex_text_length: "n < 65536 \<Longrightarrow> length (hex_text n) \<le> 4 \<and> (n < 4096 \<longrightarrow> length (hex_text n) \<le> 3)"
proof -
  have one: "n < 16 \<Longrightarrow> length (hex_text n) = 1" for n by (subst hex_text.simps) simp
  have step: "16 \<le> n \<Longrightarrow> length (hex_text n) = Suc (length (hex_text (n div 16)))" for n
    by (subst hex_text.simps) simp
  have two: "n < 256 \<Longrightarrow> length (hex_text n) \<le> 2" for n using one [of n] one [of "n div 16"] step [of n] by force
  have three: "n < 4096 \<Longrightarrow> length (hex_text n) \<le> 3" for n using one [of n] two [of "n div 16"] step [of n] by force
  assume "n < 65536"
  then show ?thesis using one [of n] three [of "n div 16"] three [of n] step [of n] by force
qed

lemma hex_group_text:
  "n < 65536 \<Longrightarrow> hex_group 0 0 (hex_text n @ r) = hex_group (length (hex_text n)) n r"
proof (induction n arbitrary: r rule: hex_text.induct)
  case (1 n)
  show ?case
  proof (cases "n < 16")
    case True
    then show ?thesis by (subst (1 2) hex_text.simps) (simp add: hex_val_char)
  next
    case False
    have dec: "hex_text n = hex_text (n div 16) @ [hex_char (n mod 16)]"
      using False by (subst hex_text.simps) simp
    have "n div 16 < 4096" using 1 by simp
    then have l: "length (hex_text (n div 16)) \<le> 3" using hex_text_length by simp
    have "hex_group 0 0 (hex_text n @ r)
        = hex_group (length (hex_text (n div 16))) (n div 16) (hex_char (n mod 16) # r)"
      using 1 False dec by simp
    also have "\<dots> = hex_group (Suc (length (hex_text (n div 16)))) n r"
      using l \<open>n < 65536\<close> by (auto simp: hex_val_char Let_def)
    finally show ?thesis by (simp add: dec)
  qed
qed

text \<open>The four shapes an anonymized IPv6 address prints as, and their parse.\<close>

lemma v6_loop_group:
  assumes "n < 65536" "length bs < 14" "ell = None"
  shows "v6_loop bs ell (hex_text n @ CHR '':'' # c # r) =
    (if c = CHR '':'' \<and> r = [] then Some (bs @ [of_nat (n div 256), of_nat n], Some (length bs + 2), [])
     else if c = CHR '':'' then v6_loop (bs @ [of_nat (n div 256), of_nat n]) (Some (length bs + 2)) r
     else v6_loop (bs @ [of_nat (n div 256), of_nat n]) ell (c # r))"
proof -
  have "hex_val (CHR '':'') = None" by code_simp
  then have "hex_group 0 0 (hex_text n @ CHR '':'' # c # r) = Some (length (hex_text n), n, CHR '':'' # c # r)"
    using assms(1) by (simp add: hex_group_text)
  moreover have "length (hex_text n) \<noteq> 0" by (subst hex_text.simps) simp
  ultimately show ?thesis using assms(2,3) by (subst v6_loop.simps) (simp add: Let_def)
qed

lemma hex_text_hd: "n < 65536 \<Longrightarrow> \<exists>c r. hex_text n = c # r \<and> hex_val c \<noteq> None"
proof (induction n rule: hex_text.induct)
  case (1 n)
  show ?case
  proof (cases "n < 16")
    case True
    then show ?thesis by (subst hex_text.simps) (simp add: hex_val_char)
  next
    case False
    have "n div 16 < 65536" using 1(2) by simp
    with 1(1) [OF False] obtain c r where "hex_text (n div 16) = c # r" "hex_val c \<noteq> None" by blast
    then show ?thesis using False by (subst hex_text.simps) simp
  qed
qed

lemma hex_text_chars: "c \<in> set (hex_text n) \<Longrightarrow> hex_val c \<noteq> None"
proof (induction n rule: hex_text.induct)
  case (1 n)
  then show ?case by (subst (asm) (2) hex_text.simps) (auto simp: hex_val_char split: if_splits)
qed

lemma hex_not_sep: "hex_val c \<noteq> None \<Longrightarrow> c \<noteq> CHR ''.'' \<and> c \<noteq> CHR '':'' \<and> c \<noteq> CHR ''%''"
  by (auto simp: hex_val_def Let_def)

text \<open>The groups before the ellipsis.\<close>

definition prefix_bytes :: "nat list \<Rightarrow> byte list" where
  "prefix_bytes gs = concat (map (\<lambda>g. [of_nat (g div 256), of_nat g]) gs)"

lemma v6_loop_prefix:
  assumes "gs \<noteq> []" "\<forall>g \<in> set gs. g < 65536" "length bs + 2 * length gs < 16"
  shows "v6_loop bs None (Join (map hex_text gs) '':'' @ ''::'') =
    Some (bs @ prefix_bytes gs, Some (length bs + 2 * length gs), [])"
  using assms
proof (induction gs arbitrary: bs rule: list_nonempty_induct)
  case (single g)
  then show ?case using v6_loop_group [of g bs None "CHR '':''" "[]"] by (simp add: prefix_bytes_def)
next
  case (cons g gs)
  obtain g' gs' where gs: "gs = g' # gs'" using cons(1) by (cases gs) auto
  have "g' < 65536" using cons gs by simp
  then obtain c r where "hex_text g' = c # r" "hex_val c \<noteq> None" using hex_text_hd by blast
  then obtain c' r' where j: "Join (map hex_text gs) '':'' @ ''::'' = c' # r'" "c' \<noteq> CHR '':''"
    using hex_not_sep by (cases gs') (auto simp: gs)
  have e: "Join (map hex_text (g # gs)) '':'' @ ''::'' = hex_text g @ CHR '':'' # c' # r'"
    using j by (simp add: gs)
  have "v6_loop (bs @ [of_nat (g div 256), of_nat g]) None (c' # r')
      = Some ((bs @ [of_nat (g div 256), of_nat g]) @ prefix_bytes gs, Some (length bs + 2 + 2 * length gs), [])"
    using cons.IH [of "bs @ [of_nat (g div 256), of_nat g]"] cons.prems cons.hyps j by (simp add: gs)
  then show ?case
    unfolding e using v6_loop_group [of g bs None c' r'] cons.prems j(2) by (simp add: prefix_bytes_def gs)
qed

lemma dropWhile_hit: "c \<in> set s \<Longrightarrow> d \<notin> set s \<Longrightarrow> \<exists>r. dropWhile (\<lambda>x. x \<noteq> d \<and> x \<noteq> c) s = c # r"
  by (induction s) auto

lemma ParseIP_prefix:
  assumes "\<forall>g \<in> set gs. g < 65536" "length gs < 8"
  shows "ParseIP (Join (map hex_text gs) '':'' @ ''::'') = Some (prefix_bytes gs @ replicate (16 - 2 * length gs) 0)"
proof (cases "gs = []")
  case True
  have "ParseIP ''::'' = Some (replicate 16 0)" by code_simp
  with True show ?thesis by (simp add: prefix_bytes_def)
next
  case False
  let ?s = "Join (map hex_text gs) '':'' @ ''::''"
  have len: "length (prefix_bytes gs) = 2 * length gs" by (simp add: prefix_bytes_def length_concat sum_list_triv o_def)
  have chars: "c \<in> set ?s \<Longrightarrow> c = CHR '':'' \<or> hex_val c \<noteq> None" for c
    using set_Join_subset [of "map hex_text gs" "'':''"] hex_text_chars by fastforce
  then have pct: "CHR ''%'' \<notin> set ?s" using hex_not_sep by blast
  have dot: "CHR ''.'' \<notin> set ?s" using chars hex_not_sep by blast
  obtain r where r: "dropWhile (\<lambda>c. c \<noteq> CHR ''.'' \<and> c \<noteq> CHR '':'') ?s = CHR '':'' # r"
    using dropWhile_hit [of "CHR '':''" ?s "CHR ''.''"] dot by auto
  obtain g gs' where gs: "gs = g # gs'" using False by (cases gs) auto
  obtain c r' where "hex_text g = c # r'" "hex_val c \<noteq> None" using hex_text_hd assms(1) gs by fastforce
  then have lead: "take 2 ?s \<noteq> ''::''" using hex_not_sep [of c] by (cases gs') (auto simp: gs)
  have "v6_loop [] None ?s = Some (prefix_bytes gs, Some (2 * length gs), [])"
    using v6_loop_prefix [OF False assms(1), of "[]"] assms(2) by simp
  with lead have "parse_v6 ?s = Some (prefix_bytes gs @ replicate (16 - 2 * length gs) 0)"
    using len assms(2) by (simp add: parse_v6_def Let_def)
  then show ?thesis
    using pct r len assms(2) by (simp add: ParseIP_def ParseAddr_def As16_def)
qed

text \<open>A parsed address has sixteen bytes.\<close>

lemma v4_fields_length: "v4_fields fs val dig s = Some x \<Longrightarrow> length fs \<le> 3 \<Longrightarrow> length x = 4"
  by (induction fs val dig s rule: v4_fields.induct) (auto simp: Let_def split: if_splits)

lemma v6_loop_length:
  "v6_loop bs ell s = Some (bs', ell', s') \<Longrightarrow> even (length bs) \<Longrightarrow> length bs \<le> 16 \<Longrightarrow> even (length bs') \<and> length bs' \<le> 16"
proof (induction "16 - length bs" arbitrary: bs ell s rule: less_induct)
  case less
  show ?case
  proof (cases "16 \<le> length bs")
    case True
    then show ?thesis using less(2-4) by (subst (asm) v6_loop.simps) simp
  next
    case False
    with less(3,4) have l2: "length bs + 2 \<le> 16" by presburger
    have IH: "even (length bs') \<and> length bs' \<le> 16"
      if "v6_loop (bs @ [x, y]) ell2 s2 = Some (bs', ell', s')" for x y ell2 s2
      using less(1) [OF _ that] l2 less(3) by simp
    from l2 have "length bs \<le> 14" by simp
    then show ?thesis using less(2-4) False
      by (subst (asm) v6_loop.simps)
        (auto simp: Let_def split: if_splits option.splits list.splits dest!: IH v4_fields_length)
  qed
qed

lemma parse_v6_length: "parse_v6 s = Some x \<Longrightarrow> length x = 16"
  by (auto simp: parse_v6_def Let_def dest!: v6_loop_length split: if_splits option.splits prod.splits list.splits)

lemma ParseIP_length: "ParseIP s = Some ip \<Longrightarrow> length ip = 16"
proof -
  have p: "length v4InV6Prefix = 12" by code_simp
  assume "ParseIP s = Some ip"
  then obtain a where a: "ParseAddr s = Some a" "ip = As16 a" by (auto simp: ParseIP_def)
  then have "length a = 4 \<or> length a = 16"
    by (auto simp: ParseAddr_def dest: v4_fields_length parse_v6_length split: if_splits list.splits)
  with a p show ?thesis by (auto simp: As16_def)
qed

subsection \<open>Properties\<close>

lemma v6_text_prefix:
  assumes "gs = [g0, g1, g2, 0, 0, 0, 0, 0]"
  shows "\<exists>k \<le> 3. v6_text gs = Join (map hex_text (take k gs)) '':'' @ ''::'' \<and> drop k gs = replicate (8 - k) 0"
proof -
  define k where "k = (if g2 \<noteq> 0 then 3 else if g1 \<noteq> 0 then 2 else if g0 \<noteq> 0 then 1 else 0 :: nat)"
  have "zero_run gs = Some (k, 8)"
    by (simp add: zero_run_def assms k_def upt_rec Let_def)
  then have "v6_text gs = Join (map hex_text (take k gs)) '':'' @ ''::''"
    by (simp add: v6_text_def assms)
  moreover have "drop k gs = replicate (8 - k) 0" by (simp add: assms k_def numeral_eq_Suc)
  moreover have "k \<le> 3" by (simp add: k_def)
  ultimately show ?thesis by blast
qed

lemma prefix_bytes_groups: "even (length bs) \<Longrightarrow> prefix_bytes (groups bs) = bs"
proof (induction bs rule: groups.induct)
  case (1 a b bs)
  have "unat b < 256" using unsigned_less [of b, where 'a = nat] by simp
  then have "(unat a * 256 + unat b) div 256 = unat a" by simp
  moreover have "word_of_nat (unat a * 256 + unat b) = b"
  proof -
    have z: "(256 :: byte) = 0" by simp
    have "a * 256 = 0" unfolding z by simp
    then show ?thesis by simp
  qed
  ultimately show ?case using 1 by (simp add: prefix_bytes_def)
qed (simp_all add: prefix_bytes_def)

lemma groups_less: "g \<in> set (groups bs) \<Longrightarrow> g < 65536"
proof (induction bs rule: groups.induct)
  case (1 a b bs)
  have "unat a < 256" "unat b < 256"
    using unsigned_less [of a, where 'a = nat] unsigned_less [of b, where 'a = nat] by simp_all
  with 1 show ?case by auto
qed simp_all

lemma prefix_bytes_append: "prefix_bytes (xs @ ys) = prefix_bytes xs @ prefix_bytes ys"
  by (simp add: prefix_bytes_def)

lemma prefix_bytes_zeros: "prefix_bytes (replicate n 0) = replicate (2 * n) 0"
  by (induction n) (simp_all add: prefix_bytes_def)

lemma ParseIP_masked6:
  assumes "m = take 6 m @ replicate 10 0" "length m = 16"
  shows "ParseIP (v6_text (groups m)) = Some m"
proof -
  obtain a0 a1 a2 a3 a4 a5 a6 a7 a8 a9 a10 a11 a12 a13 a14 a15 where
    v: "m = [a0, a1, a2, a3, a4, a5, a6, a7, a8, a9, a10, a11, a12, a13, a14, a15]"
    using sixteen [OF assms(2)] .
  have "groups m = [unat a0 * 256 + unat a1, unat a2 * 256 + unat a3, unat a4 * 256 + unat a5, 0, 0, 0, 0, 0]"
    using assms(1) by (simp add: v numeral_eq_Suc)
  from v6_text_prefix [OF this] obtain k where k: "k \<le> 3"
    "v6_text (groups m) = Join (map hex_text (take k (groups m))) '':'' @ ''::''"
    "drop k (groups m) = replicate (8 - k) 0" by blast
  have len: "length (take k (groups m)) = k" using k(1) by (simp add: v)
  have "ParseIP (v6_text (groups m)) = Some (prefix_bytes (take k (groups m)) @ replicate (16 - 2 * k) 0)"
    unfolding k(2) using ParseIP_prefix [of "take k (groups m)"] len k(1) groups_less [of _ m]
    by (auto dest: in_set_takeD)
  also have "replicate (16 - 2 * k) 0 = prefix_bytes (drop k (groups m))"
    by (simp add: k(3) prefix_bytes_zeros diff_mult_distrib2)
  also have "prefix_bytes (take k (groups m)) @ prefix_bytes (drop k (groups m)) = m"
    using prefix_bytes_groups [of m] assms(2) by (simp flip: prefix_bytes_append)
  finally show ?thesis .
qed

lemma mask_eqs: "CIDRMask 24 32 = [0xff, 0xff, 0xff, 0]" "CIDRMask 48 128 = [0xff, 0xff, 0xff, 0xff, 0xff, 0xff, 0, 0, 0, 0, 0, 0, 0, 0, 0, 0]"
  "replicate 10 0 = [0, 0, 0, 0, 0, 0, 0, 0, 0, 0 :: byte]"
  by code_simp+

lemma masked4:
  assumes "length v4 = 4"
  shows "ip_Mask v4 (CIDRMask 24 32) = take 3 v4 @ [0]"
proof -
  obtain a b c d where "v4 = [a, b, c, d]" using assms by (auto simp: length_Suc_conv numeral_eq_Suc)
  then show ?thesis by (simp add: ip_Mask_def mask_eqs Let_def)
qed

lemma masked6:
  assumes "length ip = 16"
  shows "ip_Mask ip (CIDRMask 48 128) = take 6 ip @ replicate 10 0"
proof -
  obtain a0 a1 a2 a3 a4 a5 a6 a7 a8 a9 a10 a11 a12 a13 a14 a15 where
    "ip = [a0, a1, a2, a3, a4, a5, a6, a7, a8, a9, a10, a11, a12, a13, a14, a15]"
    using sixteen [OF assms] .
  then show ?thesis by (simp add: ip_Mask_def mask_eqs Let_def)
qed

text \<open>The address as it is left: the first three of four bytes, or the first six of sixteen.\<close>

definition anonymous :: "ip \<Rightarrow> ip" where
  "anonymous ip =
     (case To4 ip of Some v4 \<Rightarrow> v4InV6Prefix @ take 3 v4 @ [0] | None \<Rightarrow> take 6 ip @ replicate 10 0)"

lemma To4_anonymous:
  assumes "length ip = 16"
  shows "To4 (anonymous ip) = map_option (\<lambda>v4. take 3 v4 @ [0]) (To4 ip)" and "length (anonymous ip) = 16"
proof -
  have p: "length v4InV6Prefix = 12" "v4InV6Prefix ! 11 = 0xff" by code_simp+
  have z: "take 12 (take 6 ip @ replicate 10 0) \<noteq> v4InV6Prefix"
  proof
    assume "take 12 (take 6 ip @ replicate 10 0) = v4InV6Prefix"
    then have "(take 12 (take 6 ip @ replicate 10 0)) ! 11 = (0xff :: byte)" using p by simp
    then show False using assms by (simp add: nth_append)
  qed
  show "length (anonymous ip) = 16"
    using assms p by (auto simp: anonymous_def dest: To4_length split: option.splits)
  show "To4 (anonymous ip) = map_option (\<lambda>v4. take 3 v4 @ [0]) (To4 ip)"
  proof (cases "To4 ip")
    case None
    then show ?thesis using z assms by (simp add: anonymous_def To4_def)
  next
    case (Some v4)
    then show ?thesis using p To4_length [OF Some] by (simp add: anonymous_def To4_def [of "v4InV6Prefix @ _"])
  qed
qed

lemma AnonymizeIP_ip:
  assumes "ParseIP s = Some ip"
  shows "AnonymizeIP s = (case To4 ip of Some v4 \<Rightarrow> v4_text (take 3 v4 @ [0])
      | None \<Rightarrow> v6_text (groups (take 6 ip @ replicate 10 0)))"
    and "ParseIP (AnonymizeIP s) = Some (anonymous ip)"
proof -
  have len: "length ip = 16" using ParseIP_length [OF assms] .
  have "s \<noteq> ''''" using assms by (auto simp: ParseIP_def ParseAddr_def)
  have p: "length v4InV6Prefix = 12" by code_simp
  note t = To4_anonymous [OF len]
  show out: "AnonymizeIP s = (case To4 ip of Some v4 \<Rightarrow> v4_text (take 3 v4 @ [0])
      | None \<Rightarrow> v6_text (groups (take 6 ip @ replicate 10 0)))"
  proof (cases "To4 ip")
    case None
    then have "To4 (take 6 ip @ replicate 10 0) = None" using t(1) by (simp add: anonymous_def)
    with None show ?thesis
      using \<open>s \<noteq> ''''\<close> assms len by (simp add: AnonymizeIP_def masked6 ip_String_def)
  next
    case (Some v4)
    then show ?thesis
      using \<open>s \<noteq> ''''\<close> assms To4_length [OF Some] by (simp add: AnonymizeIP_def masked4 ip_String_def To4_def)
  qed
  show "ParseIP (AnonymizeIP s) = Some (anonymous ip)"
  proof (cases "To4 ip")
    case None
    then show ?thesis using out len ParseIP_masked6 [of "take 6 ip @ replicate 10 0"] by (simp add: anonymous_def)
  next
    case (Some v4)
    then show ?thesis using out To4_length [OF Some] by (simp add: anonymous_def ParseIP_v4_text)
  qed
qed

text \<open>
  C33: \<open>AnonymizeIP\<close> keeps a network and nothing else. A string that is no address comes back as it
  is; otherwise the result is again an address, of the same family, whose host bits are all zero: the
  last byte of an IPv4 address, everything but the first six bytes of an IPv6 address. It depends on
  nothing but the bytes kept, and anonymizing it again changes nothing.
\<close>

theorem AnonymizeIP_masks:
  "case ParseIP s of
     None \<Rightarrow> AnonymizeIP s = s
   | Some ip \<Rightarrow>
       ParseIP (AnonymizeIP s) = Some (case To4 ip of
           Some v4 \<Rightarrow> v4InV6Prefix @ take 3 v4 @ [0]
         | None \<Rightarrow> take 6 ip @ replicate 10 0)
       \<and> AnonymizeIP (AnonymizeIP s) = AnonymizeIP s
       \<and> AnonymizeIP s = (case To4 ip of
           Some v4 \<Rightarrow> v4_text (take 3 v4 @ [0])
         | None \<Rightarrow> v6_text (groups (take 6 ip @ replicate 10 0)))"
proof (cases "ParseIP s")
  case None
  then show ?thesis by (simp add: AnonymizeIP_def)
next
  case (Some ip)
  have len: "length ip = 16" using ParseIP_length [OF Some] .
  note a = AnonymizeIP_ip [OF Some]
  have "AnonymizeIP (AnonymizeIP s) = AnonymizeIP s"
    unfolding AnonymizeIP_ip(1) [OF a(2)] To4_anonymous(1) [OF len]
    using a(1) len by (cases "To4 ip") (simp_all add: anonymous_def To4_length)
  with Some a show ?thesis by (simp add: anonymous_def)
qed

text \<open>\<open>IsValidIP\<close> accepts exactly the addresses outside the ranges its comment lists.\<close>

lemma IsValidIP_ranges:
  "IsValidIP s \<longleftrightarrow>
     (case ParseIP s of
        None \<Rightarrow> False
      | Some ip \<Rightarrow>
          (case To4 ip of Some v4 \<Rightarrow> \<not> in_ranges reserved4 v4 | None \<Rightarrow> \<not> in_ranges reserved6 ip))"
proof (cases "ParseIP s")
  case (Some ip)
  then show ?thesis
    using classes4 [of ip] classes6 [of ip] ParseIP_length [OF Some]
    by (cases "To4 ip") (simp_all add: IsValidIP_def, blast+)
qed (simp add: IsValidIP_def)

end
