(* ===== verification/Dial_Guard.thy ===== *)
theory Dial_Guard
  imports Kit_IP Go_Errors
begin

section \<open>The dial guard\<close>

text \<open>
  Models \<open>httpclient/dialguard.go\<close>: the networks refused, the test of an address, and the control
  callback of the dialer. The test is shown to be membership in a table of ranges.
\<close>

subsection \<open>The code\<close>

text \<open>\<open>mustCIDR\<close> panics on a literal that does not parse; the networks are built when the package loads.\<close>

definition mustCIDR :: "string \<Rightarrow> (goerror, ipnet) gores" where
  "mustCIDR s = (case ParseCIDR s of None \<Rightarrow> Panic | Some n \<Rightarrow> Ok n)"

fun build_nets :: "string list \<Rightarrow> (goerror, ipnet list) gores" where
  "build_nets [] = Ok []"
| "build_nets (s # ss) = gobind (mustCIDR s) (\<lambda>n. gobind (build_nets ss) (\<lambda>ns. Ok (n # ns)))"

definition disallowedNets :: "(goerror, ipnet list) gores" where
  "disallowedNets = build_nets
     [''64:ff9b::/96'', ''64:ff9b:1::/48'', ''2002::/16'', ''2001::/32'', ''::/96'', ''100.64.0.0/10'',
      ''0.0.0.0/8'', ''100.100.100.200/32'']"

definition isDisallowedIP :: "ipnet list \<Rightarrow> ip \<Rightarrow> bool" where
  "isDisallowedIP nets ip =
     (let norm = (case To4 ip of Some v4 \<Rightarrow> v4 | None \<Rightarrow> ip) in
      if IsLoopback norm \<or> IsPrivate norm \<or> IsLinkLocalUnicast norm \<or> IsUnspecified norm \<or> IsMulticast norm
      then True
      else list_ex (\<lambda>n. net_Contains n norm) nets)"

definition malformed_address :: goerror where
  "malformed_address = GoError (OtherError 0) [GoError (OtherError 1) []]"

definition disallowed_address :: goerror where
  "disallowed_address = GoError (OtherError 2) []"

text \<open>The network and the raw connection are not looked at.\<close>

definition dialGuard :: "ipnet list \<Rightarrow> string \<Rightarrow> goerror option" where
  "dialGuard nets address =
     (case SplitHostPort address of
        None \<Rightarrow> Some malformed_address
      | Some (host, port) \<Rightarrow>
          (case ParseIP host of
             None \<Rightarrow> Some disallowed_address
           | Some ip \<Rightarrow> if isDisallowedIP nets ip then Some disallowed_address else None))"

subsection \<open>As ranges\<close>

definition disallowed4 :: "(ip \<times> ip) list" where
  "disallowed4 = [([0, 0, 0, 0], [0, 255, 255, 255]), ([10, 0, 0, 0], [10, 255, 255, 255]),
     ([100, 64, 0, 0], [100, 127, 255, 255]), ([127, 0, 0, 0], [127, 255, 255, 255]),
     ([169, 254, 0, 0], [169, 254, 255, 255]), ([172, 16, 0, 0], [172, 31, 255, 255]),
     ([192, 168, 0, 0], [192, 168, 255, 255]), ([224, 0, 0, 0], [239, 255, 255, 255])]"

definition disallowed6 :: "(ip \<times> ip) list" where
  "disallowed6 = [block (replicate 11 0) 0 0 4,
     block [0, 0x64, 0xff, 0x9b, 0, 0, 0, 0, 0, 0, 0] 0 0 4, block [0, 0x64, 0xff, 0x9b, 0] 1 1 10,
     block [0x20, 0x01, 0] 0 0 12, block [0x20] 0x02 0x02 14,
     block [] 0xfc 0xfd 15, block [0xfe] 0x80 0xbf 14, block [] 0xff 0xff 15]"

lemma disallowed4_blocks:
  "disallowed4 = [block [] 0 0 3, block [] 10 10 3, block [100] 64 127 2, block [] 127 127 3, block [169] 254 254 2,
     block [172] 16 31 2, block [192] 168 168 2, block [] 224 239 3]"
  by (simp add: disallowed4_def block_def numeral_eq_Suc)

lemma guard_masks:
  "CIDRMask 96 128 = [0xff, 0xff, 0xff, 0xff, 0xff, 0xff, 0xff, 0xff, 0xff, 0xff, 0xff, 0xff, 0, 0, 0, 0]"
  "CIDRMask 48 128 = [0xff, 0xff, 0xff, 0xff, 0xff, 0xff, 0, 0, 0, 0, 0, 0, 0, 0, 0, 0]"
  "CIDRMask 32 128 = [0xff, 0xff, 0xff, 0xff, 0, 0, 0, 0, 0, 0, 0, 0, 0, 0, 0, 0]"
  "CIDRMask 16 128 = [0xff, 0xff, 0, 0, 0, 0, 0, 0, 0, 0, 0, 0, 0, 0, 0, 0]"
  "CIDRMask 10 32 = [0xff, 0xc0, 0, 0]" "CIDRMask 8 32 = [0xff, 0, 0, 0]"
  "CIDRMask 32 32 = [0xff, 0xff, 0xff, 0xff]"
  by code_simp+

lemma zero_bytes:
  "replicate 16 0 = [0, 0, 0, 0, 0, 0, 0, 0, 0, 0, 0, 0, 0, 0, 0, 0 :: byte]"
  "replicate 14 0 = [0, 0, 0, 0, 0, 0, 0, 0, 0, 0, 0, 0, 0, 0 :: byte]"
  "replicate 12 0 = [0, 0, 0, 0, 0, 0, 0, 0, 0, 0, 0, 0 :: byte]"
  "replicate 10 0 = [0, 0, 0, 0, 0, 0, 0, 0, 0, 0 :: byte]"
  by code_simp+

lemmas parse_eval = ParseCIDR_def ParseAddr_def parse_v6_def v6_loop.simps hex_val_def is_digit_def digit_val_def
  Let_def As16_def ip_Mask_def v4InV6Prefix_def guard_masks zero_bytes

lemma guard_nets4:
  "ParseCIDR ''100.64.0.0/10'' = Some ([100, 64, 0, 0], [0xff, 0xc0, 0, 0])"
  "ParseCIDR ''0.0.0.0/8'' = Some ([0, 0, 0, 0], [0xff, 0, 0, 0])"
  "ParseCIDR ''100.100.100.200/32'' = Some ([100, 100, 100, 200], [0xff, 0xff, 0xff, 0xff])"
  by (simp_all add: parse_eval)

lemma guard_nets6:
  "ParseCIDR ''64:ff9b::/96'' = Some ([0, 0x64, 0xff, 0x9b, 0, 0, 0, 0, 0, 0, 0, 0, 0, 0, 0, 0],
     [0xff, 0xff, 0xff, 0xff, 0xff, 0xff, 0xff, 0xff, 0xff, 0xff, 0xff, 0xff, 0, 0, 0, 0])"
  "ParseCIDR ''64:ff9b:1::/48'' = Some ([0, 0x64, 0xff, 0x9b, 0, 1, 0, 0, 0, 0, 0, 0, 0, 0, 0, 0],
     [0xff, 0xff, 0xff, 0xff, 0xff, 0xff, 0, 0, 0, 0, 0, 0, 0, 0, 0, 0])"
  "ParseCIDR ''2002::/16'' = Some ([0x20, 0x02, 0, 0, 0, 0, 0, 0, 0, 0, 0, 0, 0, 0, 0, 0],
     [0xff, 0xff, 0, 0, 0, 0, 0, 0, 0, 0, 0, 0, 0, 0, 0, 0])"
  "ParseCIDR ''2001::/32'' = Some ([0x20, 0x01, 0, 0, 0, 0, 0, 0, 0, 0, 0, 0, 0, 0, 0, 0],
     [0xff, 0xff, 0xff, 0xff, 0, 0, 0, 0, 0, 0, 0, 0, 0, 0, 0, 0])"
  "ParseCIDR ''::/96'' = Some ([0, 0, 0, 0, 0, 0, 0, 0, 0, 0, 0, 0, 0, 0, 0, 0],
     [0xff, 0xff, 0xff, 0xff, 0xff, 0xff, 0xff, 0xff, 0xff, 0xff, 0xff, 0xff, 0, 0, 0, 0])"
  by (simp_all add: parse_eval)

definition guard_nets :: "ipnet list" where
  "guard_nets =
    [([0, 0x64, 0xff, 0x9b, 0, 0, 0, 0, 0, 0, 0, 0, 0, 0, 0, 0],
       [0xff, 0xff, 0xff, 0xff, 0xff, 0xff, 0xff, 0xff, 0xff, 0xff, 0xff, 0xff, 0, 0, 0, 0]),
     ([0, 0x64, 0xff, 0x9b, 0, 1, 0, 0, 0, 0, 0, 0, 0, 0, 0, 0],
       [0xff, 0xff, 0xff, 0xff, 0xff, 0xff, 0, 0, 0, 0, 0, 0, 0, 0, 0, 0]),
     ([0x20, 0x02, 0, 0, 0, 0, 0, 0, 0, 0, 0, 0, 0, 0, 0, 0],
       [0xff, 0xff, 0, 0, 0, 0, 0, 0, 0, 0, 0, 0, 0, 0, 0, 0]),
     ([0x20, 0x01, 0, 0, 0, 0, 0, 0, 0, 0, 0, 0, 0, 0, 0, 0],
       [0xff, 0xff, 0xff, 0xff, 0, 0, 0, 0, 0, 0, 0, 0, 0, 0, 0, 0]),
     ([0, 0, 0, 0, 0, 0, 0, 0, 0, 0, 0, 0, 0, 0, 0, 0],
       [0xff, 0xff, 0xff, 0xff, 0xff, 0xff, 0xff, 0xff, 0xff, 0xff, 0xff, 0xff, 0, 0, 0, 0]),
     ([100, 64, 0, 0], [0xff, 0xc0, 0, 0]),
     ([0, 0, 0, 0], [0xff, 0, 0, 0]),
     ([100, 100, 100, 200], [0xff, 0xff, 0xff, 0xff])]"

lemma disallowedNets_Ok: "disallowedNets = Ok guard_nets"
  by (simp add: disallowedNets_def mustCIDR_def guard_nets4 guard_nets6 guard_nets_def)

text \<open>The test on four bytes and on sixteen.\<close>

lemma To4_four [simp]: "To4 [a, b, c, d] = Some [a, b, c, d]"
  by (simp add: To4_def)

lemma guard_nets4_numbers:
  "networkNumberAndMask ([100, 64, 0, 0], [0xff, 0xc0, 0, 0]) = ([100, 64, 0, 0], [0xff, 0xc0, 0, 0])"
  "networkNumberAndMask ([0, 0, 0, 0], [0xff, 0, 0, 0]) = ([0, 0, 0, 0], [0xff, 0, 0, 0])"
  "networkNumberAndMask ([100, 100, 100, 200], [0xff, 0xff, 0xff, 0xff]) = ([100, 100, 100, 200], [0xff, 0xff, 0xff, 0xff])"
  by (simp_all add: networkNumberAndMask_def)

lemma number16:
  assumes "length nn = 16" "length m = 16" "To4 nn = None"
  shows "networkNumberAndMask (nn, m) = (nn, m)"
  using assms by (simp add: networkNumberAndMask_def Let_def)

lemma contains_4: "net_Contains (nn, m) [a, b, c, d] \<longleftrightarrow>
    (case networkNumberAndMask (nn, m) of (nn, m) \<Rightarrow> length nn = 4 \<and> map2 (AND) nn m = map2 (AND) [a, b, c, d] m)"
  by (auto simp: net_Contains_def split: prod.splits)

lemma contains_6: "To4 ip = None \<Longrightarrow> net_Contains (nn, m) ip \<longleftrightarrow>
    (case networkNumberAndMask (nn, m) of (nn, m) \<Rightarrow> length ip = length nn \<and> map2 (AND) nn m = map2 (AND) ip m)"
  by (auto simp: net_Contains_def split: prod.splits)

lemma nets_on_4:
  "list_ex (\<lambda>n. net_Contains n [a, b, c, d]) guard_nets \<longleftrightarrow>
     a = 100 \<and> 64 \<le> b \<and> b \<le> 127 \<or> a = 0 \<or> [a, b, c, d] = [100, 100, 100, 200]"
proof -
  have "64 = b AND 0xc0 \<longleftrightarrow> 64 \<le> b \<and> b \<le> 127" using byte_masks(5) [of b] by (metis (no_types))
  then show ?thesis
    by (simp add: guard_nets_def contains_4 guard_nets4_numbers number16 To4_def v4InV6Prefix_def zero_bytes)
qed

lemma isDisallowedIP_iff:
  "isDisallowedIP nets ip \<longleftrightarrow>
     (let norm = (case To4 ip of Some v4 \<Rightarrow> v4 | None \<Rightarrow> ip) in
      IsLoopback norm \<or> IsPrivate norm \<or> IsLinkLocalUnicast norm \<or> IsUnspecified norm \<or> IsMulticast norm
      \<or> list_ex (\<lambda>n. net_Contains n norm) nets)"
  by (simp add: isDisallowedIP_def Let_def)

lemma isDisallowed4:
  assumes "To4 ip = Some v4"
  shows "isDisallowedIP guard_nets ip \<longleftrightarrow> in_ranges disallowed4 v4"
proof -
  obtain a b c d where v: "v4 = [a, b, c, d]" using To4_bytes [OF assms] .
  have "in_ranges disallowed4 v4 \<longleftrightarrow> a = 0 \<or> a = 10 \<or> a = 100 \<and> 64 \<le> b \<and> b \<le> 127 \<or> a = 127
      \<or> a = 169 \<and> b = 254 \<or> a = 172 \<and> 16 \<le> b \<and> b \<le> 31 \<or> a = 192 \<and> b = 168 \<or> 224 \<le> a \<and> a \<le> 239"
    using byte_eq_between [of a 0] by (simp add: v disallowed4_blocks in_block byte_eq_between)
  moreover have "isDisallowedIP guard_nets ip \<longleftrightarrow> a = 127 \<or> (a = 10 \<or> a = 172 \<and> 16 \<le> b \<and> b \<le> 31 \<or> a = 192 \<and> b = 168)
      \<or> a = 169 \<and> b = 254 \<or> IsUnspecified v4 \<or> 224 \<le> a \<and> a \<le> 239
      \<or> a = 100 \<and> 64 \<le> b \<and> b \<le> 127 \<or> a = 0 \<or> v4 = [100, 100, 100, 200]"
    using assms by (simp add: isDisallowedIP_iff v nets_on_4 IsLoopback_def IsPrivate_def IsLinkLocalUnicast_def
        IsMulticast_def byte_masks)
  moreover have "IsUnspecified v4 \<Longrightarrow> a = 0" using unspecified4 [of v4 v4] by (simp add: v)
  moreover have "v4 = [100, 100, 100, 200] \<Longrightarrow> a = 100 \<and> 64 \<le> b \<and> b \<le> 127" by (simp add: v)
  ultimately show ?thesis by argo
qed

lemma mask_take:
  "length xs = k + j \<Longrightarrow> map2 (AND) xs (replicate k 0xff @ replicate j (0 :: byte)) = take k xs @ replicate j 0"
proof (induction k arbitrary: xs)
  case 0
  then show ?case by (simp add: zip_replicate2 o_def map_replicate_const)
next
  case (Suc k)
  then show ?case by (cases xs) auto
qed

lemma contains_prefix:
  assumes "To4 ip = None" "length ip = 16" "To4 nn = None" "length nn = 16"
    and "m = replicate k 0xff @ replicate (16 - k) 0" "k \<le> 16"
  shows "net_Contains (nn, m) ip \<longleftrightarrow> take k ip = take k nn"
proof -
  have "length m = 16" using assms(5,6) by simp
  then show ?thesis
    using assms by (auto simp: contains_6 number16 mask_take)
qed

lemma full_masks:
  "[0xff, 0xff, 0xff, 0xff, 0xff, 0xff, 0xff, 0xff, 0xff, 0xff, 0xff, 0xff, 0, 0, 0, 0 :: byte]
     = replicate 12 0xff @ replicate (16 - 12) 0"
  "[0xff, 0xff, 0xff, 0xff, 0xff, 0xff, 0, 0, 0, 0, 0, 0, 0, 0, 0, 0 :: byte] = replicate 6 0xff @ replicate (16 - 6) 0"
  "[0xff, 0xff, 0xff, 0xff, 0, 0, 0, 0, 0, 0, 0, 0, 0, 0, 0, 0 :: byte] = replicate 4 0xff @ replicate (16 - 4) 0"
  "[0xff, 0xff, 0, 0, 0, 0, 0, 0, 0, 0, 0, 0, 0, 0, 0, 0 :: byte] = replicate 2 0xff @ replicate (16 - 2) 0"
  by code_simp+

lemma nets_on_6:
  assumes "To4 ip = None" "length ip = 16"
  shows "list_ex (\<lambda>n. net_Contains n ip) guard_nets \<longleftrightarrow>
     take 12 ip = [0, 0x64, 0xff, 0x9b, 0, 0, 0, 0, 0, 0, 0, 0] \<or> take 6 ip = [0, 0x64, 0xff, 0x9b, 0, 1]
     \<or> take 2 ip = [0x20, 0x02] \<or> take 4 ip = [0x20, 0x01, 0, 0] \<or> take 12 ip = [0, 0, 0, 0, 0, 0, 0, 0, 0, 0, 0, 0]"
proof -
  note c = contains_prefix [OF assms]
  have short: "\<not> net_Contains ([a, b, c, d], [e, f, g, h]) ip" for a b c d e f g h
    using assms by (simp add: contains_6 networkNumberAndMask_def)
  show ?thesis
    by (simp add: guard_nets_def c [OF _ _ full_masks(1)] c [OF _ _ full_masks(2)] c [OF _ _ full_masks(3)]
        c [OF _ _ full_masks(4)] To4_def v4InV6Prefix_def zero_bytes short)
qed

lemma in_block_one: "length ip = length p + 1 + n \<Longrightarrow> in_range (block p a a n) ip \<longleftrightarrow> take (Suc (length p)) ip = p @ [a]"
  by (auto simp: in_block byte_eq_between take_Suc_conv_app_nth)

lemma isDisallowed6:
  assumes "To4 ip = None" "length ip = 16"
  shows "isDisallowedIP guard_nets ip \<longleftrightarrow> in_ranges disallowed6 ip"
proof -
  define A where "A = (0xfc \<le> ip ! 0 \<and> ip ! 0 \<le> 0xfd)"
  define B where "B = (ip ! 0 = 0xfe \<and> 0x80 \<le> ip ! 1 \<and> ip ! 1 \<le> 0xbf)"
  define C where "C = (ip ! 0 = 0xff)"
  have ff: "0xff \<le> x \<longleftrightarrow> x = 0xff" for x :: byte by (metis byte_le_ff order_antisym order_refl)
  have one: "take 1 ip = [0xfe] \<longleftrightarrow> ip ! 0 = 0xfe" using assms(2) by (cases ip) auto
  have r6: "in_range (block [] 0xfc 0xfd 15) ip \<longleftrightarrow> A" "in_range (block [0xfe] 0x80 0xbf 14) ip \<longleftrightarrow> B"
    "in_range (block [] 0xff 0xff 15) ip \<longleftrightarrow> C"
    using assms(2) one by (simp_all add: A_def B_def C_def in_block ff)
  have r1: "in_range (block (replicate 11 0) 0 0 4) ip \<longleftrightarrow> take 12 ip = [0, 0, 0, 0, 0, 0, 0, 0, 0, 0, 0, 0]"
    "in_range (block [0, 0x64, 0xff, 0x9b, 0, 0, 0, 0, 0, 0, 0] 0 0 4) ip
       \<longleftrightarrow> take 12 ip = [0, 0x64, 0xff, 0x9b, 0, 0, 0, 0, 0, 0, 0, 0]"
    "in_range (block [0, 0x64, 0xff, 0x9b, 0] 1 1 10) ip \<longleftrightarrow> take 6 ip = [0, 0x64, 0xff, 0x9b, 0, 1]"
    "in_range (block [0x20, 0x01, 0] 0 0 12) ip \<longleftrightarrow> take 4 ip = [0x20, 0x01, 0, 0]"
    "in_range (block [0x20] 0x02 0x02 14) ip \<longleftrightarrow> take 2 ip = [0x20, 0x02]"
    using assms(2) by (simp_all add: in_block_one numeral_eq_Suc)
  have nets: "in_ranges disallowed6 ip \<longleftrightarrow> list_ex (\<lambda>n. net_Contains n ip) guard_nets \<or> A \<or> B \<or> C"
    unfolding nets_on_6 [OF assms] disallowed6_def in_ranges_simps r1 r6 by argo
  have dis: "isDisallowedIP guard_nets ip \<longleftrightarrow> ip = IPv6loopback \<or> A \<or> B \<or> ip = IPv6unspecified \<or> C
      \<or> list_ex (\<lambda>n. net_Contains n ip) guard_nets"
    using assms unspecified6 [OF assms(1)]
    by (simp add: isDisallowedIP_iff IsLoopback_def IsPrivate_def IsLinkLocalUnicast_def IsMulticast_def byte_masks
        A_def B_def C_def)
  have "ip = IPv6unspecified \<or> ip = IPv6loopback \<Longrightarrow> take 12 ip = [0, 0, 0, 0, 0, 0, 0, 0, 0, 0, 0, 0]"
    by (auto simp: IPv6unspecified_def IPv6loopback_def numeral_eq_Suc)
  then have "ip = IPv6unspecified \<or> ip = IPv6loopback \<Longrightarrow> list_ex (\<lambda>n. net_Contains n ip) guard_nets"
    unfolding nets_on_6 [OF assms] by blast
  with nets dis show ?thesis by argo
qed

text \<open>The methods unwrap an IPv4-mapped address themselves, so calling \<open>To4\<close> first makes no difference.\<close>

lemma To4_redundant:
  "isDisallowedIP nets ip \<longleftrightarrow> IsLoopback ip \<or> IsPrivate ip \<or> IsLinkLocalUnicast ip \<or> IsUnspecified ip
    \<or> IsMulticast ip \<or> list_ex (\<lambda>n. net_Contains n ip) nets"
proof (cases "To4 ip")
  case (Some v4)
  then have v: "To4 v4 = Some v4" by (auto simp: To4_def split: if_splits)
  then have "IsUnspecified v4 = IsUnspecified ip" using unspecified4 Some by blast
  moreover have "net_Contains n v4 = net_Contains n ip" for n
    using v Some by (cases n) (simp add: net_Contains_def)
  ultimately show ?thesis
    using v Some by (simp add: isDisallowedIP_iff IsLoopback_def IsPrivate_def IsLinkLocalUnicast_def IsMulticast_def)
qed (simp add: isDisallowedIP_iff)

subsection \<open>Properties\<close>

text \<open>What the guard lets through: an address and a port, the address outside all the ranges.\<close>

definition guard_allows :: "string \<Rightarrow> bool" where
  "guard_allows address \<longleftrightarrow>
     (case SplitHostPort address of
        None \<Rightarrow> False
      | Some (host, port) \<Rightarrow>
          (case ParseIP host of
             None \<Rightarrow> False
           | Some ip \<Rightarrow> (case To4 ip of Some v4 \<Rightarrow> \<not> in_ranges disallowed4 v4 | None \<Rightarrow> \<not> in_ranges disallowed6 ip)))"

lemma dialGuard_None:
  "\<exists>nets. disallowedNets = Ok nets \<and> (\<forall>address. (dialGuard nets address = None) = guard_allows address)"
proof -
  have "(dialGuard guard_nets address = None) = guard_allows address" for address
    using isDisallowed4 isDisallowed6 ParseIP_length
    by (auto simp: dialGuard_def guard_allows_def split: option.splits prod.splits)
  with disallowedNets_Ok show ?thesis by blast
qed

text \<open>
  C29: the dial guard is the table of ranges. The networks build without a panic, and the callback
  returns nil exactly for an address and port whose address is an IP literal outside
  0.0.0.0/8, 10/8, 100.64/10, 127/8, 169.254/16, 172.16/12, 192.168/16 and 224/4, also when it is
  written as an IPv4-mapped IPv6 address, and outside ::/96, 64:ff9b::/96, 64:ff9b:1::/48, 2001::/32,
  2002::/16, fc00::/7, fe80::/10 and ff00::/8.
\<close>

theorem dialGuard_exact:
  "case disallowedNets of
     Ok nets \<Rightarrow> \<forall>address. (dialGuard nets address = None) = guard_allows address
   | _ \<Rightarrow> False"
proof -
  obtain nets where n: "disallowedNets = Ok nets" "\<forall>address. (dialGuard nets address = None) = guard_allows address"
    using dialGuard_None by blast
  then show ?thesis unfolding n(1) by simp
qed

end
