(* ===== verification/Http_Options.thy ===== *)
theory Http_Options
  imports Http_Retry Dial_Guard
begin

section \<open>Building clients\<close>

text \<open>
  Models \<open>httpclient/httpclient.go\<close> and \<open>httpclient/options.go\<close>: the configuration, the options, the
  constructors and the transport with its dialer. The name resolver, connecting a socket and the
  round trip of \<open>http.Transport\<close> are parameters over the external state \<open>'e\<close>. Durations are
  nanoseconds. The value a context carries under \<open>dialIPKey\<close> is an argument of the dial function.
\<close>

subsection \<open>Defaults\<close>

definition DefaultPoolSize :: int where
  "DefaultPoolSize = 256"

definition DefaultIdleConnTimeout :: int where
  "DefaultIdleConnTimeout = 90 * Http_Retry.Second"

definition DefaultPerAttemptTimeout :: int where
  "DefaultPerAttemptTimeout = 10 * Http_Retry.Second"

definition DefaultMaxRetryAfter :: int where
  "DefaultMaxRetryAfter = 30 * Http_Retry.Second"

definition DefaultMultiHostIdleConnsPerHost :: int where
  "DefaultMultiHostIdleConnsPerHost = 2"

definition DefaultMultiHostIdleConnTimeout :: int where
  "DefaultMultiHostIdleConnTimeout = 30 * Http_Retry.Second"

definition defaultMaxRetries :: int where
  "defaultMaxRetries = 3"

definition defaultDelayStep :: int where
  "defaultDelayStep = 200 * 1000000"

definition defaultTLSHandshakeTimeout :: int where
  "defaultTLSHandshakeTimeout = 10 * Http_Retry.Second"

definition defaultResponseHeaderTimeout :: int where
  "defaultResponseHeaderTimeout = 10 * Http_Retry.Second"

definition defaultExpectContinueTimeout :: int where
  "defaultExpectContinueTimeout = 1 * Http_Retry.Second"

definition defaultH2PingInterval :: int where
  "defaultH2PingInterval = 15 * Http_Retry.Second"

definition defaultH2PingTimeout :: int where
  "defaultH2PingTimeout = 15 * Http_Retry.Second"

definition VersionTLS12 :: "16 word" where
  "VersionTLS12 = 0x0303"

subsection \<open>The configuration\<close>

text \<open>
  A dial: the value of the context under \<open>dialIPKey\<close>, the network and the address; it yields the
  address connected to.
\<close>

type_synonym 'e dial = "string option \<Rightarrow> string \<Rightarrow> string \<Rightarrow> 'e \<Rightarrow> (goerror + string) \<times> 'e"

record protocols =
  HTTP1 :: bool
  HTTP2 :: bool

record http2_config =
  SendPingTimeout :: int
  PingTimeout :: int

record 'e budget =
  Allow :: "'e \<Rightarrow> bool \<times> 'e"
  Record :: "bool \<Rightarrow> 'e \<Rightarrow> 'e"

record 'e config =
  maxIdleConns :: int
  maxIdleConnsPerHost :: int
  maxConnsPerHost :: int
  idleConnTimeout :: int
  tlsHandshakeTimeout :: int
  responseHeaderTimeout :: int
  expectContinueTimeout :: int
  perAttemptTimeout :: int
  c_protocols :: "protocols option"
  http2 :: "http2_config option"
  tlsMinVersion :: "16 word"
  dialContext :: "'e dial option"
  dialControl :: "(string \<Rightarrow> goerror option) option"
  c_retrier :: "retry option"
  c_retryIf :: "(goerror option \<Rightarrow> bool) option"
  c_maxRetries :: int
  c_delayStep :: int
  retryNonIdempotent :: bool
  c_maxRetryAfter :: int
  c_budget :: "'e budget"
  c_onAttempt :: "(attempt_info \<Rightarrow> 'e \<Rightarrow> 'e) option"

definition noopBudget :: "'e budget" where
  "noopBudget = \<lparr>Allow = (\<lambda>e. (True, e)), Record = (\<lambda>b e. e)\<rparr>"

definition defaultConfig :: "'e config" where
  "defaultConfig =
     \<lparr>maxIdleConns = DefaultPoolSize, maxIdleConnsPerHost = DefaultPoolSize, maxConnsPerHost = 0,
      idleConnTimeout = DefaultIdleConnTimeout, tlsHandshakeTimeout = defaultTLSHandshakeTimeout,
      responseHeaderTimeout = defaultResponseHeaderTimeout,
      expectContinueTimeout = defaultExpectContinueTimeout, perAttemptTimeout = DefaultPerAttemptTimeout,
      c_protocols = Some \<lparr>HTTP1 = True, HTTP2 = True\<rparr>, http2 = None, tlsMinVersion = VersionTLS12,
      dialContext = None, dialControl = None, c_retrier = None, c_retryIf = None,
      c_maxRetries = defaultMaxRetries, c_delayStep = defaultDelayStep, retryNonIdempotent = False,
      c_maxRetryAfter = DefaultMaxRetryAfter, c_budget = noopBudget, c_onAttempt = None\<rparr>"

definition defaultHTTP2Config :: http2_config where
  "defaultHTTP2Config = \<lparr>SendPingTimeout = defaultH2PingInterval, PingTimeout = defaultH2PingTimeout\<rparr>"

subsection \<open>Options\<close>

type_synonym 'e http_option = "'e config \<Rightarrow> 'e config"

definition WithMaxIdleConns :: "int \<Rightarrow> 'e http_option" where
  "WithMaxIdleConns n c = c\<lparr>maxIdleConns := n\<rparr>"

definition WithMaxIdleConnsPerHost :: "int \<Rightarrow> 'e http_option" where
  "WithMaxIdleConnsPerHost n c = c\<lparr>maxIdleConnsPerHost := n\<rparr>"

definition WithMaxConnsPerHost :: "int \<Rightarrow> 'e http_option" where
  "WithMaxConnsPerHost n c = c\<lparr>maxConnsPerHost := n\<rparr>"

definition WithIdleConnTimeout :: "int \<Rightarrow> 'e http_option" where
  "WithIdleConnTimeout d c = c\<lparr>idleConnTimeout := d\<rparr>"

definition WithTLSHandshakeTimeout :: "int \<Rightarrow> 'e http_option" where
  "WithTLSHandshakeTimeout d c = c\<lparr>tlsHandshakeTimeout := d\<rparr>"

definition WithResponseHeaderTimeout :: "int \<Rightarrow> 'e http_option" where
  "WithResponseHeaderTimeout d c = c\<lparr>responseHeaderTimeout := d\<rparr>"

definition WithExpectContinueTimeout :: "int \<Rightarrow> 'e http_option" where
  "WithExpectContinueTimeout d c = c\<lparr>expectContinueTimeout := d\<rparr>"

definition WithProtocols :: "protocols option \<Rightarrow> 'e http_option" where
  "WithProtocols p c = c\<lparr>c_protocols := p\<rparr>"

definition WithHTTP2Config :: "http2_config option \<Rightarrow> 'e http_option" where
  "WithHTTP2Config h2 c = c\<lparr>http2 := h2\<rparr>"

definition WithTLSMinVersion :: "16 word \<Rightarrow> 'e http_option" where
  "WithTLSMinVersion v c = c\<lparr>tlsMinVersion := v\<rparr>"

definition WithDialContext :: "'e dial option \<Rightarrow> 'e http_option" where
  "WithDialContext fn c = c\<lparr>dialContext := fn\<rparr>"

text \<open>The networks the guard closes over are those of the package.\<close>

definition package_nets :: "ipnet list" where
  "package_nets = (case disallowedNets of Ok ns \<Rightarrow> ns | Err e \<Rightarrow> [] | Panic \<Rightarrow> [])"

definition WithDialGuard :: "'e http_option" where
  "WithDialGuard c = c\<lparr>dialControl := Some (dialGuard package_nets)\<rparr>"

definition WithPerAttemptTimeout :: "int \<Rightarrow> 'e http_option" where
  "WithPerAttemptTimeout d c = c\<lparr>perAttemptTimeout := d\<rparr>"

definition WithMaxRetryAfter :: "int \<Rightarrow> 'e http_option" where
  "WithMaxRetryAfter d c = c\<lparr>c_maxRetryAfter := d\<rparr>"

definition WithRetry :: "retry option \<Rightarrow> 'e http_option" where
  "WithRetry r c = c\<lparr>c_retrier := r\<rparr>"

definition Http_WithRetryIf :: "(goerror option \<Rightarrow> bool) option \<Rightarrow> 'e http_option" where
  "Http_WithRetryIf predicate c = c\<lparr>c_retryIf := predicate\<rparr>"

definition Http_WithMaxRetries :: "int \<Rightarrow> 'e http_option" where
  "Http_WithMaxRetries n c = c\<lparr>c_maxRetries := n\<rparr>"

definition WithRetryDelayStep :: "int \<Rightarrow> 'e http_option" where
  "WithRetryDelayStep d c = c\<lparr>c_delayStep := d\<rparr>"

definition WithRetryNonIdempotent :: "bool \<Rightarrow> 'e http_option" where
  "WithRetryNonIdempotent on c = c\<lparr>retryNonIdempotent := on\<rparr>"

definition WithRetryBudget :: "'e budget option \<Rightarrow> 'e http_option" where
  "WithRetryBudget b c = (case b of None \<Rightarrow> c | Some b \<Rightarrow> c\<lparr>c_budget := b\<rparr>)"

definition WithOnAttempt :: "(attempt_info \<Rightarrow> 'e \<Rightarrow> 'e) option \<Rightarrow> 'e http_option" where
  "WithOnAttempt hook c = c\<lparr>c_onAttempt := hook\<rparr>"

text \<open>The marker methods: which options are transport options and which are retry options.\<close>

inductive isTransport :: "'e http_option \<Rightarrow> bool" where
  "isTransport (WithMaxIdleConns n)"
| "isTransport (WithMaxIdleConnsPerHost n)"
| "isTransport (WithMaxConnsPerHost n)"
| "isTransport (WithIdleConnTimeout d)"
| "isTransport (WithTLSHandshakeTimeout d)"
| "isTransport (WithResponseHeaderTimeout d)"
| "isTransport (WithExpectContinueTimeout d)"
| "isTransport (WithProtocols p)"
| "isTransport (WithHTTP2Config h2)"
| "isTransport (WithTLSMinVersion v)"
| "isTransport (WithDialContext fn)"
| "isTransport WithDialGuard"

inductive isRetry :: "'e http_option \<Rightarrow> bool" where
  "isRetry (WithPerAttemptTimeout d)"
| "isRetry (WithMaxRetryAfter d)"
| "isRetry (WithRetry r)"
| "isRetry (Http_WithRetryIf predicate)"
| "isRetry (Http_WithMaxRetries n)"
| "isRetry (WithRetryDelayStep d)"
| "isRetry (WithRetryNonIdempotent on)"
| "isRetry (WithRetryBudget b)"
| "isRetry (WithOnAttempt hook)"

text \<open>The options in order, the nil ones skipped.\<close>

definition apply_options :: "'e http_option option list \<Rightarrow> 'e config \<Rightarrow> 'e config" where
  "apply_options opts c = foldl (\<lambda>c opt. case opt of None \<Rightarrow> c | Some f \<Rightarrow> f c) c opts"

definition singleHostPreset :: "'e http_option" where
  "singleHostPreset c = WithHTTP2Config (Some defaultHTTP2Config) (WithMaxConnsPerHost DefaultPoolSize c)"

definition multiHostPreset :: "'e http_option" where
  "multiHostPreset c =
     WithHTTP2Config (Some defaultHTTP2Config)
       (WithIdleConnTimeout DefaultMultiHostIdleConnTimeout
         (WithMaxIdleConnsPerHost DefaultMultiHostIdleConnsPerHost c))"

subsection \<open>The dialer\<close>

text \<open>\<open>WithDialIP\<close> and \<open>dialIPFromContext\<close> on the value under the key.\<close>

definition WithDialIP :: "string option \<Rightarrow> string \<Rightarrow> string option" where
  "WithDialIP v ip = (if ip = '''' then v else Some ip)"

definition dialIPFromContext :: "string option \<Rightarrow> string" where
  "dialIPFromContext v = (case v of None \<Rightarrow> '''' | Some ip \<Rightarrow> ip)"

text \<open>
  The network below the dialer: resolving an address to addresses with IP literals, and connecting to
  one. \<open>net.Dialer\<close> tries the resolved addresses in order; the control callback sees each before it
  is connected to, and an error of it skips the address. The first error is the one returned.
\<close>

record 'e netstack =
  lookup :: "string \<Rightarrow> string \<Rightarrow> 'e \<Rightarrow> (goerror + string list) \<times> 'e"
  connect :: "string \<Rightarrow> 'e \<Rightarrow> goerror option \<times> 'e"

record dialer =
  d_Timeout :: int
  d_KeepAlive :: int
  d_Control :: "(string \<Rightarrow> goerror option) option"

definition missing_address :: goerror where
  "missing_address = GoError (OtherError 3) []"

fun dial_serial :: "(string \<Rightarrow> goerror option) option \<Rightarrow> (string \<Rightarrow> 'e \<Rightarrow> goerror option \<times> 'e) \<Rightarrow> string list
    \<Rightarrow> goerror option \<Rightarrow> 'e \<Rightarrow> (goerror + string) \<times> 'e" where
  "dial_serial control conn [] first e = (Inl (case first of None \<Rightarrow> missing_address | Some err \<Rightarrow> err), e)"
| "dial_serial control conn (a # as) first e =
     (case (case control of None \<Rightarrow> None | Some ctl \<Rightarrow> ctl a) of
        Some err \<Rightarrow> dial_serial control conn as (case first of None \<Rightarrow> Some err | _ \<Rightarrow> first) e
      | None \<Rightarrow>
          (case conn a e of
             (None, e') \<Rightarrow> (Inr a, e')
           | (Some err, e') \<Rightarrow> dial_serial control conn as (case first of None \<Rightarrow> Some err | _ \<Rightarrow> first) e'))"

definition dialer_DialContext :: "'e netstack \<Rightarrow> dialer \<Rightarrow> string \<Rightarrow> string \<Rightarrow> 'e \<Rightarrow> (goerror + string) \<times> 'e" where
  "dialer_DialContext net d network addr e =
     (case lookup net network addr e of
        (Inl err, e') \<Rightarrow> (Inl err, e')
      | (Inr addrs, e') \<Rightarrow> dial_serial (d_Control d) (connect net) addrs None e')"

definition split_error :: goerror where
  "split_error = GoError (OtherError 1) []"

text \<open>The function the built-in dialer is wrapped in: it rewrites the address to the pinned IP.\<close>

definition pinned_dial :: "'e netstack \<Rightarrow> dialer \<Rightarrow> 'e dial" where
  "pinned_dial net d ctx network addr e =
     (let pinned = dialIPFromContext ctx in
      if pinned \<noteq> ''''
      then
        (case SplitHostPort addr of
           None \<Rightarrow> (Inl split_error, e)
         | Some (host, port) \<Rightarrow> dialer_DialContext net d network (JoinHostPort pinned port) e)
      else dialer_DialContext net d network addr e)"

subsection \<open>Transports and clients\<close>

definition defaultDialTimeout :: int where
  "defaultDialTimeout = 30 * Http_Retry.Second"

definition defaultDialKeepAlive :: int where
  "defaultDialKeepAlive = 30 * Http_Retry.Second"

text \<open>\<open>http.Transport\<close>; \<open>t_Proxy\<close>: the proxy of the environment is used.\<close>

record 'e transport =
  t_Proxy :: bool
  t_MaxIdleConns :: int
  t_MaxIdleConnsPerHost :: int
  t_MaxConnsPerHost :: int
  t_IdleConnTimeout :: int
  t_TLSHandshakeTimeout :: int
  t_ResponseHeaderTimeout :: int
  t_ExpectContinueTimeout :: int
  t_Protocols :: "protocols option"
  t_HTTP2 :: "http2_config option"
  t_MinVersion :: "16 word"
  t_DialContext :: "'e dial"

definition newTransport :: "'e netstack \<Rightarrow> 'e config \<Rightarrow> 'e transport" where
  "newTransport net c =
     (let t = \<lparr>t_Proxy = True, t_MaxIdleConns = maxIdleConns c, t_MaxIdleConnsPerHost = maxIdleConnsPerHost c,
                t_MaxConnsPerHost = maxConnsPerHost c, t_IdleConnTimeout = idleConnTimeout c,
                t_TLSHandshakeTimeout = tlsHandshakeTimeout c,
                t_ResponseHeaderTimeout = responseHeaderTimeout c,
                t_ExpectContinueTimeout = expectContinueTimeout c, t_Protocols = c_protocols c,
                t_HTTP2 = http2 c, t_MinVersion = tlsMinVersion c,
                t_DialContext =
                  (case dialContext c of
                     Some fn \<Rightarrow> fn
                   | None \<Rightarrow> pinned_dial net \<lparr>d_Timeout = defaultDialTimeout,
                       d_KeepAlive = defaultDialKeepAlive, d_Control = dialControl c\<rparr>)\<rparr>
      in if dialControl c \<noteq> None then t\<lparr>t_Proxy := False\<rparr> else t)"

definition buildRetrier :: "'e config \<Rightarrow> retry option" where
  "buildRetrier c =
     (case c_retrier c of
        Some r \<Rightarrow> Some r
      | None \<Rightarrow>
          (let classify = (case c_retryIf c of None \<Rightarrow> defaultRetryIf | Some p \<Rightarrow> p)
           in Some (retry_New [Some (WithMaxRetries (c_maxRetries c)), Some (WithDelayStep (c_delayStep c)),
                Some (WithJitter True), Some (WithRetryIf (Some classify))])))"

text \<open>A round tripper for one request, by attempt; and the retrying one with what it wraps.\<close>

type_synonym 'e roundtripper = "int \<Rightarrow> 'e \<Rightarrow> (goerror + int \<times> string) \<times> 'e"

record 'e wired =
  w_base :: "'e roundtripper"
  w_rt :: retry_transport
  w_budget :: "'e budget"
  w_onAttempt :: "(attempt_info \<Rightarrow> 'e \<Rightarrow> 'e) option"

definition newRetryTransport :: "'e config \<Rightarrow> 'e roundtripper \<Rightarrow> 'e wired" where
  "newRetryTransport c base =
     \<lparr>w_base = base,
      w_rt = \<lparr>rt_retrier = buildRetrier c, perAttempt = perAttemptTimeout c, nonIdem = retryNonIdempotent c,
        maxRetryAfter = c_maxRetryAfter c\<rparr>,
      w_budget = c_budget c, w_onAttempt = c_onAttempt c\<rparr>"

text \<open>Its round trip, in an environment that gives the rest: the context, the clock and the bodies.\<close>

definition wire :: "'e wired \<Rightarrow> 'e httpenv \<Rightarrow> 'e httpenv" where
  "wire w env = env\<lparr>base_RoundTrip := w_base w, budget_Allow := Allow (w_budget w),
     budget_Record := Record (w_budget w), onAttempt := w_onAttempt w\<rparr>"

record ('t, 'r, 'j) client =
  Transport :: 't
  CheckRedirect :: 'r
  Jar :: 'j
  Timeout :: int

text \<open>The round trip of an \<open>http.Transport\<close> is the parameter \<open>send\<close>; a zero client has none of the rest.\<close>

definition build_client :: "'e netstack \<Rightarrow> ('e transport \<Rightarrow> 'e roundtripper) \<Rightarrow> 'e config
    \<Rightarrow> ('e wired, 'r option, 'j option) client" where
  "build_client net send_on c =
     \<lparr>Transport = newRetryTransport c (send_on (newTransport net c)), CheckRedirect = None, Jar = None, Timeout = 0\<rparr>"

definition http_New :: "'e netstack \<Rightarrow> ('e transport \<Rightarrow> 'e roundtripper) \<Rightarrow> 'e http_option option list
    \<Rightarrow> ('e wired, 'r option, 'j option) client" where
  "http_New net send_on opts = build_client net send_on (apply_options opts defaultConfig)"

definition NewSingleHost :: "'e netstack \<Rightarrow> ('e transport \<Rightarrow> 'e roundtripper) \<Rightarrow> 'e http_option option list
    \<Rightarrow> ('e wired, 'r option, 'j option) client" where
  "NewSingleHost net send_on opts =
     build_client net send_on (apply_options ([Some singleHostPreset] @ opts) defaultConfig)"

definition NewMultiHost :: "'e netstack \<Rightarrow> ('e transport \<Rightarrow> 'e roundtripper) \<Rightarrow> 'e http_option option list
    \<Rightarrow> ('e wired, 'r option, 'j option) client" where
  "NewMultiHost net send_on opts =
     build_client net send_on (apply_options ([Some multiHostPreset] @ opts) defaultConfig)"

definition NewTransport :: "'e netstack \<Rightarrow> 'e http_option option list \<Rightarrow> 'e transport" where
  "NewTransport net opts = newTransport net (apply_options opts defaultConfig)"

definition Wrap :: "'e roundtripper \<Rightarrow> ('e roundtripper option, 'r option, 'j option) client option
    \<Rightarrow> 'e http_option option list \<Rightarrow> ('e wired, 'r option, 'j option) client" where
  "Wrap deflt cl opts =
     (let cl = (case cl of None \<Rightarrow> \<lparr>Transport = None, CheckRedirect = None, Jar = None, Timeout = 0\<rparr> | Some cl \<Rightarrow> cl);
          c = apply_options opts defaultConfig;
          base = (case Transport cl of None \<Rightarrow> deflt | Some b \<Rightarrow> b)
      in \<lparr>Transport = newRetryTransport c base, CheckRedirect = CheckRedirect cl, Jar = Jar cl, Timeout = Timeout cl\<rparr>)"

subsection \<open>What the options reach\<close>

lemmas transport_options = WithMaxIdleConns_def WithMaxIdleConnsPerHost_def WithMaxConnsPerHost_def
  WithIdleConnTimeout_def WithTLSHandshakeTimeout_def WithResponseHeaderTimeout_def
  WithExpectContinueTimeout_def WithProtocols_def WithHTTP2Config_def WithTLSMinVersion_def
  WithDialContext_def WithDialGuard_def

lemmas retry_options = WithPerAttemptTimeout_def WithMaxRetryAfter_def WithRetry_def Http_WithRetryIf_def
  Http_WithMaxRetries_def WithRetryDelayStep_def WithRetryNonIdempotent_def WithRetryBudget_def WithOnAttempt_def

lemma apply_options_simps [simp]:
  "apply_options [] c = c"
  "apply_options (None # opts) c = apply_options opts c"
  "apply_options (Some f # opts) c = apply_options opts (f c)"
  by (simp_all add: apply_options_def)

text \<open>The fields the retry layer is built from.\<close>

definition retry_part :: "'e config
    \<Rightarrow> retry option \<times> (goerror option \<Rightarrow> bool) option \<times> int \<times> int \<times> int \<times> bool \<times> int
      \<times> 'e budget \<times> (attempt_info \<Rightarrow> 'e \<Rightarrow> 'e) option" where
  "retry_part c = (c_retrier c, c_retryIf c, c_maxRetries c, c_delayStep c, perAttemptTimeout c,
     retryNonIdempotent c, c_maxRetryAfter c, c_budget c, c_onAttempt c)"

lemma newRetryTransport_part:
  "retry_part c = retry_part c' \<Longrightarrow> newRetryTransport c base = newRetryTransport c' base"
  by (auto simp: retry_part_def newRetryTransport_def buildRetrier_def Let_def split: option.splits)

lemma retry_keeps_transport: "isRetry f \<Longrightarrow> newTransport net (f c) = newTransport net c"
  by (cases rule: isRetry.cases) (auto simp: newTransport_def retry_options split: option.splits)

lemma transport_keeps_retry: "isTransport f \<Longrightarrow> retry_part (f c) = retry_part c"
  by (cases rule: isTransport.cases) (auto simp: retry_part_def transport_options)

lemma retry_part_cong: "isRetry f \<Longrightarrow> retry_part c = retry_part c' \<Longrightarrow> retry_part (f c) = retry_part (f c')"
  by (cases rule: isRetry.cases) (auto simp: retry_part_def retry_options split: option.splits)

lemma apply_append: "apply_options (xs @ ys) c = apply_options ys (apply_options xs c)"
  by (simp add: apply_options_def)

text \<open>Options that keep a view, or that act on it alone.\<close>

lemma apply_invisible:
  assumes "\<And>f c. Some f \<in> set opts \<Longrightarrow> view (f c) = view c"
  shows "view (apply_options opts c) = view c"
  using assms
proof (induction opts arbitrary: c)
  case (Cons opt opts)
  have "view (apply_options opts c) = view c" for c
    by (rule Cons.IH) (use Cons.prems in auto)
  then show ?case using Cons.prems by (cases opt) auto
qed simp

lemma apply_cong:
  assumes "\<And>f c c'. Some f \<in> set opts \<Longrightarrow> view c = view c' \<Longrightarrow> view (f c) = view (f c')" and "view c = view c'"
  shows "view (apply_options opts c) = view (apply_options opts c')"
  using assms
proof (induction opts arbitrary: c c')
  case (Cons opt opts)
  have IH: "view (apply_options opts c) = view (apply_options opts c')" if "view c = view c'" for c c'
    by (rule Cons.IH [OF _ that]) (rule Cons.prems(1), rule list.set_intros(2))
  show ?case
  proof (cases opt)
    case None
    with IH [OF Cons.prems(2)] show ?thesis by simp
  next
    case (Some f)
    have "view (f c) = view (f c')"
      by (rule Cons.prems(1) [OF _ Cons.prems(2)]) (simp add: Some)
    from IH [OF this] Some show ?thesis by simp
  qed
qed simp

subsection \<open>Properties\<close>

text \<open>
  C31: the two kinds of option are what their interfaces say. Retry options, the only ones \<open>Wrap\<close>
  takes, do not touch the transport, and transport options, the only ones \<open>NewTransport\<close> takes, do not
  touch the retry layer, whatever the order they come in; \<open>Wrap\<close> keeps the rest of the client it is given.
\<close>

theorem option_kinds:
  assumes "\<forall>f. Some f \<in> set ropts \<longrightarrow> isRetry f" and "\<forall>f. Some f \<in> set topts \<longrightarrow> isTransport f"
  shows "newTransport net (apply_options ropts c) = newTransport net c
    \<and> newRetryTransport (apply_options topts c) base = newRetryTransport c base
    \<and> Transport (http_New net send_on (topts @ ropts))
        = newRetryTransport (apply_options ropts defaultConfig) (send_on (NewTransport net topts))
    \<and> Wrap deflt (Some cl) ropts
        = \<lparr>Transport = newRetryTransport (apply_options ropts defaultConfig)
               (case Transport cl of None \<Rightarrow> deflt | Some b \<Rightarrow> b),
           CheckRedirect = CheckRedirect cl, Jar = Jar cl, Timeout = Timeout cl\<rparr>"
proof -
  have r: "newTransport net (apply_options ropts c) = newTransport net c" for c
    by (rule apply_invisible [where view = "newTransport net"]) (simp add: assms(1) retry_keeps_transport)
  have t: "retry_part (apply_options topts c) = retry_part c" for c
    by (rule apply_invisible [where view = retry_part]) (simp add: assms(2) transport_keeps_retry)
  have "retry_part (apply_options ropts (apply_options topts c)) = retry_part (apply_options ropts c)" for c
    by (rule apply_cong [where view = retry_part], rule retry_part_cong, erule assms(1) [rule_format], assumption, rule t)
  then have "newRetryTransport (apply_options ropts (apply_options topts c)) base
      = newRetryTransport (apply_options ropts c) base" for c base
    by (rule newRetryTransport_part)
  then have "Transport (http_New net send_on (topts @ ropts))
      = newRetryTransport (apply_options ropts defaultConfig) (send_on (NewTransport net topts))"
    by (simp add: http_New_def build_client_def apply_append r NewTransport_def)
  moreover have "newRetryTransport (apply_options topts c) base = newRetryTransport c base"
    by (rule newRetryTransport_part) (rule t)
  ultimately show ?thesis using r by (simp add: Wrap_def Let_def)
qed

definition idle_net :: "nat netstack" where
  "idle_net = \<lparr>lookup = (\<lambda>network addr n. (Inr [addr], n)), connect = (\<lambda>a n. (None, n))\<rparr>"

definition zero_client :: "(nat roundtripper option, unit option, unit option) client" where
  "zero_client = \<lparr>Transport = None, CheckRedirect = Some (), Jar = None, Timeout = 7\<rparr>"

theorem option_kinds_witness:
  "newTransport idle_net (apply_options [Some (Http_WithMaxRetries 5), None] defaultConfig)
     = newTransport idle_net defaultConfig
   \<and> CheckRedirect (Wrap (\<lambda>k n. (Inr (200, ''''), n)) (Some zero_client) [Some (Http_WithMaxRetries 5), None]) = Some ()
   \<and> w_rt (newRetryTransport (apply_options [Some (WithMaxIdleConns 3)] (defaultConfig :: nat config))
       (\<lambda>k n. (Inr (200, ''''), n)))
     = w_rt (newRetryTransport (defaultConfig :: nat config) (\<lambda>k n. (Inr (200, ''''), n)))"
proof -
  have "\<forall>f. Some f \<in> set [Some (Http_WithMaxRetries 5), None] \<longrightarrow> isRetry f"
    and "\<forall>f. Some f \<in> set [Some (WithMaxIdleConns 3)] \<longrightarrow> isTransport f"
    by (auto intro: isRetry.intros isTransport.intros)
  note k = option_kinds [OF this, where net = idle_net and c = defaultConfig and base = "\<lambda>k n. (Inr (200, ''''), n)"
      and send_on = "\<lambda>t k n. (Inr (200, ''''), n)" and deflt = "\<lambda>k n. (Inr (200, ''''), n)" and cl = zero_client]
  have "CheckRedirect (Wrap (\<lambda>k n. (Inr (200, ''''), n)) (Some zero_client) [Some (Http_WithMaxRetries 5), None])
      = Some ()"
    by (simp add: k zero_client_def [symmetric]) (simp add: zero_client_def)
  moreover have "w_rt (newRetryTransport (apply_options [Some (WithMaxIdleConns 3)] (defaultConfig :: nat config))
       (\<lambda>k n. (Inr (200, ''''), n)))
     = w_rt (newRetryTransport (defaultConfig :: nat config) (\<lambda>k n. (Inr (200, ''''), n)))"
    by (rule arg_cong [where f = w_rt]) (use k in \<open>elim conjE\<close>)
  ultimately show ?thesis using k by (elim conjE) (intro conjI)
qed

subsection \<open>The guard in the client\<close>

lemma control_blocks:
  "dial_serial (Some ctl) conn as first e = (Inr a, e') \<Longrightarrow> ctl a = None"
  by (induction "Some ctl" conn as first e rule: dial_serial.induct)
    (auto split: option.splits prod.splits)

lemma control_hides:
  assumes "\<And>a e. ctl a = None \<Longrightarrow> conn a e = conn' a e"
  shows "dial_serial (Some ctl) conn as first e = dial_serial (Some ctl) conn' as first e"
proof (induction as arbitrary: first e)
  case (Cons a as)
  show ?case
  proof (cases "ctl a")
    case None
    then show ?thesis using assms [OF None] Cons by (simp split: prod.splits option.splits)
  next
    case (Some err)
    then show ?thesis using Cons by (simp split: option.splits)
  qed
qed simp

lemma guarded_dial:
  assumes "d_Control d = Some (dialGuard package_nets)"
  shows "pinned_dial net d ctx network addr e = (Inr a, e') \<Longrightarrow> guard_allows a"
    and "(\<And>a e. guard_allows a \<Longrightarrow> conn a e = connect net a e) \<Longrightarrow>
      pinned_dial (net\<lparr>connect := conn\<rparr>) d ctx network addr e = pinned_dial net d ctx network addr e"
proof -
  obtain nets where nets: "disallowedNets = Ok nets"
    "\<And>address. (dialGuard nets address = None) = guard_allows address"
    using dialGuard_None by blast
  then have g: "(dialGuard package_nets a = None) = guard_allows a" for a
    unfolding package_nets_def nets(1) by simp
  show "pinned_dial net d ctx network addr e = (Inr a, e') \<Longrightarrow> guard_allows a"
    using assms g by (auto simp: pinned_dial_def dialer_DialContext_def Let_def dest!: control_blocks
        split: if_splits option.splits prod.splits sum.splits)
  assume c: "\<And>a e. guard_allows a \<Longrightarrow> conn a e = connect net a e"
  have "dial_serial (Some (dialGuard package_nets)) conn as first e
      = dial_serial (Some (dialGuard package_nets)) (connect net) as first e" for as first e
    by (rule control_hides) (use c g in blast)
  then have "dialer_DialContext (net\<lparr>connect := conn\<rparr>) d network addr e = dialer_DialContext net d network addr e"
    for network addr e
    using assms by (simp add: dialer_DialContext_def split: prod.splits sum.splits)
  then show "pinned_dial (net\<lparr>connect := conn\<rparr>) d ctx network addr e = pinned_dial net d ctx network addr e"
    by (auto simp: pinned_dial_def Let_def split: option.splits)
qed

text \<open>No other option takes the guard out again, and only \<open>WithDialContext\<close> replaces the dialer.\<close>

definition guarded :: "'e config \<Rightarrow> bool" where
  "guarded c \<longleftrightarrow> dialControl c = Some (dialGuard package_nets)"

lemma option_dial:
  assumes "isTransport f \<or> isRetry f" "\<And>fn. f \<noteq> WithDialContext fn"
  shows "dialContext (f c) = dialContext c" and "guarded c \<Longrightarrow> guarded (f c)"
proof -
  have "dialContext (f c) = dialContext c \<and> (guarded c \<longrightarrow> guarded (f c))"
    using assms(1)
  proof
    assume "isTransport f"
    then show ?thesis
      using assms(2) by (cases rule: isTransport.cases) (auto simp: transport_options guarded_def)
  next
    assume "isRetry f"
    then show ?thesis
      by (cases rule: isRetry.cases) (auto simp: retry_options guarded_def split: option.splits)
  qed
  then show "dialContext (f c) = dialContext c" "guarded c \<Longrightarrow> guarded (f c)" by blast+
qed

lemma apply_dial:
  assumes "\<And>f. Some f \<in> set opts \<Longrightarrow> isTransport f \<or> isRetry f" "\<And>fn. Some (WithDialContext fn) \<notin> set opts"
  shows "dialContext (apply_options opts c) = dialContext c"
    and "guarded c \<or> Some WithDialGuard \<in> set opts \<Longrightarrow> guarded (apply_options opts c)"
proof -
  have o: "dialContext (f c) = dialContext c \<and> (guarded c \<longrightarrow> guarded (f c))" if "Some f \<in> set opts" for f c
    using option_dial [OF assms(1) [OF that]] assms(2) that by blast
  show "dialContext (apply_options opts c) = dialContext c"
    by (rule apply_invisible [where view = dialContext]) (use o in blast)
  show "guarded (apply_options opts c)" if "guarded c \<or> Some WithDialGuard \<in> set opts"
    using o that
  proof (induction opts arbitrary: c)
    case (Cons opt opts)
    have IH: "guarded (apply_options opts c)" if "guarded c \<or> Some WithDialGuard \<in> set opts" for c
      by (rule Cons.IH [OF _ that]) (rule Cons.prems(1), rule list.set_intros(2))
    show ?case
    proof (cases opt)
      case None
      with Cons.prems(2) show ?thesis by (simp add: IH)
    next
      case (Some f)
      have "guarded (WithDialGuard c)" by (simp add: guarded_def WithDialGuard_def)
      moreover have "guarded c \<Longrightarrow> guarded (f c)" using Cons.prems(1) [of f c] Some by simp
      ultimately have "guarded (f c) \<or> Some WithDialGuard \<in> set opts" using Cons.prems(2) Some by auto
      from IH [OF this] Some show ?thesis by simp
    qed
  qed simp
qed

lemma presets_dial:
  "dialContext (singleHostPreset c) = dialContext c" "dialContext (multiHostPreset c) = dialContext c"
  "dialContext defaultConfig = None"
  by (simp_all add: singleHostPreset_def multiHostPreset_def transport_options defaultConfig_def)

text \<open>
  C30: with \<open>WithDialGuard\<close> among the options, and the built-in dialer, no client of the package
  reaches a refused address, whatever the resolver answers, wherever a redirect points and whichever IP
  the context pins: there is no proxy in between, a dial that succeeds is connected to an allowed
  address, and the transport, hence the whole client whatever \<open>http.Transport\<close> does with its dialer,
  redirects and retries included, is the same if connecting to refused addresses did something else:
  none is ever tried.
\<close>

theorem guard_enforced:
  assumes "\<And>f. Some f \<in> set opts \<Longrightarrow> isTransport f \<or> isRetry f" and "Some WithDialGuard \<in> set opts"
    and "\<And>fn. Some (WithDialContext fn) \<notin> set opts"
    and "preset = [] \<or> preset = [Some singleHostPreset] \<or> preset = [Some multiHostPreset]"
    and "c = apply_options (preset @ opts) defaultConfig"
  shows "\<not> t_Proxy (newTransport net c)
    \<and> (t_DialContext (newTransport net c) ctx network addr e = (Inr a, e') \<longrightarrow> guard_allows a)
    \<and> ((\<forall>a e. guard_allows a \<longrightarrow> conn a e = connect net a e) \<longrightarrow>
         newTransport (net\<lparr>connect := conn\<rparr>) c = newTransport net c
         \<and> build_client (net\<lparr>connect := conn\<rparr>) send_on c = build_client net send_on c)"
proof -
  have pre: "dialContext (apply_options preset defaultConfig) = None"
    using assms(4) by (auto simp: presets_dial)
  have c: "c = apply_options opts (apply_options preset defaultConfig)" using assms(5) by (simp add: apply_append)
  have "dialContext c = None" unfolding c by (simp only: apply_dial(1) [OF assms(1,3)] pre)
  moreover have "guarded c" unfolding c using apply_dial(2) [OF assms(1,3)] assms(2) by blast
  ultimately have g: "dialContext c = None" "dialControl c = Some (dialGuard package_nets)"
    by (simp_all add: guarded_def)
  then have t: "t_DialContext (newTransport net c)
      = pinned_dial net \<lparr>d_Timeout = defaultDialTimeout, d_KeepAlive = defaultDialKeepAlive,
          d_Control = Some (dialGuard package_nets)\<rparr>" "\<not> t_Proxy (newTransport net c)" for net
    by (simp_all add: newTransport_def)
  note dial = guarded_dial [where net = net and d = "\<lparr>d_Timeout = defaultDialTimeout,
      d_KeepAlive = defaultDialKeepAlive, d_Control = Some (dialGuard package_nets)\<rparr>"]
  have "newTransport (net\<lparr>connect := conn\<rparr>) c = newTransport net c"
    if "\<forall>a e. guard_allows a \<longrightarrow> conn a e = connect net a e"
    using dial(2) that by (auto simp: newTransport_def g fun_eq_iff)
  then show ?thesis using t dial(1) by (auto simp: build_client_def)
qed

text \<open>A resolver under attack: the name leads to the metadata address first.\<close>

definition demo_net :: "nat netstack" where
  "demo_net = \<lparr>lookup = (\<lambda>network addr n. (Inr [''169.254.169.254:80'', ''[2606:4700::1111]:80''], n)),
     connect = (\<lambda>a n. (None, Suc n))\<rparr>"

lemma guard_not_dial: "WithDialContext fn \<noteq> WithDialGuard"
proof -
  have "dialControl (WithDialContext fn defaultConfig) \<noteq> dialControl (WithDialGuard defaultConfig)"
    by (simp add: WithDialContext_def WithDialGuard_def defaultConfig_def)
  then show ?thesis by metis
qed

theorem guard_enforced_witness:
  "guard_allows ''[2606:4700::1111]:80''
   \<and> t_DialContext (newTransport demo_net (apply_options [Some WithDialGuard] defaultConfig)) None ''tcp''
       ''example.org:80'' 0 = (Inr ''[2606:4700::1111]:80'', 1)
   \<and> t_DialContext (newTransport demo_net defaultConfig) None ''tcp'' ''example.org:80'' 0
       = (Inr ''169.254.169.254:80'', 1)"
proof -
  have "SplitHostPort ''169.254.169.254:80'' = Some (''169.254.169.254'', ''80'')"
    "SplitHostPort ''[2606:4700::1111]:80'' = Some (''2606:4700::1111'', ''80'')" by code_simp+
  moreover have "ParseIP ''169.254.169.254'' = Some (v4InV6Prefix @ [169, 254, 169, 254])"
    "ParseIP ''2606:4700::1111'' = Some [0x26, 0x06, 0x47, 0, 0, 0, 0, 0, 0, 0, 0, 0, 0, 0, 0x11, 0x11]"
    by (simp_all add: ParseIP_def parse_eval)
  moreover have "isDisallowedIP guard_nets (v4InV6Prefix @ [169, 254, 169, 254])" by code_simp
  moreover have "\<not> isDisallowedIP guard_nets [0x26, 0x06, 0x47, 0, 0, 0, 0, 0, 0, 0, 0, 0, 0, 0, 0x11, 0x11]" by code_simp
  moreover have "package_nets = guard_nets" unfolding package_nets_def disallowedNets_Ok by simp
  ultimately have blocked: "dialGuard package_nets ''169.254.169.254:80'' \<noteq> None"
    and open_: "dialGuard package_nets ''[2606:4700::1111]:80'' = None"
    by (simp_all add: dialGuard_def)
  have run: "t_DialContext (newTransport demo_net (apply_options ([] @ [Some WithDialGuard]) defaultConfig)) None ''tcp''
       ''example.org:80'' 0 = (Inr ''[2606:4700::1111]:80'', 1)"
    using blocked open_
    by (auto simp: newTransport_def WithDialGuard_def defaultConfig_def pinned_dial_def dialIPFromContext_def
        dialer_DialContext_def demo_net_def Let_def split: option.splits)
  have "guard_allows ''[2606:4700::1111]:80''"
    using guard_enforced [of "[Some WithDialGuard]" "[]" _ demo_net None "''tcp''" "''example.org:80''" 0
        "''[2606:4700::1111]:80''" 1 "connect demo_net"] run
    by (simp add: isTransport.intros guard_not_dial)
  then show ?thesis using run
    by (simp add: newTransport_def defaultConfig_def pinned_dial_def dialIPFromContext_def dialer_DialContext_def
        demo_net_def Let_def)
qed

end
