(* ===== verification/Go_Base64.thy ===== *)
theory Go_Base64
  imports Go_Prelude
begin

section \<open>Base64 in its URL form without padding\<close>

text \<open>
  \<open>base64.RawURLEncoding\<close> of the standard library on byte strings, a byte being a
  \<open>char\<close>. The decoder skips carriage returns and line feeds wherever they stand, does not
  ask for the unused low bits of the last symbol to be zero, and rejects any other byte
  outside the alphabet and a single left-over symbol.
\<close>

named_theorems go_b64

definition b64_alphabet :: string where
  "b64_alphabet = ''ABCDEFGHIJKLMNOPQRSTUVWXYZabcdefghijklmnopqrstuvwxyz0123456789-_''"

definition b64_char :: "nat \<Rightarrow> char" where
  "b64_char n = b64_alphabet ! n"

fun index_of :: "'a list \<Rightarrow> 'a \<Rightarrow> nat option" where
  "index_of [] x = None"
| "index_of (y # ys) x = (if x = y then Some 0 else map_option Suc (index_of ys x))"

definition b64_val :: "char \<Rightarrow> nat option" where
  "b64_val c = index_of b64_alphabet c"

abbreviation byte :: "nat \<Rightarrow> char" where
  "byte n \<equiv> char_of n"

abbreviation code :: "char \<Rightarrow> nat" where
  "code c \<equiv> of_char c"

fun b64_encode :: "string \<Rightarrow> string" where
  "b64_encode [] = []"
| "b64_encode [a] = [b64_char (code a div 4), b64_char (code a mod 4 * 16)]"
| "b64_encode [a, b] =
     [b64_char (code a div 4), b64_char (code a mod 4 * 16 + code b div 16),
      b64_char (code b mod 16 * 4)]"
| "b64_encode (a # b # c # s) =
     b64_char (code a div 4) # b64_char (code a mod 4 * 16 + code b div 16)
     # b64_char (code b mod 16 * 4 + code c div 64) # b64_char (code c mod 64) # b64_encode s"

fun b64_quads :: "nat list \<Rightarrow> string option" where
  "b64_quads [] = Some []"
| "b64_quads [x] = None"
| "b64_quads [x, y] = Some [byte (x * 4 + y div 16)]"
| "b64_quads [x, y, z] = Some [byte (x * 4 + y div 16), byte (y mod 16 * 16 + z div 4)]"
| "b64_quads (x # y # z # w # s) =
     map_option (\<lambda>r. byte (x * 4 + y div 16) # byte (y mod 16 * 16 + z div 4)
       # byte (z mod 4 * 64 + w) # r) (b64_quads s)"

definition b64_skipped :: "char \<Rightarrow> bool" where
  "b64_skipped c \<longleftrightarrow> c = CHR 0x0A \<or> c = CHR 0x0D"

fun b64_vals :: "string \<Rightarrow> nat list option" where
  "b64_vals [] = Some []"
| "b64_vals (c # s) =
     (if b64_skipped c then b64_vals s
      else case b64_val c of None \<Rightarrow> None | Some n \<Rightarrow> map_option (Cons n) (b64_vals s))"

definition b64_decode :: "string \<Rightarrow> string option" where
  "b64_decode s = Option.bind (b64_vals s) b64_quads"

subsection \<open>The alphabet\<close>

lemma b64_alphabet_ok:
  "list_all (\<lambda>n. index_of b64_alphabet (b64_alphabet ! n) = Some n \<and> \<not> b64_skipped (b64_alphabet ! n)
     \<and> b64_alphabet ! n \<noteq> CHR '']'') [0..<64]"
  by code_simp

lemma b64_val_char [go_b64]: "n < 64 \<Longrightarrow> b64_val (b64_char n) = Some n"
  and b64_char_kept [go_b64]: "n < 64 \<Longrightarrow> \<not> b64_skipped (b64_char n)"
  and b64_char_plain [go_b64]: "n < 64 \<Longrightarrow> b64_char n \<noteq> CHR '']''"
  using b64_alphabet_ok unfolding list_all_iff b64_val_def b64_char_def by auto

lemma b64_vals_chars: "list_all (\<lambda>n. n < 64) ns \<Longrightarrow> b64_vals (map b64_char ns) = Some ns"
  by (induction ns) (simp_all add: go_b64)

text \<open>The symbols of an encoding as numbers.\<close>

fun b64_nums :: "string \<Rightarrow> nat list" where
  "b64_nums [] = []"
| "b64_nums [a] = [code a div 4, code a mod 4 * 16]"
| "b64_nums [a, b] = [code a div 4, code a mod 4 * 16 + code b div 16, code b mod 16 * 4]"
| "b64_nums (a # b # c # s) =
     code a div 4 # (code a mod 4 * 16 + code b div 16)
     # (code b mod 16 * 4 + code c div 64) # code c mod 64 # b64_nums s"

lemma b64_encode_nums: "b64_encode s = map b64_char (b64_nums s)"
  by (induction s rule: b64_encode.induct) simp_all

lemma code_less [simp]: "code c < 256"
  by (metis mod_less_divisor of_char_mod_256 zero_less_numeral)

lemma sextets: "code a div 4 < 64" "code a mod 4 * 16 + code b div 16 < 64"
  "code b mod 16 * 4 + code c div 64 < 64" "code a mod 4 * 16 < 64" "code b mod 16 * 4 < 64"
proof -
  have "code a < 256" "code b < 256" "code c < 256" by simp_all
  then show "code a div 4 < 64" "code a mod 4 * 16 + code b div 16 < 64"
    "code b mod 16 * 4 + code c div 64 < 64" "code a mod 4 * 16 < 64" "code b mod 16 * 4 < 64"
    by linarith+
qed

lemma b64_nums_less: "list_all (\<lambda>n. n < 64) (b64_nums s)"
  by (induction s rule: b64_nums.induct) (simp_all add: sextets)

lemma quot_rem: "r < k \<Longrightarrow> (q * k + r) div k = q" "r < k \<Longrightarrow> (q * k + r) mod k = r"
  for q r k :: nat
  by simp_all

lemma small_quots: "code b div 16 < 16" "code c div 64 < 4"
proof -
  have "code b < 256" "code c < 256" by simp_all
  then show "code b div 16 < 16" "code c div 64 < 4" by linarith+
qed

lemma byte_back:
  "byte (code a div 4 * 4 + (code a mod 4 * 16 + code b div 16) div 16) = a"
  "byte ((code a mod 4 * 16 + code b div 16) mod 16 * 16 + (code b mod 16 * 4 + code c div 64) div 4) = b"
  "byte ((code b mod 16 * 4 + code c div 64) mod 4 * 64 + code c mod 64) = c"
  by (simp_all only: quot_rem small_quots div_mult_mod_eq char_of_char)

lemma byte_back_end:
  "byte (code a div 4 * 4 + code a mod 4 * 16 div 16) = a"
  "byte ((code a mod 4 * 16 + code b div 16) mod 16 * 16 + code b mod 16 * 4 div 4) = b"
  by (simp_all only: quot_rem small_quots nonzero_mult_div_cancel_right div_mult_mod_eq char_of_char)

lemma b64_quads_nums: "b64_quads (b64_nums s) = Some s"
proof (induction s rule: b64_nums.induct)
  case (2 a)
  show ?case by (simp only: b64_nums.simps b64_quads.simps byte_back_end)
next
  case (3 a b)
  show ?case by (simp only: b64_nums.simps b64_quads.simps byte_back byte_back_end)
next
  case (4 a b c s)
  then show ?case by (simp only: b64_nums.simps b64_quads.simps byte_back option.map)
qed simp

theorem b64_roundtrip [go_b64, simp]: "b64_decode (b64_encode s) = Some s"
  by (simp add: b64_decode_def b64_encode_nums b64_vals_chars b64_nums_less b64_quads_nums)

lemma b64_encode_no_tag: "CHR '']'' \<notin> set (b64_encode s)"
  using b64_nums_less [of s] by (auto simp: b64_encode_nums list_all_iff dest!: b64_char_plain)

lemma b64_encode_Nil [simp]: "b64_encode s = [] \<longleftrightarrow> s = []"
  by (cases s rule: b64_encode.cases) simp_all

lemma b64_encode_length: "length (b64_encode s) = (4 * length s + 2) div 3"
  by (induction s rule: b64_encode.induct) simp_all

end
