(* ===== verification/Crypter.thy ===== *)
theory Crypter
  imports Go_Base64 Go_Strings Go_Errors
begin

section \<open>Tagged authenticated encryption of strings\<close>

text \<open>
  Models \<open>crypter/crypter.go\<close>. AES, GCM and the random source are parameters: the cipher
  is a record of the functions of \<open>cipher.AEAD\<close> the code calls, the reader a function on a
  world of its own. The nonce pool is part of the state that \<open>Encrypt\<close> threads.
\<close>

subsection \<open>Errors\<close>

definition ErrInvalidCipherText :: goerror where
  "ErrInvalidCipherText = sentinel ''crypter: invalid ciphertext''"

definition ErrInvalidKeyLength :: goerror where
  "ErrInvalidKeyLength = sentinel ''crypter: invalid key length''"

definition ErrEmptyPayload :: goerror where
  "ErrEmptyPayload = sentinel ''crypter: empty payload''"

definition ErrNewCipher :: goerror where
  "ErrNewCipher = sentinel ''crypter: aes.NewCipher failed''"

definition ErrNewGCM :: goerror where
  "ErrNewGCM = sentinel ''crypter: cipher.NewGCM failed''"

definition ErrReadNonce :: goerror where
  "ErrReadNonce = sentinel ''crypter: read nonce failed''"

definition ErrBase64Decode :: goerror where
  "ErrBase64Decode = sentinel ''crypter: base64 decode failed''"

definition ErrOpen :: goerror where
  "ErrOpen = sentinel ''crypter: aead open failed''"

lemmas crypter_errors = ErrInvalidCipherText_def ErrInvalidKeyLength_def ErrEmptyPayload_def
  ErrNewCipher_def ErrNewGCM_def ErrReadNonce_def ErrBase64Decode_def ErrOpen_def

text \<open>\<open>fmt.Errorf("%w: %w", a, b)\<close>, and what the decoder of base64 returns.\<close>

definition wrap2 :: "goerror \<Rightarrow> goerror \<Rightarrow> goerror" where
  "wrap2 a b = GoError (OtherError 0) [a, b]"

definition CorruptInputError :: goerror where
  "CorruptInputError = GoError (OtherError 1) []"

subsection \<open>State\<close>

definition StartTag :: string where
  "StartTag = ''ENCv1[''"

definition EndTag :: string where
  "EndTag = '']''"

definition startLen :: nat where
  "startLen = length StartTag"

text \<open>The additional data of the code is always nil, so the functions do not take it.\<close>

record aead =
  NonceSize :: nat
  Overhead :: nat
  Seal :: "string \<Rightarrow> string \<Rightarrow> string"
  Open :: "string \<Rightarrow> string \<Rightarrow> (goerror, string) gores"

record crypter =
  cr_aead :: aead
  nonceSize :: nat

text \<open>The buffers in the pool, and the state of the random source.\<close>

record 'w cstate =
  noncePool :: "string list"
  rng :: 'w

text \<open>A read into a buffer of the given length: an error, and the bytes that were read.\<close>

type_synonym 'w reader = "nat \<Rightarrow> 'w \<Rightarrow> (goerror option \<times> string) \<times> 'w"

subsection \<open>Operations\<close>

definition crypter_New ::
    "(string \<Rightarrow> (goerror, 'b) gores) \<Rightarrow> ('b \<Rightarrow> (goerror, aead) gores) \<Rightarrow> string \<Rightarrow> (goerror, crypter) gores" where
  "crypter_New NewCipher NewGCM secret =
     (let key = secret in
      if \<not> (length key = 16 \<or> length key = 24 \<or> length key = 32) then Err ErrInvalidKeyLength
      else
        (case NewCipher key of
           Err err \<Rightarrow> Err (wrap2 ErrNewCipher err)
         | Panic \<Rightarrow> Panic
         | Ok block \<Rightarrow>
             (case NewGCM block of
                Err err \<Rightarrow> Err (wrap2 ErrNewGCM err)
              | Panic \<Rightarrow> Panic
              | Ok a \<Rightarrow> Ok \<lparr>cr_aead = a, nonceSize = NonceSize a\<rparr>)))"

definition IsEncrypted :: "string \<Rightarrow> bool" where
  "IsEncrypted s \<longleftrightarrow> startLen < length s \<and> take startLen s = StartTag"

text \<open>\<open>sync.Pool\<close>: \<open>Get\<close> hands out a buffer that was put back, or a new one.\<close>

definition pool_Get :: "nat \<Rightarrow> string list \<Rightarrow> string \<times> string list" where
  "pool_Get n pool = (case pool of [] \<Rightarrow> (replicate n (CHR 0x00), []) | b # bs \<Rightarrow> (b, bs))"

definition Encrypt :: "crypter \<Rightarrow> 'w reader \<Rightarrow> string \<Rightarrow> 'w cstate \<Rightarrow> (goerror, string) gores \<times> 'w cstate" where
  "Encrypt c rand_Reader data st =
     (if IsEncrypted data then (Ok data, st)
      else
        (let (noncep, pool) = pool_Get (nonceSize c) (noncePool st);
             ((err, bytes), w) = rand_Reader (length noncep) (rng st);
             noncep = bytes @ drop (length bytes) noncep;
             st = \<lparr>noncePool = noncep # pool, rng = w\<rparr>
         in case err of
              Some err \<Rightarrow> (Err (wrap2 ErrReadNonce err), st)
            | None \<Rightarrow>
                (let nonce = replicate (nonceSize c) (CHR 0x00);
                     n = min (length nonce) (length noncep);
                     nonce = take n noncep @ drop n nonce;
                     raw = nonce @ Seal (cr_aead c) nonce data;
                     buf = StartTag @ b64_encode raw @ EndTag
                 in (Ok buf, st))))"

definition Decrypt :: "crypter \<Rightarrow> string \<Rightarrow> (goerror, string) gores" where
  "Decrypt c data =
     (if \<not> IsEncrypted data then Ok data
      else if data ! (length data - 1) \<noteq> EndTag ! 0 then Err ErrInvalidCipherText
      else
        (let payload = drop startLen (take (length data - 1) data) in
         if payload = [] then Err ErrEmptyPayload
         else
           (case b64_decode payload of
              None \<Rightarrow> Err (wrap2 ErrBase64Decode CorruptInputError)
            | Some raw \<Rightarrow>
                if length raw < nonceSize c then Err ErrInvalidCipherText
                else
                  (let nonce = take (nonceSize c) raw; ct = drop (nonceSize c) raw in
                   if length ct < Overhead (cr_aead c) then Err ErrInvalidCipherText
                   else
                     (case Open (cr_aead c) nonce ct of
                        Err err \<Rightarrow> Err (wrap2 ErrOpen err)
                      | Panic \<Rightarrow> Panic
                      | Ok pt \<Rightarrow> Ok pt)))))"

subsection \<open>What the code relies on\<close>

text \<open>
  The documented laws of \<open>cipher.AEAD\<close>: sealing adds \<open>Overhead\<close> bytes, and opening what
  was sealed under the same nonce, which is not empty, gives the plaintext back. A successful read fills the
  buffer, a failed one fills a part of it.
\<close>

definition aead_ok :: "aead \<Rightarrow> bool" where
  "aead_ok a \<longleftrightarrow> 0 < NonceSize a \<and> (\<forall>n p. length n = NonceSize a \<longrightarrow>
     length (Seal a n p) = length p + Overhead a \<and> Open a n (Seal a n p) = Ok p)"

definition crypter_ok :: "crypter \<Rightarrow> bool" where
  "crypter_ok c \<longleftrightarrow> aead_ok (cr_aead c) \<and> nonceSize c = NonceSize (cr_aead c)"

definition reader_ok :: "'w reader \<Rightarrow> bool" where
  "reader_ok rd \<longleftrightarrow> (\<forall>n w err bytes w'. rd n w = ((err, bytes), w') \<longrightarrow>
     length bytes \<le> n \<and> (err = None \<longrightarrow> length bytes = n))"

definition pool_ok :: "crypter \<Rightarrow> 'w cstate \<Rightarrow> bool" where
  "pool_ok c st \<longleftrightarrow> list_all (\<lambda>b. length b = nonceSize c) (noncePool st)"

text \<open>The abstract result of an encryption: a function of the random bytes alone.\<close>

definition sealed :: "crypter \<Rightarrow> string \<Rightarrow> string \<Rightarrow> string" where
  "sealed c nonce data = StartTag @ b64_encode (nonce @ Seal (cr_aead c) nonce data) @ EndTag"

lemma reader_okD:
  "reader_ok rd \<Longrightarrow> rd n w = ((err, bytes), w') \<Longrightarrow> length bytes \<le> n"
  "reader_ok rd \<Longrightarrow> rd n w = ((None, bytes), w') \<Longrightarrow> length bytes = n"
  unfolding reader_ok_def by blast+

lemma pool_Get_length:
  "pool_ok c st \<Longrightarrow> pool_Get (nonceSize c) (noncePool st) = (b, bs) \<Longrightarrow>
    length b = nonceSize c \<and> list_all (\<lambda>b. length b = nonceSize c) bs"
  by (cases "noncePool st") (auto simp: pool_Get_def pool_ok_def)

lemma Encrypt_fresh:
  assumes "\<not> IsEncrypted data" "pool_ok c st" "reader_ok rd" "rd (nonceSize c) (rng st) = ((err, bytes), w)"
  shows "\<exists>pool. Encrypt c rd data st =
      (case err of Some e \<Rightarrow> Err (wrap2 ErrReadNonce e) | None \<Rightarrow> Ok (sealed c bytes data),
       \<lparr>noncePool = pool, rng = w\<rparr>) \<and> pool_ok c \<lparr>noncePool = pool, rng = w\<rparr>"
proof -
  obtain b bs where g: "pool_Get (nonceSize c) (noncePool st) = (b, bs)" by force
  note len = pool_Get_length [OF assms(2) g] reader_okD [OF assms(3)] 
  have l: "length bytes \<le> nonceSize c" "err = None \<Longrightarrow> length bytes = nonceSize c"
    using len(2,3) assms(4) by blast+
  show ?thesis
  proof (cases err)
    case None
    with l g len(1) assms(1,4) show ?thesis
      by (simp add: Encrypt_def sealed_def pool_ok_def)
  next
    case (Some e)
    with l g len(1) assms(1,4) show ?thesis
      by (simp add: Encrypt_def pool_ok_def)
  qed
qed

lemma IsEncrypted_append: "s \<noteq> [] \<Longrightarrow> IsEncrypted (StartTag @ s)"
  by (cases s) (simp_all add: IsEncrypted_def startLen_def)

lemma IsEncrypted_iff: "IsEncrypted s \<longleftrightarrow> (\<exists>r. r \<noteq> [] \<and> s = StartTag @ r)"
  using IsEncrypted_append by (auto simp: IsEncrypted_def startLen_def)
    (metis append_take_drop_id drop_eq_Nil linorder_not_less)

lemma IsEncrypted_sealed: "IsEncrypted (sealed c nonce data)"
  unfolding sealed_def by (rule IsEncrypted_append) (simp add: EndTag_def)

text \<open>The branches of \<open>Decrypt\<close> on a text between the tags.\<close>

lemma Decrypt_tagged:
  "Decrypt c (StartTag @ payload @ [e]) =
     (if e \<noteq> CHR '']'' then Err ErrInvalidCipherText
      else if payload = [] then Err ErrEmptyPayload
      else case b64_decode payload of
          None \<Rightarrow> Err (wrap2 ErrBase64Decode CorruptInputError)
        | Some raw \<Rightarrow>
            if length raw < nonceSize c + Overhead (cr_aead c) then Err ErrInvalidCipherText
            else (case Open (cr_aead c) (take (nonceSize c) raw) (drop (nonceSize c) raw) of
                Err err \<Rightarrow> Err (wrap2 ErrOpen err) | Panic \<Rightarrow> Panic | Ok pt \<Rightarrow> Ok pt))"
proof -
  have e: "IsEncrypted (StartTag @ payload @ [e])" by (rule IsEncrypted_append) simp
  have l: "(StartTag @ payload @ [e]) ! (length (StartTag @ payload @ [e]) - 1) = e"
    by (simp add: nth_append)
  have p: "drop startLen (take (length (StartTag @ payload @ [e]) - 1) (StartTag @ payload @ [e])) = payload"
    by (simp add: startLen_def)
  show ?thesis
    unfolding Decrypt_def l p Let_def
    by (simp add: e EndTag_def split: option.splits) (auto simp: less_diff_conv2)
qed

lemma Decrypt_sealed:
  assumes "crypter_ok c" "length nonce = nonceSize c"
  shows "Decrypt c (sealed c nonce data) = Ok data"
proof -
  let ?raw = "nonce @ Seal (cr_aead c) nonce data"
  have a: "length (Seal (cr_aead c) nonce data) = length data + Overhead (cr_aead c)"
    "Open (cr_aead c) nonce (Seal (cr_aead c) nonce data) = Ok data"
    using assms by (simp_all add: crypter_ok_def aead_ok_def)
  have "0 < NonceSize (cr_aead c)" using assms(1) by (simp add: crypter_ok_def aead_ok_def)
  then have "nonce \<noteq> []" using assms by (auto simp: crypter_ok_def)
  with assms(2) a show ?thesis by (simp add: sealed_def EndTag_def Decrypt_tagged)
qed

subsection \<open>Properties\<close>

text \<open>
  A cipher with a one-byte nonce and a one-byte checksum, and a reader that counts; they
  satisfy the laws.
\<close>

definition xor_sum :: "string \<Rightarrow> nat" where
  "xor_sum s = sum_list (map code s) mod 256"

definition toy_aead :: aead where
  "toy_aead = \<lparr>NonceSize = 1, Overhead = 1, Seal = (\<lambda>n p. byte (xor_sum p) # rev p),
     Open = (\<lambda>n ct. case ct of [] \<Rightarrow> Err (GoError (OtherError 2) [])
       | t # r \<Rightarrow> if t = byte (xor_sum r) then Ok (rev r) else Err (GoError (OtherError 2) []))\<rparr>"

definition toy_crypter :: crypter where
  "toy_crypter = \<lparr>cr_aead = toy_aead, nonceSize = 1\<rparr>"

definition toy_reader :: "nat reader" where
  "toy_reader n w = ((None, replicate n (byte (w mod 256))), Suc w)"

definition toy_state :: "nat cstate" where
  "toy_state = \<lparr>noncePool = [], rng = 65\<rparr>"

lemma toy_ok: "crypter_ok toy_crypter" "reader_ok toy_reader" "pool_ok toy_crypter toy_state"
proof -
  have "xor_sum (rev p) = xor_sum p" for p
    by (simp add: xor_sum_def rev_map [symmetric] sum_list_rev)
  then show "crypter_ok toy_crypter"
    by (simp add: crypter_ok_def aead_ok_def toy_crypter_def toy_aead_def)
qed (simp_all add: reader_ok_def toy_reader_def pool_ok_def toy_state_def)

lemma toy_encrypts:
  "Encrypt toy_crypter toy_reader ''ab'' toy_state
     = (Ok ''ENCv1[QcNiYQ]'', \<lparr>noncePool = [''A''], rng = 66\<rparr>)"
  by code_simp

text \<open>
  C12: what was encrypted decrypts to what it was. The result of a successful \<open>Encrypt\<close> is
  tagged; \<open>Decrypt\<close> gives the plaintext back; and encrypting again, with any state, changes
  nothing.
\<close>

theorem Crypter_roundtrip:
  assumes "crypter_ok c" and "reader_ok rd" and "pool_ok c st" and "\<not> IsEncrypted data"
    and "Encrypt c rd data st = (Ok enc, st')"
  shows "IsEncrypted enc \<and> Decrypt c enc = Ok data \<and> Encrypt c rd enc st2 = (Ok enc, st2)
    \<and> pool_ok c st'"
proof -
  obtain err bytes w where r: "rd (nonceSize c) (rng st) = ((err, bytes), w)" by (metis prod.exhaust)
  from Encrypt_fresh [OF assms(4,3,2) r] assms(5)
  have n: "err = None" "enc = sealed c bytes data" "pool_ok c st'" by (auto split: option.splits)
  moreover have "length bytes = nonceSize c" using r n(1) reader_okD(2) [OF assms(2)] by blast
  ultimately show ?thesis
    using Decrypt_sealed [OF assms(1)] IsEncrypted_sealed by (simp add: Encrypt_def)
qed

theorem Crypter_roundtrip_witness:
  "\<not> IsEncrypted ''ab'' \<and> IsEncrypted ''ENCv1[QcNiYQ]'' \<and> Decrypt toy_crypter ''ENCv1[QcNiYQ]'' = Ok ''ab''"
proof -
  have n: "\<not> IsEncrypted ''ab''" by code_simp
  from Crypter_roundtrip [OF toy_ok n toy_encrypts] n show ?thesis by blast
qed

text \<open>
  The pooled buffers do not matter. With buffers of the right length in the pool,
  \<open>Encrypt\<close> of an untagged text fails exactly when the random source fails, with an error
  that is \<open>ErrReadNonce\<close> and the cause, and otherwise gives the tags around the encoding of
  the random bytes and the sealed text; its length depends on the length of the text alone. The
  buffers keep their length.
\<close>

lemma Encrypt_outcome:
  assumes "crypter_ok c" and "reader_ok rd" and "pool_ok c st" and "\<not> IsEncrypted data"
    and "rd (nonceSize c) (rng st) = ((err, bytes), w)"
  shows "fst (Encrypt c rd data st) =
      (case err of Some e \<Rightarrow> Err (wrap2 ErrReadNonce e)
       | None \<Rightarrow> Ok (''ENCv1['' @ b64_encode (bytes @ Seal (cr_aead c) bytes data) @ '']''))
    \<and> rng (snd (Encrypt c rd data st)) = w \<and> pool_ok c (snd (Encrypt c rd data st))
    \<and> (err = None \<longrightarrow> (\<exists>enc. fst (Encrypt c rd data st) = Ok enc
         \<and> length enc = 7 + (4 * (nonceSize c + length data + Overhead (cr_aead c)) + 2) div 3))
    \<and> (\<forall>e. err = Some e \<longrightarrow> errors_Is (wrap2 ErrReadNonce e) ErrReadNonce \<and> errors_Is (wrap2 ErrReadNonce e) e)"
proof -
  obtain pool where e: "Encrypt c rd data st =
      (case err of Some e \<Rightarrow> Err (wrap2 ErrReadNonce e) | None \<Rightarrow> Ok (sealed c bytes data),
       \<lparr>noncePool = pool, rng = w\<rparr>)" "pool_ok c \<lparr>noncePool = pool, rng = w\<rparr>"
    using Encrypt_fresh [OF assms(4,3,2,5)] by blast
  have "length (sealed c bytes data) = 7 + (4 * (nonceSize c + length data + Overhead (cr_aead c)) + 2) div 3"
    if "err = None"
  proof -
    have "length bytes = nonceSize c" using assms(5) that reader_okD(2) [OF assms(2)] by blast
    moreover from this have "length (Seal (cr_aead c) bytes data) = length data + Overhead (cr_aead c)"
      using assms(1) by (simp add: crypter_ok_def aead_ok_def)
    ultimately show ?thesis by (simp add: sealed_def StartTag_def EndTag_def b64_encode_length)
  qed
  with e show ?thesis
    by (cases err) (simp_all add: sealed_def StartTag_def EndTag_def wrap2_def ErrReadNonce_def)
qed

lemma Encrypt_outcome_example:
  "toy_reader 1 65 = ((None, ''A''), 66)
    \<and> fst (Encrypt toy_crypter toy_reader ''ab'' toy_state) =
        Ok (''ENCv1['' @ b64_encode (''A'' @ Seal toy_aead ''A'' ''ab'') @ '']'')"
proof -
  have n: "\<not> IsEncrypted ''ab''" by code_simp
  have r: "toy_reader (nonceSize toy_crypter) (rng toy_state) = ((None, ''A''), 66)" by code_simp
  from Encrypt_outcome [OF toy_ok n r] r show ?thesis
    by (simp add: toy_crypter_def toy_state_def)
qed

text \<open>
  C35: every way \<open>Decrypt\<close> can end. Untagged text passes through. A tagged text gives exactly
  one of: an invalid ciphertext when the end tag is missing or the payload too short for nonce
  and tag, an empty payload, a decoding error when the payload is not base64, \<open>ErrOpen\<close>
  around the error of the cipher when it does not authenticate, and otherwise what the cipher
  opened. Each failure is recognised by \<open>errors.Is\<close>.
\<close>

theorem Decrypt_cases:
  "(\<not> IsEncrypted data \<longrightarrow> Decrypt c data = Ok data)
    \<and> (e \<noteq> CHR '']'' \<longrightarrow> Decrypt c (''ENCv1['' @ payload @ [e]) = Err ErrInvalidCipherText)
    \<and> Decrypt c ''ENCv1[]'' = Err ErrEmptyPayload
    \<and> (payload \<noteq> [] \<and> b64_decode payload = None \<longrightarrow>
         (\<exists>x. Decrypt c (''ENCv1['' @ payload @ '']'') = Err x \<and> errors_Is x ErrBase64Decode))
    \<and> (payload \<noteq> [] \<and> b64_decode payload = Some raw \<and> length raw < nonceSize c + Overhead (cr_aead c) \<longrightarrow>
         Decrypt c (''ENCv1['' @ payload @ '']'') = Err ErrInvalidCipherText)
    \<and> (payload \<noteq> [] \<and> b64_decode payload = Some raw \<and> nonceSize c + Overhead (cr_aead c) \<le> length raw \<longrightarrow>
         (case Open (cr_aead c) (take (nonceSize c) raw) (drop (nonceSize c) raw) of
            Ok pt \<Rightarrow> Decrypt c (''ENCv1['' @ payload @ '']'') = Ok pt
          | Panic \<Rightarrow> Decrypt c (''ENCv1['' @ payload @ '']'') = Panic
          | Err x \<Rightarrow> (\<exists>y. Decrypt c (''ENCv1['' @ payload @ '']'') = Err y \<and> errors_Is y ErrOpen \<and> errors_Is y x)))"
proof -
  have d: "Decrypt c (''ENCv1['' @ p @ [e]) = Decrypt c (StartTag @ p @ [e])" for p e
    by (simp add: StartTag_def)
  have "Decrypt c ''ENCv1[]'' = Err ErrEmptyPayload"
    using Decrypt_tagged [of c "[]" "CHR '']''"] by (simp add: StartTag_def)
  then show ?thesis
    unfolding d Decrypt_tagged
    by (auto simp: Decrypt_def wrap2_def crypter_errors split: gores.splits)
qed

theorem Decrypt_cases_witness:
  "b64_decode ''QcNiYR'' = Some (''A'' @ [CHR 0xC3] @ ''ba'')
    \<and> Decrypt toy_crypter ''ENCv1[QcNiYR]'' = Ok ''ab'' \<and> Decrypt toy_crypter ''ENCv1[QQ]'' = Err ErrInvalidCipherText"
proof -
  have b: "b64_decode ''QcNiYR'' = Some (''A'' @ [CHR 0xC3] @ ''ba'')" "b64_decode ''QQ'' = Some ''A''"
    by code_simp+
  have o: "Open (cr_aead toy_crypter) (take 1 (''A'' @ [CHR 0xC3] @ ''ba'')) (drop 1 (''A'' @ [CHR 0xC3] @ ''ba'')) = Ok ''ab''"
    by code_simp
  show ?thesis
    using Decrypt_cases [of "[]" toy_crypter "CHR '']''" "''QcNiYR''" "''A'' @ [CHR 0xC3] @ ''ba''"]
      Decrypt_cases [of "[]" toy_crypter "CHR '']''" "''QQ''" "''A''"] b o
    by (simp add: toy_crypter_def toy_aead_def)
qed

text \<open>
  The keys \<open>New\<close> takes. It fails with \<open>ErrInvalidKeyLength\<close> exactly for secrets that
  are not 16, 24 or 32 bytes long, before the cipher is asked; a failure of the cipher or of the
  mode is wrapped in its own sentinel; and a crypter that was built caches the nonce size of its
  cipher.
\<close>

lemma crypter_New_cases:
  "(crypter_New nc ng secret = Err ErrInvalidKeyLength \<longleftrightarrow> length secret \<notin> {16, 24, 32})
    \<and> (crypter_New nc ng secret = Ok c \<longrightarrow>
        length secret \<in> {16, 24, 32} \<and> nonceSize c = NonceSize (cr_aead c) \<and> pool_ok c \<lparr>noncePool = [], rng = w\<rparr>
        \<and> (\<exists>b. nc secret = Ok b \<and> ng b = Ok (cr_aead c)))
    \<and> (crypter_New nc ng secret = Err x \<longrightarrow> x = ErrInvalidKeyLength
        \<or> (\<exists>y. nc secret = Err y \<and> errors_Is x ErrNewCipher \<and> errors_Is x y)
        \<or> (\<exists>b y. nc secret = Ok b \<and> ng b = Err y \<and> errors_Is x ErrNewGCM \<and> errors_Is x y))"
  by (auto simp: crypter_New_def Let_def pool_ok_def wrap2_def crypter_errors split: gores.splits)

lemma crypter_New_cases_example:
  "\<exists>c. crypter_New Ok (\<lambda>_. Ok toy_aead) ''0123456789abcdef'' = Ok c \<and> nonceSize c = 1"
proof -
  have c: "crypter_New Ok (\<lambda>_. Ok toy_aead) ''0123456789abcdef'' = Ok toy_crypter"
    by (simp add: crypter_New_def toy_crypter_def toy_aead_def)
  have "nonceSize toy_crypter = NonceSize (cr_aead toy_crypter)"
    by (rule crypter_New_cases [THEN conjunct2, THEN conjunct1, rule_format, OF c,
        THEN conjunct2, THEN conjunct1])
  then have "nonceSize toy_crypter = 1" by (simp add: toy_crypter_def toy_aead_def)
  with c show ?thesis by blast
qed

text \<open>
  A text that is exactly the start tag is not taken for encrypted, although it begins with it:
  it is encrypted and comes back.
\<close>

lemma bare_tag_encrypted:
  "\<not> IsEncrypted ''ENCv1['' \<and> fst (Encrypt toy_crypter toy_reader ''ENCv1['' toy_state) \<noteq> Ok ''ENCv1[''"
  by code_simp

end
