(* ===== verification/Crypter_Yaml.thy ===== *)
theory Crypter_Yaml
  imports Crypter
begin

section \<open>Encrypting the values of a YAML document\<close>

text \<open>
  Models \<open>crypter/yaml/yaml.go\<close>: the walks over the node tree that encrypt the values of
  secret keys and decrypt tagged values. The parser and the printer of yaml.v3 are parameters
  of the two entry points. A node pointer is a term, \<open>Nil\<close> or a node with its children; an
  alias keeps its target among the fields the walks never look at.
\<close>

subsection \<open>Nodes\<close>

datatype ykind = ZeroNode | DocumentNode | SequenceNode | MappingNode | ScalarNode | AliasNode

datatype ystyle = DefaultStyle | DoubleQuotedStyle | OtherStyle nat

text \<open>The last field but one holds anchor, alias, comments and position.\<close>

datatype 'x ynode = Nil
  | Node (ykind: ykind) (ytag: string) (yvalue: string) (ystyle: ystyle) (yrest: 'x) (ycontent: "'x ynode list")

text \<open>The interface \<open>Crypter\<close>; encryption changes a state, of a pool and a random source, say.\<close>

record 's ycrypter =
  y_Encrypt :: "string \<Rightarrow> 's \<Rightarrow> (goerror, string) gores \<times> 's"
  y_Decrypt :: "string \<Rightarrow> (goerror, string) gores"
  y_IsEncrypted :: "string \<Rightarrow> bool"
  y_StartTag :: string

record ystats =
  Encrypted :: int
  Skipped :: int

text \<open>The state of a walk: that of the crypter, and the counters when the caller wants them.\<close>

record 's ywalk =
  w_c :: 's
  w_stats :: "ystats option"

definition ErrYAMLDecode :: goerror where
  "ErrYAMLDecode = sentinel ''crypter/yaml: yaml decode failed''"

definition ErrYAMLEncode :: goerror where
  "ErrYAMLEncode = sentinel ''crypter/yaml: yaml encode failed''"

definition ErrYAMLDecrypt :: goerror where
  "ErrYAMLDecrypt = sentinel ''crypter/yaml: yaml decrypt failed''"

definition ErrNilPredicate :: goerror where
  "ErrNilPredicate = sentinel ''crypter/yaml: nil isSecret predicate''"

text \<open>
  \<open>strings.ToLower\<close> as far as the table of literals can see it: no letter outside ASCII
  lowers to a letter that occurs in a literal.
\<close>

definition ascii_lower :: "char \<Rightarrow> char" where
  "ascii_lower c = (if 65 \<le> code c \<and> code c \<le> 90 then byte (code c + 32) else c)"

definition yamlBoolLiterals :: "string list" where
  "yamlBoolLiterals = [''yes'', ''no'', ''on'', ''off'', ''true'', ''false'']"

definition bool_literal :: "string \<Rightarrow> bool" where
  "bool_literal v \<longleftrightarrow> map ascii_lower v \<in> set yamlBoolLiterals"

subsection \<open>Walks\<close>

definition encrypt_scalar :: "'s ycrypter \<Rightarrow> 'x ynode \<Rightarrow> 's ywalk \<Rightarrow> (goerror, 'x ynode) gores \<times> 's ywalk" where
  "encrypt_scalar c n s =
     (case n of Nil \<Rightarrow> (Panic, s)
      | Node k tag v st x cs \<Rightarrow>
          if tag \<noteq> ''!!str'' then (Ok n, s)
          else if bool_literal v then (Ok n, s)
          else if Contains v ''{{'' then (Ok n, s)
          else if y_IsEncrypted c v
          then (Ok n, s\<lparr>w_stats := map_option (\<lambda>t. t\<lparr>Skipped := Skipped t + 1\<rparr>) (w_stats s)\<rparr>)
          else
            (case y_Encrypt c v (w_c s) of
               (Err e, cs') \<Rightarrow> (Err e, s\<lparr>w_c := cs'\<rparr>)
             | (Panic, cs') \<Rightarrow> (Panic, s\<lparr>w_c := cs'\<rparr>)
             | (Ok enc, cs') \<Rightarrow> (Ok (Node k ''!!str'' enc DoubleQuotedStyle x cs),
                 s\<lparr>w_c := cs', w_stats := map_option (\<lambda>t. t\<lparr>Encrypted := Encrypted t + 1\<rparr>) (w_stats s)\<rparr>)))"

text \<open>
  \<open>encrypt_list\<close> and \<open>encrypt_secrets\<close> are the loops over the children of \<open>walk\<close> and of
  \<open>encryptSecret\<close>, \<open>encrypt_pairs\<close> that of \<open>mappingValues\<close>.
\<close>

function encrypt_walk and encrypt_pairs and encrypt_list and encrypt_secret and encrypt_secrets where
  "encrypt_walk c p Nil = go_ret Nil"
| "encrypt_walk c p (Node k t v st x cs) =
     (case k of
        MappingNode \<Rightarrow> go_bind (encrypt_pairs c p cs) (\<lambda>cs. go_ret (Node k t v st x cs))
      | DocumentNode \<Rightarrow> go_bind (encrypt_list c p cs) (\<lambda>cs. go_ret (Node k t v st x cs))
      | SequenceNode \<Rightarrow> go_bind (encrypt_list c p cs) (\<lambda>cs. go_ret (Node k t v st x cs))
      | _ \<Rightarrow> go_ret (Node k t v st x cs))"
| "encrypt_pairs c p [] = go_ret []"
| "encrypt_pairs c p [key] = go_ret [key]"
| "encrypt_pairs c p (key # val # rest) =
     (if key = Nil then (\<lambda>s. (Panic, s))
      else if p (yvalue key)
      then go_bind (encrypt_secret c p val) (\<lambda>val. go_bind (encrypt_pairs c p rest) (\<lambda>rest. go_ret (key # val # rest)))
      else go_bind (encrypt_walk c p val) (\<lambda>val. go_bind (encrypt_pairs c p rest) (\<lambda>rest. go_ret (key # val # rest))))"
| "encrypt_list c p [] = go_ret []"
| "encrypt_list c p (n # ns) =
     go_bind (encrypt_walk c p n) (\<lambda>n. go_bind (encrypt_list c p ns) (\<lambda>ns. go_ret (n # ns)))"
| "encrypt_secret c p Nil = go_ret Nil"
| "encrypt_secret c p (Node k t v st x cs) =
     (case k of
        ScalarNode \<Rightarrow> encrypt_scalar c (Node k t v st x cs)
      | SequenceNode \<Rightarrow> go_bind (encrypt_secrets c p cs) (\<lambda>cs. go_ret (Node k t v st x cs))
      | _ \<Rightarrow> encrypt_walk c p (Node k t v st x cs))"
| "encrypt_secrets c p [] = go_ret []"
| "encrypt_secrets c p (n # ns) =
     go_bind (encrypt_secret c p n) (\<lambda>n. go_bind (encrypt_secrets c p ns) (\<lambda>ns. go_ret (n # ns)))"
  by pat_completeness auto
termination
  by (relation "measure (\<lambda>a. case a of
      Inl (Inl (_, _, n)) \<Rightarrow> 2 * size n | Inl (Inr (_, _, cs)) \<Rightarrow> 2 * size_list size cs
    | Inr (Inl (_, _, cs)) \<Rightarrow> 2 * size_list size cs
    | Inr (Inr (Inl (_, _, n))) \<Rightarrow> 2 * size n + 1 | Inr (Inr (Inr (_, _, cs))) \<Rightarrow> 2 * size_list size cs)")
    auto

definition decrypt_scalar :: "'s ycrypter \<Rightarrow> 'x ynode \<Rightarrow> (goerror, 'x ynode) gores" where
  "decrypt_scalar c n =
     (case n of Nil \<Rightarrow> Panic
      | Node k tag v st x cs \<Rightarrow>
          if tag \<noteq> ''!!str'' \<or> \<not> y_IsEncrypted c v then Ok n
          else
            (case y_Decrypt c v of
               Err e \<Rightarrow> Err (wrap2 ErrYAMLDecrypt e)
             | Panic \<Rightarrow> Panic
             | Ok pt \<Rightarrow>
                 if y_IsEncrypted c pt then Err ErrYAMLDecrypt
                 else Ok (Node k ''!!str'' pt DefaultStyle x cs)))"

function decrypt_walk and decrypt_pairs and decrypt_list where
  "decrypt_walk c Nil = Ok Nil"
| "decrypt_walk c (Node k t v st x cs) =
     (case k of
        MappingNode \<Rightarrow> gobind (decrypt_pairs c cs) (\<lambda>cs. Ok (Node k t v st x cs))
      | ScalarNode \<Rightarrow> decrypt_scalar c (Node k t v st x cs)
      | AliasNode \<Rightarrow> Ok (Node k t v st x cs)
      | _ \<Rightarrow> gobind (decrypt_list c cs) (\<lambda>cs. Ok (Node k t v st x cs)))"
| "decrypt_pairs c [] = Ok []"
| "decrypt_pairs c [key] = Ok [key]"
| "decrypt_pairs c (key # val # rest) =
     gobind (decrypt_walk c val) (\<lambda>val. gobind (decrypt_pairs c rest) (\<lambda>rest. Ok (key # val # rest)))"
| "decrypt_list c [] = Ok []"
| "decrypt_list c (n # ns) = gobind (decrypt_walk c n) (\<lambda>n. gobind (decrypt_list c ns) (\<lambda>ns. Ok (n # ns)))"
  by pat_completeness auto
termination
  by (relation "measure (\<lambda>a. case a of
      Inl (_, n) \<Rightarrow> size n | Inr (Inl (_, cs)) \<Rightarrow> size_list size cs | Inr (Inr (_, cs)) \<Rightarrow> size_list size cs)")
    auto

text \<open>The document node is a variable of its own, zero before the parser fills it.\<close>

fun kind_of :: "'x ynode \<Rightarrow> ykind" where
  "kind_of Nil = ZeroNode"
| "kind_of (Node k t v st x cs) = k"

definition EncryptBytes ::
    "(string \<Rightarrow> (goerror, 'x ynode) gores) \<Rightarrow> ('x ynode \<Rightarrow> (goerror, string) gores) \<Rightarrow>
     string \<Rightarrow> (string \<Rightarrow> bool) option \<Rightarrow> 's ycrypter \<Rightarrow> ystats option \<Rightarrow> 's
     \<Rightarrow> (goerror, string) gores \<times> 's ywalk" where
  "EncryptBytes Unmarshal Marshal b isSecret c stats cs =
     (let w = \<lparr>w_c = cs, w_stats = stats\<rparr> in
      case isSecret of None \<Rightarrow> (Err ErrNilPredicate, w)
      | Some p \<Rightarrow>
          if b = [] then (Ok b, w)
          else
            (case Unmarshal b of
               Err e \<Rightarrow> (Err (wrap2 ErrYAMLDecode e), w)
             | Panic \<Rightarrow> (Panic, w)
             | Ok n \<Rightarrow>
                 if kind_of n = ZeroNode then (Ok b, w)
                 else
                   (case encrypt_walk c p n w of
                      (Err e, w) \<Rightarrow> (Err e, w)
                    | (Panic, w) \<Rightarrow> (Panic, w)
                    | (Ok n, w) \<Rightarrow>
                        (case Marshal n of
                           Err e \<Rightarrow> (Err (wrap2 ErrYAMLEncode e), w)
                         | Panic \<Rightarrow> (Panic, w)
                         | Ok out \<Rightarrow> (Ok out, w)))))"

definition DecryptBytes ::
    "(string \<Rightarrow> (goerror, 'x ynode) gores) \<Rightarrow> ('x ynode \<Rightarrow> (goerror, string) gores) \<Rightarrow>
     string \<Rightarrow> 's ycrypter \<Rightarrow> (goerror, string) gores" where
  "DecryptBytes Unmarshal Marshal b c =
     (if b = [] then Ok b
      else if \<not> Contains b (y_StartTag c) then Ok b
      else
        (case Unmarshal b of
           Err e \<Rightarrow> Err (wrap2 ErrYAMLDecode e)
         | Panic \<Rightarrow> Panic
         | Ok n \<Rightarrow>
             if kind_of n = ZeroNode then Ok b
             else
               (case decrypt_walk c n of
                  Err e \<Rightarrow> Err e
                | Panic \<Rightarrow> Panic
                | Ok n \<Rightarrow>
                    (case Marshal n of
                       Err e \<Rightarrow> Err (wrap2 ErrYAMLEncode e)
                     | Panic \<Rightarrow> Panic
                     | Ok out \<Rightarrow> Ok out))))"

subsection \<open>What a walk may change\<close>

text \<open>
  The abstract account of a walk: two trees have the same shape, the same keys, tags and
  everything else, and differ only in value and style of scalars in value position, where
  \<open>R\<close> relates them. The flag says whether the scalar is reached through a secret key: it is
  decided at a mapping and kept through sequences.
\<close>

function node_rel and pairs_rel and list_rel where
  "node_rel R p sel Nil n' = (n' = Nil)"
| "node_rel R p sel (Node k t v st x cs) n' =
     (\<exists>v' st' cs'. n' = Node k t v' st' x cs' \<and>
        (case k of
           MappingNode \<Rightarrow> v' = v \<and> st' = st \<and> pairs_rel R p cs cs'
         | DocumentNode \<Rightarrow> v' = v \<and> st' = st \<and> list_rel R p False cs cs'
         | SequenceNode \<Rightarrow> v' = v \<and> st' = st \<and> list_rel R p sel cs cs'
         | ScalarNode \<Rightarrow> cs' = cs \<and> R sel t (v, st) (v', st')
         | _ \<Rightarrow> v' = v \<and> st' = st \<and> cs' = cs))"
| "pairs_rel R p [] ms = (ms = [])"
| "pairs_rel R p [key] ms = (ms = [key])"
| "pairs_rel R p (key # val # rest) ms =
     (\<exists>val' rest'. ms = key # val' # rest' \<and> key \<noteq> Nil \<and> node_rel R p (p (yvalue key)) val val' \<and> pairs_rel R p rest rest')"
| "list_rel R p sel [] ms = (ms = [])"
| "list_rel R p sel (n # ns) ms =
     (\<exists>m ms'. ms = m # ms' \<and> node_rel R p sel n m \<and> list_rel R p sel ns ms')"
  by pat_completeness auto
termination
  by (relation "measure (\<lambda>a. case a of
      Inl (_, _, _, n, _) \<Rightarrow> size n | Inr (Inl (_, _, cs, _)) \<Rightarrow> size_list size cs
    | Inr (Inr (_, _, _, cs, _)) \<Rightarrow> size_list size cs)")
    auto

text \<open>The sum of \<open>f\<close> over the scalars in value position.\<close>

function node_sum and pairs_sum and list_sum where
  "node_sum f p sel Nil = (0 :: int)"
| "node_sum f p sel (Node k t v st x cs) =
     (case k of
        MappingNode \<Rightarrow> pairs_sum f p cs
      | DocumentNode \<Rightarrow> list_sum f p False cs
      | SequenceNode \<Rightarrow> list_sum f p sel cs
      | ScalarNode \<Rightarrow> f sel t v
      | _ \<Rightarrow> 0)"
| "pairs_sum f p [] = 0"
| "pairs_sum f p [key] = 0"
| "pairs_sum f p (key # val # rest) = node_sum f p (p (yvalue key)) val + pairs_sum f p rest"
| "list_sum f p sel [] = 0"
| "list_sum f p sel (n # ns) = node_sum f p sel n + list_sum f p sel ns"
  by pat_completeness auto
termination
  by (relation "measure (\<lambda>a. case a of
      Inl (_, _, _, n) \<Rightarrow> size n | Inr (Inl (_, _, cs)) \<Rightarrow> size_list size cs
    | Inr (Inr (_, _, _, cs)) \<Rightarrow> size_list size cs)")
    auto

definition eligible :: "bool \<Rightarrow> string \<Rightarrow> string \<Rightarrow> bool" where
  "eligible sel t v \<longleftrightarrow> sel \<and> t = ''!!str'' \<and> \<not> bool_literal v \<and> \<not> Contains v ''{{''"

text \<open>
  What encryption does to one scalar: an eligible value that is not encrypted yet becomes a
  tagged one that decrypts to it, in double quotes; every other scalar stays.
\<close>

definition enc_step :: "'s ycrypter \<Rightarrow> bool \<Rightarrow> string \<Rightarrow> string \<times> ystyle \<Rightarrow> string \<times> ystyle \<Rightarrow> bool" where
  "enc_step c sel t a b \<longleftrightarrow>
     (if eligible sel t (fst a) \<and> \<not> y_IsEncrypted c (fst a)
      then y_IsEncrypted c (fst b) \<and> y_Decrypt c (fst b) = Ok (fst a) \<and> snd b = DoubleQuotedStyle
      else b = a)"

definition n_encrypted :: "'s ycrypter \<Rightarrow> bool \<Rightarrow> string \<Rightarrow> string \<Rightarrow> int" where
  "n_encrypted c sel t v = of_bool (eligible sel t v \<and> \<not> y_IsEncrypted c v)"

definition n_skipped :: "'s ycrypter \<Rightarrow> bool \<Rightarrow> string \<Rightarrow> string \<Rightarrow> int" where
  "n_skipped c sel t v = of_bool (eligible sel t v \<and> y_IsEncrypted c v)"

definition bump :: "int \<Rightarrow> int \<Rightarrow> ystats option \<Rightarrow> ystats option" where
  "bump a b st = map_option (\<lambda>t. \<lparr>Encrypted = Encrypted t + a, Skipped = Skipped t + b\<rparr>) st"

lemma bump_bump [simp]: "bump a b (bump a' b' st) = bump (a' + a) (b' + b) st"
  by (cases st) (simp_all add: bump_def)

lemma bump_0 [simp]: "bump 0 0 st = st"
  by (cases st) (simp_all add: bump_def)

text \<open>
  The interface between the two packages: from a good state, what is encrypted is tagged and
  decrypts back, and the state stays good, also after a failure.
\<close>

locale yaml_crypter =
  fixes cr :: "'s ycrypter" and St :: "'s \<Rightarrow> bool"
  assumes enc_law: "St s \<Longrightarrow> \<not> y_IsEncrypted cr v \<Longrightarrow> y_Encrypt cr v s = (Ok e, s') \<Longrightarrow>
      y_IsEncrypted cr e \<and> y_Decrypt cr e = Ok v"
    and enc_state: "St s \<Longrightarrow> y_Encrypt cr v s = (r, s') \<Longrightarrow> St s'"
begin

definition good_walk :: "'s ywalk \<Rightarrow> 's ywalk \<Rightarrow> int \<Rightarrow> int \<Rightarrow> bool" where
  "good_walk s s' a b \<longleftrightarrow> St (w_c s') \<and> w_stats s' = bump a b (w_stats s)"

lemma good_walk_trans:
  "good_walk s s' a b \<Longrightarrow> good_walk s' s'' a' b' \<Longrightarrow> good_walk s s'' (a + a') (b + b')"
  by (simp add: good_walk_def)

lemma good_walk_refl: "St (w_c s) \<Longrightarrow> good_walk s s 0 0"
  by (simp add: good_walk_def)

lemma encrypt_scalar_step:
  assumes "encrypt_scalar cr (Node k t v st x cs) s = (Ok n', s')" "St (w_c s)"
  shows "\<exists>v' st'. n' = Node k t v' st' x cs \<and> enc_step cr True t (v, st) (v', st')
    \<and> good_walk s s' (n_encrypted cr True t v) (n_skipped cr True t v)"
proof (cases "eligible True t v \<and> \<not> y_IsEncrypted cr v")
  case True
  obtain r cs' where e: "y_Encrypt cr v (w_c s) = (r, cs')" by force
  with assms(1) True obtain v' where r: "r = Ok v'"
    by (cases r) (auto simp: encrypt_scalar_def eligible_def)
  have "y_IsEncrypted cr v' \<and> y_Decrypt cr v' = Ok v" "St cs'"
    using enc_law [OF assms(2)] enc_state [OF assms(2) e] True e r by auto
  with assms(1) True e r show ?thesis
    by (cases "w_stats s") (auto simp: encrypt_scalar_def eligible_def enc_step_def good_walk_def
        bump_def n_encrypted_def n_skipped_def)
next
  case False
  with assms show ?thesis
    by (auto simp: encrypt_scalar_def eligible_def enc_step_def good_walk_def bump_def
        n_encrypted_def n_skipped_def map_option_case split: if_splits option.splits)
qed

lemma encrypt_refines_all:
  fixes n n' :: "'x ynode" and cs cs' :: "'x ynode list"
  shows
  "encrypt_walk c p n s = (Ok n', s') \<Longrightarrow> c = cr \<Longrightarrow> St (w_c s) \<Longrightarrow>
     node_rel (enc_step cr) p False n n'
     \<and> good_walk s s' (node_sum (n_encrypted cr) p False n) (node_sum (n_skipped cr) p False n)"
  "encrypt_pairs c p cs s = (Ok cs', s') \<Longrightarrow> c = cr \<Longrightarrow> St (w_c s) \<Longrightarrow>
     pairs_rel (enc_step cr) p cs cs'
     \<and> good_walk s s' (pairs_sum (n_encrypted cr) p cs) (pairs_sum (n_skipped cr) p cs)"
  "encrypt_list c p cs s = (Ok cs', s') \<Longrightarrow> c = cr \<Longrightarrow> St (w_c s) \<Longrightarrow>
     list_rel (enc_step cr) p False cs cs'
     \<and> good_walk s s' (list_sum (n_encrypted cr) p False cs) (list_sum (n_skipped cr) p False cs)"
  "encrypt_secret c p n s = (Ok n', s') \<Longrightarrow> c = cr \<Longrightarrow> St (w_c s) \<Longrightarrow>
     node_rel (enc_step cr) p True n n'
     \<and> good_walk s s' (node_sum (n_encrypted cr) p True n) (node_sum (n_skipped cr) p True n)"
  "encrypt_secrets c p cs s = (Ok cs', s') \<Longrightarrow> c = cr \<Longrightarrow> St (w_c s) \<Longrightarrow>
     list_rel (enc_step cr) p True cs cs'
     \<and> good_walk s s' (list_sum (n_encrypted cr) p True cs) (list_sum (n_skipped cr) p True cs)"
proof (induction c p n and c p cs and c p cs and c p n and c p cs arbitrary: s n' s' and s cs' s' and s cs' s' and s n' s' and s cs' s'
    rule: encrypt_walk_encrypt_pairs_encrypt_list_encrypt_secret_encrypt_secrets.induct)
  case (2 c p k t v st x cs)
  show ?case
  proof (cases k)
    case DocumentNode
    from 2 DocumentNode show ?thesis by (auto simp: go_bind_Ok)
  next
    case SequenceNode
    from 2 SequenceNode show ?thesis by (auto simp: go_bind_Ok)
  next
    case MappingNode
    from 2 MappingNode show ?thesis by (auto simp: go_bind_Ok)
  qed (use 2 in \<open>auto simp: enc_step_def eligible_def n_encrypted_def n_skipped_def good_walk_refl\<close>)
next
  case (5 c p key val rest)
  have key: "key \<noteq> Nil" using 5(5) by auto
  show ?case
  proof (cases "p (yvalue key)")
    case True
    with 5(5) key obtain val' s1 rest' where
      w: "encrypt_secret c p val s = (Ok val', s1)" "encrypt_pairs c p rest s1 = (Ok rest', s')"
        "cs' = key # val' # rest'"
      by (auto simp: go_bind_Ok)
    from 5(1) [OF key True w(1) 5(6,7)] have a: "node_rel (enc_step cr) p True val val'"
      "good_walk s s1 (node_sum (n_encrypted cr) p True val) (node_sum (n_skipped cr) p True val)" by auto
    have "St (w_c s1)" using a(2) by (simp add: good_walk_def)
    from 5(2) [OF key True w(2) 5(6) this] a w(3) True key show ?thesis
      by (auto intro: good_walk_trans)
  next
    case False
    with 5(5) key obtain val' s1 rest' where
      w: "encrypt_walk c p val s = (Ok val', s1)" "encrypt_pairs c p rest s1 = (Ok rest', s')"
        "cs' = key # val' # rest'"
      by (auto simp: go_bind_Ok)
    from 5(3) [OF key False w(1) 5(6,7)] have a: "node_rel (enc_step cr) p False val val'"
      "good_walk s s1 (node_sum (n_encrypted cr) p False val) (node_sum (n_skipped cr) p False val)" by auto
    have "St (w_c s1)" using a(2) by (simp add: good_walk_def)
    from 5(4) [OF key False w(2) 5(6) this] a w(3) False key show ?thesis
      by (auto intro: good_walk_trans)
  qed
next
  case (7 c p n ns)
  then obtain m s1 ms where
    w: "encrypt_walk c p n s = (Ok m, s1)" "encrypt_list c p ns s1 = (Ok ms, s')" "cs' = m # ms"
    by (auto simp: go_bind_Ok)
  from 7(1) [OF w(1) 7(4,5)] have a: "node_rel (enc_step cr) p False n m"
    "good_walk s s1 (node_sum (n_encrypted cr) p False n) (node_sum (n_skipped cr) p False n)" by auto
  have "St (w_c s1)" using a(2) by (simp add: good_walk_def)
  from 7(2) [OF w(2) 7(4) this] a w(3) show ?case by (auto intro: good_walk_trans)
next
  case (9 c p k t v st x cs)
  show ?case
  proof (cases k)
    case ScalarNode
    with 9(6,7) have "encrypt_scalar cr (Node k t v st x cs) s = (Ok n', s')" by simp
    from encrypt_scalar_step [OF this 9(8)] ScalarNode show ?thesis by auto
  next
    case SequenceNode
    with 9 show ?thesis by (auto simp: go_bind_Ok)
  qed (use 9 in auto)
next
  case (11 c p n ns)
  then obtain m s1 ms where
    w: "encrypt_secret c p n s = (Ok m, s1)" "encrypt_secrets c p ns s1 = (Ok ms, s')" "cs' = m # ms"
    by (auto simp: go_bind_Ok)
  from 11(1) [OF w(1) 11(4,5)] have a: "node_rel (enc_step cr) p True n m"
    "good_walk s s1 (node_sum (n_encrypted cr) p True n) (node_sum (n_skipped cr) p True n)" by auto
  have "St (w_c s1)" using a(2) by (simp add: good_walk_def)
  from 11(2) [OF w(2) 11(4) this] a w(3) show ?case by (auto intro: good_walk_trans)
qed (auto simp: good_walk_refl)

lemmas encrypt_refines = encrypt_refines_all(1) [OF _ refl]

end

text \<open>The package \<open>crypter\<close> provides the interface.\<close>

definition crypter_iface :: "crypter \<Rightarrow> 'w reader \<Rightarrow> 'w cstate ycrypter" where
  "crypter_iface c rd = \<lparr>y_Encrypt = Encrypt c rd, y_Decrypt = Decrypt c, y_IsEncrypted = IsEncrypted,
     y_StartTag = StartTag\<rparr>"

interpretation yc: yaml_crypter "crypter_iface c rd" "\<lambda>st. crypter_ok c \<and> reader_ok rd \<and> pool_ok c st" for c rd
proof unfold_locales
  fix s s' :: "'a cstate" and v e r
  obtain err bytes w where rd: "rd (nonceSize c) (rng s) = ((err, bytes), w)" by (metis prod.exhaust)
  assume ok: "crypter_ok c \<and> reader_ok rd \<and> pool_ok c s"
  show "y_IsEncrypted (crypter_iface c rd) e \<and> y_Decrypt (crypter_iface c rd) e = Ok v"
    if nenc: "\<not> y_IsEncrypted (crypter_iface c rd) v"
      and enc: "y_Encrypt (crypter_iface c rd) v s = (Ok e, s')"
  proof -
    from Encrypt_fresh [where c = c and rd = rd and data = v and st = s] rd ok nenc enc
    have n: "err = None" "e = sealed c bytes v" by (auto simp: crypter_iface_def split: option.splits)
    then have "length bytes = nonceSize c" using rd ok reader_okD(2) [of rd] by blast
    with n(2) ok show ?thesis by (simp add: crypter_iface_def Decrypt_sealed IsEncrypted_sealed)
  qed
  show "crypter_ok c \<and> reader_ok rd \<and> pool_ok c s'"
    if "y_Encrypt (crypter_iface c rd) v s = (r, s')"
  proof (cases "IsEncrypted v")
    case True
    with that ok show ?thesis by (simp add: crypter_iface_def Encrypt_def)
  next
    case False
    from Encrypt_fresh [where c = c and rd = rd and data = v and st = s] rd False ok that show ?thesis
      by (auto simp: crypter_iface_def)
  qed
qed

subsection \<open>Encrypting twice\<close>

definition again :: "bool \<Rightarrow> 's ycrypter \<Rightarrow> (string \<Rightarrow> bool) \<Rightarrow> 'x ynode \<Rightarrow> 's ywalk \<Rightarrow> (goerror, 'x ynode) gores \<times> 's ywalk" where
  "again sel = (if sel then encrypt_secret else encrypt_walk)"

definition agains :: "bool \<Rightarrow> 's ycrypter \<Rightarrow> (string \<Rightarrow> bool) \<Rightarrow> 'x ynode list \<Rightarrow> 's ywalk
    \<Rightarrow> (goerror, 'x ynode list) gores \<times> 's ywalk" where
  "agains sel = (if sel then encrypt_secrets else encrypt_list)"

definition skip_by :: "int \<Rightarrow> 's ywalk \<Rightarrow> 's ywalk" where
  "skip_by k s = s\<lparr>w_stats := bump 0 k (w_stats s)\<rparr>"

lemma skip_by_simps [simp]: "skip_by a (skip_by b s) = skip_by (b + a) s" "skip_by 0 s = s"
  by (simp_all add: skip_by_def)

lemma go_bind_skip: "m s = (Ok a, skip_by i s) \<Longrightarrow> go_bind m f s = f a (skip_by i s)"
  by (simp add: go_bind_def)

lemma encrypt_scalar_again:
  "enc_step c sel t (v0, st0) (v, st) \<Longrightarrow> sel \<Longrightarrow>
    encrypt_scalar c (Node k t v st x cs) s = (Ok (Node k t v st x cs), skip_by (n_skipped c sel t v) s)"
  by (auto simp: enc_step_def encrypt_scalar_def eligible_def n_skipped_def skip_by_def bump_def
      map_option_case split: if_splits option.splits)

lemma encrypt_again_all:
  fixes n m :: "'x ynode" and ns ms :: "'x ynode list"
  shows
  "node_rel R p sel n m \<Longrightarrow> R = enc_step c \<Longrightarrow>
     again sel c p m s = (Ok m, skip_by (node_sum (n_skipped c) p sel m) s)"
  "pairs_rel R p ns ms \<Longrightarrow> R = enc_step c \<Longrightarrow>
     encrypt_pairs c p ms s = (Ok ms, skip_by (pairs_sum (n_skipped c) p ms) s)"
  "list_rel R p sel ns ms \<Longrightarrow> R = enc_step c \<Longrightarrow>
     agains sel c p ms s = (Ok ms, skip_by (list_sum (n_skipped c) p sel ms) s)"
proof (induction R p sel n m and R p ns ms and R p sel ns ms arbitrary: s and s and s
    rule: node_rel_pairs_rel_list_rel.induct)
  case (2 R p sel k t v st x cs n')
  then obtain v' st' cs' where n': "n' = Node k t v' st' x cs'" by auto
  show ?case
  proof (cases k)
    case DocumentNode
    with 2 n' show ?thesis by (cases sel) (auto simp: again_def agains_def go_bind_skip go_ret_def)
  next
    case SequenceNode
    with 2 n' show ?thesis by (cases sel) (auto simp: again_def agains_def go_bind_skip go_ret_def)
  next
    case MappingNode
    with 2 n' show ?thesis by (cases sel) (auto simp: again_def agains_def go_bind_skip go_ret_def)
  next
    case ScalarNode
    with 2 n' have "enc_step c sel t (v, st) (v', st')" by simp
    from encrypt_scalar_again [OF this] n' ScalarNode show ?thesis
      by (auto simp: again_def go_ret_def n_skipped_def eligible_def)
  qed (use 2 n' in \<open>auto simp: again_def go_ret_def\<close>)
next
  case (5 R p key val rest ms)
  then obtain val' rest' where ms: "ms = key # val' # rest'" "key \<noteq> Nil"
    "node_rel R p (p (yvalue key)) val val'" "pairs_rel R p rest rest'" by auto
  note a = 5(1) [OF ms(3) 5(4)] and b = 5(2) [OF ms(4) 5(4)]
  show ?case
    using ms(1,2) a b by (auto simp: again_def go_bind_skip go_ret_def split: if_splits)
next
  case (7 R p sel n ns ms)
  then obtain m ms' where ms: "ms = m # ms'" "node_rel R p sel n m" "list_rel R p sel ns ms'" by auto
  note a = 7(1) [OF ms(2) 7(4)] and b = 7(2) [OF ms(3) 7(4)]
  show ?case using ms(1) a b by (cases sel) (auto simp: again_def agains_def go_bind_skip go_ret_def)
qed (auto simp: again_def agains_def go_ret_def)

subsection \<open>Decrypting\<close>

text \<open>\<open>P\<close> holds for tag and value of every scalar the decryption visits.\<close>

function node_all and pairs_all and list_all_nodes where
  "node_all P Nil = True"
| "node_all P (Node k t v st x cs) =
     (case k of
        MappingNode \<Rightarrow> pairs_all P cs
      | ScalarNode \<Rightarrow> P t v
      | AliasNode \<Rightarrow> True
      | _ \<Rightarrow> list_all_nodes P cs)"
| "pairs_all P [] = True"
| "pairs_all P [key] = True"
| "pairs_all P (key # val # rest) = (node_all P val \<and> pairs_all P rest)"
| "list_all_nodes P [] = True"
| "list_all_nodes P (n # ns) = (node_all P n \<and> list_all_nodes P ns)"
  by pat_completeness auto
termination
  by (relation "measure (\<lambda>a. case a of
      Inl (_, n) \<Rightarrow> size n | Inr (Inl (_, cs)) \<Rightarrow> size_list size cs | Inr (Inr (_, cs)) \<Rightarrow> size_list size cs)")
    auto

text \<open>A tree without the values and styles decryption may rewrite; keys keep theirs.\<close>

function skel and skel_pairs and skel_list where
  "skel Nil = Nil"
| "skel (Node k t v st x cs) =
     (case k of
        MappingNode \<Rightarrow> Node k t v st x (skel_pairs cs)
      | ScalarNode \<Rightarrow> Node k t [] DefaultStyle x cs
      | AliasNode \<Rightarrow> Node k t v st x cs
      | _ \<Rightarrow> Node k t v st x (skel_list cs))"
| "skel_pairs [] = []"
| "skel_pairs [key] = [key]"
| "skel_pairs (key # val # rest) = key # skel val # skel_pairs rest"
| "skel_list [] = []"
| "skel_list (n # ns) = skel n # skel_list ns"
  by pat_completeness auto
termination
  by (relation "measure (\<lambda>a. case a of
      Inl n \<Rightarrow> size n | Inr (Inl cs) \<Rightarrow> size_list size cs | Inr (Inr cs) \<Rightarrow> size_list size cs)")
    auto

definition untagged :: "'s ycrypter \<Rightarrow> string \<Rightarrow> string \<Rightarrow> bool" where
  "untagged c t v \<longleftrightarrow> \<not> (t = ''!!str'' \<and> y_IsEncrypted c v)"

lemma decrypt_scalar_strict:
  assumes "decrypt_scalar c (Node k t v st x cs) = Ok n'"
  shows "\<exists>v' st'. n' = Node k t v' st' x cs \<and> untagged c t v' \<and> (untagged c t v \<longrightarrow> v' = v)"
  using assms by (auto simp: decrypt_scalar_def untagged_def split: if_splits gores.splits)

lemma decrypt_scalar_untagged:
  "untagged c t v \<Longrightarrow> decrypt_scalar c (Node k t v st x cs) = Ok (Node k t v st x cs)"
  by (auto simp: decrypt_scalar_def untagged_def)

lemma decrypt_strict_all:
  fixes n n' :: "'x ynode" and cs cs' :: "'x ynode list"
  shows
  "decrypt_walk c n = Ok n' \<Longrightarrow> node_all (untagged c) n' \<and> skel n' = skel n"
  "decrypt_pairs c cs = Ok cs' \<Longrightarrow> pairs_all (untagged c) cs' \<and> skel_pairs cs' = skel_pairs cs"
  "decrypt_list c cs = Ok cs' \<Longrightarrow> list_all_nodes (untagged c) cs' \<and> skel_list cs' = skel_list cs"
proof (induction c n and c cs and c cs arbitrary: n' and cs' and cs'
    rule: decrypt_walk_decrypt_pairs_decrypt_list.induct)
  case (2 c k t v st x cs)
  show ?case
  proof (cases k)
    case ScalarNode
    with 2(5) have "decrypt_scalar c (Node k t v st x cs) = Ok n'" by simp
    from decrypt_scalar_strict [OF this] ScalarNode show ?thesis by auto
  qed (use 2 in auto)
qed (auto split: if_splits)

lemma decrypt_untagged_all:
  fixes n :: "'x ynode" and cs :: "'x ynode list"
  shows
  "node_all (untagged c) n \<Longrightarrow> decrypt_walk c n = Ok n"
  "pairs_all (untagged c) cs \<Longrightarrow> decrypt_pairs c cs = Ok cs"
  "list_all_nodes (untagged c) cs \<Longrightarrow> decrypt_list c cs = Ok cs"
proof (induction c n and c cs and c cs rule: decrypt_walk_decrypt_pairs_decrypt_list.induct)
  case (2 c k t v st x cs)
  then show ?case by (cases k) (simp_all add: decrypt_scalar_untagged)
qed simp_all

text \<open>After a round trip values are back and only the style of the encrypted ones is reset.\<close>

definition restored :: "bool \<Rightarrow> string \<Rightarrow> string \<times> ystyle \<Rightarrow> string \<times> ystyle \<Rightarrow> bool" where
  "restored sel t a b \<longleftrightarrow> fst b = fst a \<and> snd b = (if eligible sel t (fst a) then DefaultStyle else snd a)"

lemma decrypt_scalar_restores:
  assumes "enc_step c sel t (v, st) (v', st')" "untagged c t v"
  shows "\<exists>st''. decrypt_scalar c (Node k t v' st' x cs) = Ok (Node k t v st'' x cs)
    \<and> restored sel t (v, st) (v, st'')"
  using assms by (auto simp: enc_step_def decrypt_scalar_def untagged_def restored_def eligible_def
      split: if_splits)

lemma decrypt_restores_all:
  fixes n n' :: "'x ynode" and cs cs' :: "'x ynode list"
  shows
  "node_rel R p sel n n' \<Longrightarrow> R = enc_step c \<Longrightarrow> node_all (untagged c) n \<Longrightarrow>
     \<exists>m. decrypt_walk c n' = Ok m \<and> node_rel restored p sel n m"
  "pairs_rel R p cs cs' \<Longrightarrow> R = enc_step c \<Longrightarrow> pairs_all (untagged c) cs \<Longrightarrow>
     \<exists>ms. decrypt_pairs c cs' = Ok ms \<and> pairs_rel restored p cs ms"
  "list_rel R p sel cs cs' \<Longrightarrow> R = enc_step c \<Longrightarrow> list_all_nodes (untagged c) cs \<Longrightarrow>
     \<exists>ms. decrypt_list c cs' = Ok ms \<and> list_rel restored p sel cs ms"
proof (induction R p sel n n' and R p cs cs' and R p sel cs cs' rule: node_rel_pairs_rel_list_rel.induct)
  case (2 R p sel k t v st x cs n')
  then obtain v' st' cs' where n': "n' = Node k t v' st' x cs'" by auto
  show ?case
  proof (cases k)
    case ScalarNode
    with 2 n' have "enc_step c sel t (v, st) (v', st')" "untagged c t v" "cs' = cs" by simp_all
    with decrypt_scalar_restores [OF this(1,2)] n' ScalarNode show ?thesis by fastforce
  next
    case ZeroNode
    with 2 n' show ?thesis by (auto simp: decrypt_untagged_all)
  qed (use 2 n' in fastforce)+
next
  case (5 R p key val rest ms)
  then obtain val' rest' where ms: "ms = key # val' # rest'" "key \<noteq> Nil"
    "node_rel R p (p (yvalue key)) val val'" "pairs_rel R p rest rest'" by auto
  from 5(1) [OF ms(3) 5(4)] 5(2) [OF ms(4) 5(4)] 5(5) ms(1,2) show ?case by auto
next
  case (7 R p sel n ns ms)
  then obtain m ms' where ms: "ms = m # ms'" "node_rel R p sel n m" "list_rel R p sel ns ms'" by auto
  from 7(1) [OF ms(2) 7(4)] 7(2) [OF ms(3) 7(4)] 7(5) ms(1) show ?case by auto
qed auto

text \<open>Every error of a decrypting walk is the error of some scalar.\<close>

lemma decrypt_errors_all:
  fixes n :: "'x ynode" and cs :: "'x ynode list"
  assumes "\<And>m x. decrypt_scalar c (m :: 'x ynode) = Err x \<Longrightarrow> Q x"
  shows
  "decrypt_walk c' n = Err x \<Longrightarrow> c' = c \<Longrightarrow> Q x"
  "decrypt_pairs c' cs = Err x \<Longrightarrow> c' = c \<Longrightarrow> Q x"
  "decrypt_list c' cs = Err x \<Longrightarrow> c' = c \<Longrightarrow> Q x"
proof (induction c' n and c' cs and c' cs rule: decrypt_walk_decrypt_pairs_decrypt_list.induct)
  case (2 c' k t v st x cs)
  then show ?case by (cases k) (auto simp: gobind_Err_iff assms)
qed (auto simp: gobind_Err_iff)

subsection \<open>Properties\<close>

abbreviation demo_node :: "ykind \<Rightarrow> string \<Rightarrow> string \<Rightarrow> unit ynode list \<Rightarrow> unit ynode" where
  "demo_node k t v cs \<equiv> Node k t v DefaultStyle () cs"

definition demo_doc :: "unit ynode" where
  "demo_doc = demo_node DocumentNode [] [] [demo_node MappingNode ''!!map'' []
     [demo_node ScalarNode ''!!str'' ''secret'' [], demo_node ScalarNode ''!!str'' ''ab'' [],
      demo_node ScalarNode ''!!str'' ''port'' [], demo_node ScalarNode ''!!int'' ''80'' []]]"

definition demo_enc :: "unit ynode" where
  "demo_enc = demo_node DocumentNode [] [] [demo_node MappingNode ''!!map'' []
     [demo_node ScalarNode ''!!str'' ''secret'' [],
      Node ScalarNode ''!!str'' ''ENCv1[QcNiYQ]'' DoubleQuotedStyle () [],
      demo_node ScalarNode ''!!str'' ''port'' [], demo_node ScalarNode ''!!int'' ''80'' []]]"

definition is_secret :: "string \<Rightarrow> bool" where
  "is_secret k \<longleftrightarrow> k = ''secret''"

definition demo_walk :: "nat cstate ywalk" where
  "demo_walk = \<lparr>w_c = toy_state, w_stats = Some \<lparr>Encrypted = 0, Skipped = 0\<rparr>\<rparr>"

definition demo_walk' :: "nat cstate ywalk" where
  "demo_walk' = \<lparr>w_c = \<lparr>noncePool = [''A''], rng = 66\<rparr>, w_stats = Some \<lparr>Encrypted = 1, Skipped = 0\<rparr>\<rparr>"

lemma demo_plain: "\<not> bool_literal ''ab'' \<and> \<not> Contains ''ab'' ''{{'' \<and> \<not> IsEncrypted ''ab''"
  by code_simp

lemma demo_walk_run:
  "encrypt_walk (crypter_iface toy_crypter toy_reader) is_secret demo_doc demo_walk = (Ok demo_enc, demo_walk')"
  using demo_plain toy_encrypts
  by (simp add: demo_doc_def demo_enc_def demo_walk_def demo_walk'_def is_secret_def go_bind_def go_ret_def
      encrypt_scalar_def crypter_iface_def)

text \<open>Which skipped values no counter sees.\<close>

lemma encrypt_scalar_uncounted:
  "t \<noteq> ''!!str'' \<or> bool_literal v \<or> Contains v ''{{'' \<Longrightarrow>
    encrypt_scalar c (Node k t v st x cs) s = (Ok (Node k t v st x cs), s)"
  by (auto simp: encrypt_scalar_def)

text \<open>
  C13: encryption changes what it should and nothing else. When the walk with the package's
  crypter succeeds, the new tree has the shape, keys, tags and everything else of the old one;
  exactly the string scalars reached through a secret key, alone or in sequences, that are no
  boolean literal, no template and not encrypted yet have become tagged values that decrypt to
  what they were; the counters grew by exactly the numbers of values encrypted and of secret strings
  found encrypted already; and a second walk encrypts nothing and returns the same tree. What is left
  alone for another reason, no string, a boolean literal or a template, is in neither counter: so says the
  comment on \<open>Stats\<close>, while the README has all skipped values counted (\<open>encrypt_scalar_uncounted\<close>).
\<close>

theorem Yaml_encrypt_exact:
  assumes "crypter_ok c" and "reader_ok rd" and "pool_ok c (w_c s)"
    and "encrypt_walk (crypter_iface c rd) p n s = (Ok n', s')"
  shows "node_rel (enc_step (crypter_iface c rd)) p False n n'
    \<and> w_stats s' = bump (node_sum (n_encrypted (crypter_iface c rd)) p False n)
        (node_sum (n_skipped (crypter_iface c rd)) p False n) (w_stats s)
    \<and> encrypt_walk (crypter_iface c rd) p n' s2 =
        (Ok n', skip_by (node_sum (n_skipped (crypter_iface c rd)) p False n') s2)"
proof -
  have "crypter_ok c \<and> reader_ok rd \<and> pool_ok c (w_c s)" using assms(1-3) by blast
  from yc.encrypt_refines [OF assms(4) this] have
    r: "node_rel (enc_step (crypter_iface c rd)) p False n n'"
    and w: "w_stats s' = bump (node_sum (n_encrypted (crypter_iface c rd)) p False n)
        (node_sum (n_skipped (crypter_iface c rd)) p False n) (w_stats s)"
    by (simp_all add: yc.good_walk_def)
  from encrypt_again_all(1) [OF r refl, of s2] r w show ?thesis by (simp add: again_def)
qed

theorem Yaml_encrypt_exact_witness:
  "encrypt_walk (crypter_iface toy_crypter toy_reader) is_secret demo_doc demo_walk = (Ok demo_enc, demo_walk')
    \<and> fst (encrypt_walk (crypter_iface toy_crypter toy_reader) is_secret demo_enc demo_walk') = Ok demo_enc"
proof -
  have "pool_ok toy_crypter (w_c demo_walk)" using toy_ok(3) by (simp add: demo_walk_def)
  from Yaml_encrypt_exact [OF toy_ok(1,2) this demo_walk_run] demo_walk_run show ?thesis by simp
qed

text \<open>
  C14: the round trip of a document. If no string value of the tree is tagged already, then
  decrypting the encrypted tree succeeds and gives the tree back: every value, key, tag and the
  shape; only the style of the values that were encrypted is reset.
\<close>

theorem Yaml_roundtrip:
  assumes "crypter_ok c" and "reader_ok rd" and "pool_ok c (w_c s)"
    and "node_all (untagged (crypter_iface c rd)) n"
    and "encrypt_walk (crypter_iface c rd) p n s = (Ok n', s')"
  shows "\<exists>m. decrypt_walk (crypter_iface c rd) n' = Ok m \<and> node_rel restored p False n m"
proof -
  have "crypter_ok c \<and> reader_ok rd \<and> pool_ok c (w_c s)" using assms(1-3) by blast
  from yc.encrypt_refines [OF assms(5) this] have
    "node_rel (enc_step (crypter_iface c rd)) p False n n'" ..
  from decrypt_restores_all(1) [OF this refl assms(4)] show ?thesis .
qed

theorem Yaml_roundtrip_witness:
  "node_all (untagged (crypter_iface toy_crypter toy_reader)) demo_doc
    \<and> (\<exists>m. decrypt_walk (crypter_iface toy_crypter toy_reader) demo_enc = Ok m
        \<and> node_rel restored is_secret False demo_doc m)"
proof -
  have p: "pool_ok toy_crypter (w_c demo_walk)" using toy_ok(3) by (simp add: demo_walk_def)
  have n: "node_all (untagged (crypter_iface toy_crypter toy_reader)) demo_doc"
    using demo_plain by (simp add: demo_doc_def untagged_def crypter_iface_def)
  from Yaml_roundtrip [OF toy_ok(1,2) p n demo_walk_run] n show ?thesis by blast
qed

text \<open>
  C15: decryption is strict and leaves the structure alone. With any crypter, a walk that
  succeeds leaves no tagged string value, so no ciphertext reaches the output; keys, tags and
  shape are as before even when a key looks encrypted; and decrypting again changes nothing.
\<close>

theorem Yaml_decrypt_strict:
  assumes "decrypt_walk c n = Ok n'"
  shows "node_all (untagged c) n' \<and> skel n' = skel n \<and> decrypt_walk c n' = Ok n'"
  using decrypt_strict_all(1) [OF assms] decrypt_untagged_all(1) by blast

theorem Yaml_decrypt_strict_witness:
  "\<exists>m. decrypt_walk (crypter_iface toy_crypter toy_reader) demo_enc = Ok m
    \<and> node_all (untagged (crypter_iface toy_crypter toy_reader)) m \<and> skel m = skel demo_enc"
proof -
  have d: "decrypt_walk (crypter_iface toy_crypter toy_reader) demo_enc = Ok demo_doc"
  proof -
    have "IsEncrypted ''ENCv1[QcNiYQ]'' \<and> Decrypt toy_crypter ''ENCv1[QcNiYQ]'' = Ok ''ab''" by code_simp
    then show ?thesis using demo_plain
      by (simp add: demo_doc_def demo_enc_def decrypt_scalar_def crypter_iface_def)
  qed
  from Yaml_decrypt_strict [OF d] d show ?thesis by blast
qed

text \<open>
  The two entry points around the walks. Without a predicate \<open>EncryptBytes\<close> fails before
  it looks at anything; empty input, and for \<open>DecryptBytes\<close> input without the start tag, comes
  back unchanged without being parsed; a failure of the parser or the printer is recognised as the error
  of the package and as its cause; and a tagged value that does not decrypt, or decrypts to a tagged
  value, is \<open>ErrYAMLDecrypt\<close>.
\<close>

theorem Yaml_bytes:
  "EncryptBytes U M b None c st cs = (Err ErrNilPredicate, \<lparr>w_c = cs, w_stats = st\<rparr>)
    \<and> EncryptBytes U M [] (Some p) c st cs = (Ok [], \<lparr>w_c = cs, w_stats = st\<rparr>)
    \<and> DecryptBytes U M [] c = Ok []
    \<and> (\<not> Contains b (y_StartTag c) \<longrightarrow> DecryptBytes U M b c = Ok b)
    \<and> (b \<noteq> [] \<and> U b = Err e \<longrightarrow> (\<exists>x. EncryptBytes U M b (Some p) c st cs = (Err x, \<lparr>w_c = cs, w_stats = st\<rparr>)
          \<and> errors_Is x ErrYAMLDecode \<and> errors_Is x e))
    \<and> (b \<noteq> [] \<and> U b = Ok n \<and> kind_of n \<noteq> ZeroNode
        \<and> encrypt_walk c p n \<lparr>w_c = cs, w_stats = st\<rparr> = (r, w) \<longrightarrow>
          (case r of Err e \<Rightarrow> EncryptBytes U M b (Some p) c st cs = (Err e, w)
           | Panic \<Rightarrow> EncryptBytes U M b (Some p) c st cs = (Panic, w)
           | Ok m \<Rightarrow> (case M m of Ok out \<Rightarrow> EncryptBytes U M b (Some p) c st cs = (Ok out, w)
                     | Panic \<Rightarrow> EncryptBytes U M b (Some p) c st cs = (Panic, w)
                     | Err e \<Rightarrow> (\<exists>x. EncryptBytes U M b (Some p) c st cs = (Err x, w)
                         \<and> errors_Is x ErrYAMLEncode \<and> errors_Is x e))))
    \<and> (Contains b (y_StartTag c) \<and> b \<noteq> [] \<and> U b = Ok n \<and> kind_of n \<noteq> ZeroNode
        \<and> decrypt_walk c n = Err x \<longrightarrow> DecryptBytes U M b c = Err x \<and> errors_Is x ErrYAMLDecrypt)"
proof -
  have sc: "decrypt_scalar c m = Err x \<Longrightarrow> errors_Is x ErrYAMLDecrypt" for m :: "'b ynode" and x
    by (auto simp: decrypt_scalar_def wrap2_def ErrYAMLDecrypt_def split: ynode.splits if_splits gores.splits)
  have strict: "decrypt_walk c m = Err x \<Longrightarrow> errors_Is x ErrYAMLDecrypt" for m :: "'b ynode" and x
    using decrypt_errors_all(1) [where Q = "\<lambda>x. errors_Is x ErrYAMLDecrypt", OF sc _ refl] .
  show ?thesis
    using strict [of n x]
    by (auto simp: EncryptBytes_def DecryptBytes_def Let_def wrap2_def ErrYAMLDecode_def ErrYAMLEncode_def
        split: gores.splits)
qed

lemma Yaml_bytes_example:
  "\<not> Contains ''a: b'' StartTag
    \<and> DecryptBytes (\<lambda>_. Ok demo_doc) (\<lambda>_. Ok []) ''a: b'' (crypter_iface toy_crypter toy_reader) = Ok ''a: b''"
proof -
  have n: "\<not> Contains ''a: b'' (y_StartTag (crypter_iface toy_crypter toy_reader))"
    by (simp add: crypter_iface_def StartTag_def HasPrefix_def)
  from n Yaml_bytes [of "\<lambda>_. Ok demo_doc" "\<lambda>_. Ok []" "''a: b''" "crypter_iface toy_crypter toy_reader"]
  show ?thesis by (simp add: crypter_iface_def)
qed

end
