(* ===== verification/Crontab_Shutdown.thy ===== *)
theory Crontab_Shutdown
  imports Crontab Go_Errors
begin

section \<open>Calls of Shutdown\<close>

text \<open>
  Models \<open>Shutdown\<close> of \<open>crontab/crontab.go\<close> call by call: any number of goroutines in it, each somewhere
  in \<open>once.Do\<close>, its waiter on the wait group, and the choice between the drain and the context. The
  scheduler below is that of \<open>Crontab\<close>, and the detailed system refines it: there all calls together are
  three steps, here each has its own end.
\<close>

subsection \<open>The calls\<close>

text \<open>
  Where a call is: at \<open>once.Do\<close>, in the function given to it before and after the flag is set, at the
  \<open>select\<close>, or back with its result. \<open>parked\<close> says that its waiter is in \<open>wg.Wait\<close>, and \<open>done_closed\<close> is
  its channel \<open>done\<close>, which the waiter closes after that;
  \<open>ctx_error\<close> what \<open>ctx.Err\<close> says once the context is over.
\<close>

datatype shutdown_pc = Entering | Flagging | Closing | Selecting | Returned "goerror option"

record shutdown_call =
  ctx_error :: goerror
  at :: shutdown_pc
  parked :: bool
  done_closed :: bool

text \<open>\<open>sync.Once\<close>: callers block while the first of them runs the function.\<close>

datatype once_state = Fresh | Running | Done

text \<open>One step of a call; \<open>expired\<close> says that the \<open>select\<close> takes the branch of the context.\<close>

definition Shutdown_step :: "bool \<Rightarrow> ('p, 'w) csys \<Rightarrow> once_state \<Rightarrow> shutdown_call
    \<Rightarrow> (('p, 'w) csys \<times> once_state \<times> shutdown_call) option" where
  "Shutdown_step expired b oc k =
     (case at k of
        Entering \<Rightarrow>
          (case oc of
             Fresh \<Rightarrow> Some (b, Running, k\<lparr>at := Flagging\<rparr>)
           | Running \<Rightarrow> None
           | Done \<Rightarrow> Some (b, Done, k\<lparr>at := Selecting\<rparr>))
      | Flagging \<Rightarrow>
          if unlocked b then Some (b\<lparr>tab := Shutdown_stop (tab b)\<rparr>, oc, k\<lparr>at := Closing\<rparr>) else None
      | Closing \<Rightarrow>
          if stop_closed (tab b) then Some (b\<lparr>crashed := True\<rparr>, oc, k)
          else Some (b\<lparr>tab := Shutdown_close (tab b)\<rparr>, Done, k\<lparr>at := Selecting\<rparr>)
      | Selecting \<Rightarrow>
          if expired then Some (b, oc, k\<lparr>at := Returned (Some (ctx_error k))\<rparr>)
          else if done_closed k then Some (b, oc, k\<lparr>at := Returned None\<rparr>)
          else None
      | Returned r \<Rightarrow> None)"

text \<open>The goroutine a call starts before its \<open>select\<close>: it outlives a call that gave up.\<close>

fun waiting :: "shutdown_pc \<Rightarrow> bool" where
  "waiting Selecting = True"
| "waiting (Returned r) = True"
| "waiting _ = False"

definition waiter_step :: "('p, 'w) csys \<Rightarrow> shutdown_call \<Rightarrow> (('p, 'w) csys \<times> shutdown_call) option" where
  "waiter_step b k =
     (if \<not> waiting (at k) \<or> done_closed k then None
      else if \<not> parked k then Some (b\<lparr>tab := Wait_begin (tab b)\<rparr>, k\<lparr>parked := True\<rparr>)
      else (case Wait_end (tab b) of
              None \<Rightarrow> None
            | Some c \<Rightarrow> Some (b\<lparr>tab := c, drained := True\<rparr>, k\<lparr>parked := False, done_closed := True\<rparr>)))"

record ('p, 'w) ssys =
  sched :: "('p, 'w) csys"
  once :: once_state
  calls :: "shutdown_call list"

definition ssys_init :: "('p, 'w) panic_handler \<Rightarrow> ('p, 'w) cron_option list \<Rightarrow> 'w \<Rightarrow> ('p, 'w) ssys" where
  "ssys_init h opts w = \<lparr>sched = csys_init h opts w, once = Fresh, calls = []\<rparr>"

text \<open>The steps of the scheduler that are not steps of a \<open>Shutdown\<close> keep its \<open>flags\<close>.\<close>

inductive sstep :: "('p, 'w) ssys \<Rightarrow> ('p, 'w) ssys \<Rightarrow> bool" where
  work: "quiet (sched s) b \<Longrightarrow> sstep s (s\<lparr>sched := b\<rparr>)"
| call: "\<not> crashed (sched s) \<Longrightarrow>
    sstep s (s\<lparr>calls := calls s @ [\<lparr>ctx_error = e, at = Entering, parked = False, done_closed = False\<rparr>]\<rparr>)"
| move: "\<not> crashed (sched s) \<Longrightarrow> calls s = us @ k # vs \<Longrightarrow>
    Shutdown_step expired (sched s) (once s) k = Some (b, oc, k') \<Longrightarrow>
    sstep s \<lparr>sched = b, once = oc, calls = us @ k' # vs\<rparr>"
| wake: "\<not> crashed (sched s) \<Longrightarrow> calls s = us @ k # vs \<Longrightarrow> waiter_step (sched s) k = Some (b, k') \<Longrightarrow>
    sstep s (s\<lparr>sched := b, calls := us @ k' # vs\<rparr>)"

subsection \<open>The invariant\<close>

text \<open>The one call inside \<open>once.Do\<close>, and what each state of the once says of the scheduler.\<close>

fun inside :: "shutdown_pc \<Rightarrow> bool" where
  "inside Flagging = True"
| "inside Closing = True"
| "inside _ = False"

definition once_ok :: "('p, 'w) ssys \<Rightarrow> bool" where
  "once_ok s \<longleftrightarrow>
     length (filter (\<lambda>k. inside (at k)) (calls s)) = (if once s = Running then 1 else 0)
     \<and> (once s = Fresh \<longrightarrow> \<not> stopped (tab (sched s)))
     \<and> (once s = Done \<longleftrightarrow> stop_closed (tab (sched s)))"

definition parked_ok :: "('p, 'w) ssys \<Rightarrow> bool" where
  "parked_ok s \<longleftrightarrow> length (filter parked (calls s)) = waiters (tab (sched s))"

definition call_ok :: "('p, 'w) ssys \<Rightarrow> shutdown_call \<Rightarrow> bool" where
  "call_ok s k \<longleftrightarrow>
     (done_closed k \<longrightarrow> drained (sched s))
     \<and> (case at k of
          Entering \<Rightarrow> \<not> done_closed k
        | Flagging \<Rightarrow> \<not> done_closed k \<and> \<not> stopped (tab (sched s))
        | Closing \<Rightarrow> \<not> done_closed k \<and> stopped (tab (sched s))
        | Selecting \<Rightarrow> once s = Done
        | Returned None \<Rightarrow> once s = Done \<and> done_closed k
        | Returned (Some e) \<Rightarrow> once s = Done \<and> e = ctx_error k)"

definition sinv :: "('p, 'w) ssys \<Rightarrow> bool" where
  "sinv s \<longleftrightarrow> cinv (sched s) \<and> once_ok s \<and> parked_ok s \<and> (\<forall>k \<in> set (calls s). call_ok s k)"

lemma sinv_init: "sinv (ssys_init h opts w)"
  by (simp add: sinv_def ssys_init_def once_ok_def parked_ok_def cinv_init) (simp add: csys_init_def)

lemma sinv_stop: "sinv s \<Longrightarrow> stop_closed (tab (sched s)) \<Longrightarrow> stopped (tab (sched s))"
  by (simp add: sinv_def cinv_def stop_inv_def)

lemma call_ok_cong:
  "flags (sched s') = flags (sched s) \<Longrightarrow> once s' = once s \<Longrightarrow> call_ok s' k = call_ok s k"
  by (auto simp: call_ok_def flags_def split: shutdown_pc.splits option.splits)

lemma once_ok_cong:
  "flags (sched s') = flags (sched s) \<Longrightarrow> once s' = once s \<Longrightarrow>
    length (filter (\<lambda>k. inside (at k)) (calls s')) = length (filter (\<lambda>k. inside (at k)) (calls s)) \<Longrightarrow>
    once_ok s' = once_ok s"
  by (simp add: once_ok_def flags_def)

text \<open>The calls beside the one that moves: while it is inside the once, they are all at its door.\<close>

lemma others_entering:
  assumes "sinv s" "calls s = us @ k # vs" "inside (at k)" "j \<in> set us \<union> set vs"
  shows "at j = Entering"
proof -
  have oc: "once s = Running" and none: "\<not> inside (at j)"
    using assms by (auto simp: sinv_def once_ok_def filter_empty_conv split: if_splits)
  have "call_ok s j" using assms by (auto simp: sinv_def)
  with oc none show ?thesis by (auto simp: call_ok_def split: shutdown_pc.splits option.splits)
qed

lemma moved_cases:
  assumes "Shutdown_step expired b oc k = Some (b', oc', k')"
  obtains (first) "at k = Entering" "oc = Fresh" "b' = b" "oc' = Running" "k' = k\<lparr>at := Flagging\<rparr>"
  | (later) "at k = Entering" "oc = Done" "b' = b" "oc' = Done" "k' = k\<lparr>at := Selecting\<rparr>"
  | (flag) "at k = Flagging" "unlocked b" "b' = b\<lparr>tab := Shutdown_stop (tab b)\<rparr>" "oc' = oc" "k' = k\<lparr>at := Closing\<rparr>"
  | (twice) "at k = Closing" "stop_closed (tab b)"
  | (close) "at k = Closing" "\<not> stop_closed (tab b)" "b' = b\<lparr>tab := Shutdown_close (tab b)\<rparr>" "oc' = Done"
      "k' = k\<lparr>at := Selecting\<rparr>"
  | (expire) "at k = Selecting" "b' = b" "oc' = oc" "k' = k\<lparr>at := Returned (Some (ctx_error k))\<rparr>"
  | (drain) "at k = Selecting" "done_closed k" "b' = b" "oc' = oc" "k' = k\<lparr>at := Returned None\<rparr>"
  using assms by (auto simp: Shutdown_step_def split: shutdown_pc.splits once_state.splits if_splits)

lemma move_sim:
  assumes "sinv s" "calls s = us @ k # vs" "Shutdown_step expired (sched s) (once s) k = Some (b, oc, k')"
  shows "b = sched s \<or> cstep (sched s) b"
proof -
  have nc: "\<not> crashed (sched s)" using assms(1) by (simp add: sinv_def cinv_def safe_inv_def)
  have k: "call_ok s k" using assms(1,2) by (simp add: sinv_def)
  have once: "once s = Running" if "inside (at k)"
    using assms(1,2) that by (auto simp: sinv_def once_ok_def split: if_splits)
  from assms(3) show ?thesis
  proof (cases rule: moved_cases)
    case flag
    with k nc show ?thesis by (auto simp: call_ok_def intro: shutdown_stop)
  next
    case twice
    with once assms(1) show ?thesis by (simp add: sinv_def once_ok_def)
  next
    case close
    with k nc show ?thesis by (auto simp: call_ok_def intro: shutdown_close)
  qed simp_all
qed

text \<open>The waiter enters \<open>Wait\<close>, or comes back from it and closes the channel.\<close>

lemma wake_cases:
  assumes "waiter_step b k = Some (b', k')"
  obtains (enter) "waiting (at k)" "\<not> done_closed k" "\<not> parked k" "b' = b\<lparr>tab := Wait_begin (tab b)\<rparr>"
      "k' = k\<lparr>parked := True\<rparr>"
  | (leave) c where "waiting (at k)" "\<not> done_closed k" "parked k" "Wait_end (tab b) = Some c"
      "b' = b\<lparr>tab := c, drained := True\<rparr>" "k' = k\<lparr>parked := False, done_closed := True\<rparr>"
  using assms by (auto simp: waiter_step_def split: if_splits option.splits)

lemma wake_sim:
  assumes "sinv s" "calls s = us @ k # vs" "waiter_step (sched s) k = Some (b, k')"
  shows "cstep (sched s) b"
proof -
  have nc: "\<not> crashed (sched s)" using assms(1) by (simp add: sinv_def cinv_def safe_inv_def)
  have k: "call_ok s k" using assms(1,2) by (simp add: sinv_def)
  from assms(3) show ?thesis
  proof (cases rule: wake_cases)
    case enter
    with k have "once s = Done" by (cases "at k") (auto simp: call_ok_def split: option.splits)
    then have "stop_closed (tab (sched s))" using assms(1) by (simp add: sinv_def once_ok_def)
    with nc enter show ?thesis by (auto intro: wait_begin)
  next
    case (leave c)
    with nc show ?thesis by (auto intro: wait_end)
  qed
qed

lemma move_inv:
  assumes inv: "sinv s" and c: "calls s = us @ k # vs"
    and step: "Shutdown_step expired (sched s) (once s) k = Some (b, oc, k')"
  shows "sinv \<lparr>sched = b, once = oc, calls = us @ k' # vs\<rparr>" (is "sinv ?s")
proof -
  have cinv: "cinv b"
    using move_sim [OF assms] inv cron.step_inv by (auto simp: sinv_def)
  have k: "call_ok s k" and all: "\<forall>j \<in> set us \<union> set vs. call_ok s j"
    and once: "once_ok s" using inv c by (auto simp: sinv_def)
  have stop: "once s = Done \<Longrightarrow> stopped (tab (sched s))"
    using sinv_stop [OF inv] once by (simp add: once_ok_def)
  note door = others_entering [OF inv c]
  have same: "\<forall>j \<in> set us \<union> set vs. call_ok ?s j" if "b = sched s" "oc = once s"
    using all that call_ok_cong [of ?s s] by simp
  have "once_ok ?s \<and> call_ok ?s k' \<and> (\<forall>j \<in> set us \<union> set vs. call_ok ?s j)"
    using step
  proof (cases rule: moved_cases)
    case first
    have "call_ok ?s j = call_ok s j" if "j \<in> set us \<union> set vs" for j
      using all that first by (auto simp: call_ok_def split: shutdown_pc.splits option.splits)
    with first k all once c show ?thesis by (auto simp: once_ok_def call_ok_def)
  next
    case later
    then have "call_ok ?s k'" "once_ok ?s" using k once c by (simp_all add: once_ok_def call_ok_def)
    with later same show ?thesis by simp
  next
    case flag
    have "call_ok ?s j" if "j \<in> set us \<union> set vs" for j
      using door [OF _ that] all that flag by (auto simp: call_ok_def)
    with flag k once c show ?thesis by (auto simp: once_ok_def call_ok_def Shutdown_stop_def split: if_splits)
  next
    case twice
    with once c show ?thesis by (auto simp: once_ok_def split: if_splits)
  next
    case close
    have "call_ok ?s j" if "j \<in> set us \<union> set vs" for j
      using door [OF _ that] all that close by (auto simp: call_ok_def)
    with close k once c show ?thesis by (auto simp: once_ok_def call_ok_def Shutdown_close_def split: if_splits)
  next
    case expire
    then have "call_ok ?s k'" "once_ok ?s" using k once c by (simp_all add: once_ok_def call_ok_def)
    with expire same show ?thesis by simp
  next
    case drain
    then have "call_ok ?s k'" "once_ok ?s" using k once c by (simp_all add: once_ok_def call_ok_def)
    with drain same show ?thesis by simp
  qed
  moreover have "parked k' = parked k" "waiters (tab b) = waiters (tab (sched s))"
    using step by (auto simp: Shutdown_step_def Shutdown_stop_def Shutdown_close_def
        split: shutdown_pc.splits once_state.splits if_splits)
  then have "parked_ok ?s" using inv c by (auto simp: sinv_def parked_ok_def split: if_splits)
  ultimately show ?thesis using cinv by (auto simp: sinv_def)
qed

lemma wake_inv:
  assumes inv: "sinv s" and c: "calls s = us @ k # vs" and step: "waiter_step (sched s) k = Some (b, k')"
  shows "sinv (s\<lparr>sched := b, calls := us @ k' # vs\<rparr>)" (is "sinv ?s")
proof -
  have cinv: "cinv b" using wake_sim [OF assms] inv cron.step_inv by (auto simp: sinv_def)
  have all: "\<forall>j \<in> set us \<union> set vs. call_ok s j" and k: "call_ok s k" and once: "once_ok s"
    using inv c by (auto simp: sinv_def)
  have frame: "stopped (tab b) = stopped (tab (sched s))" "stop_closed (tab b) = stop_closed (tab (sched s))"
    "drained (sched s) \<Longrightarrow> drained b" "at k' = at k" "ctx_error k' = ctx_error k" "done_closed k' \<Longrightarrow> drained b \<or> done_closed k"
    "done_closed k \<Longrightarrow> done_closed k'" "\<not> waiting (at k) \<Longrightarrow> done_closed k' = done_closed k"
    using step by (cases rule: wake_cases; auto simp: Wait_begin_def Wait_end_Some)+
  have same: "call_ok ?s j" if "call_ok s j" for j
    using that frame(1-3) by (auto simp: call_ok_def split: shutdown_pc.splits option.splits)
  have "call_ok ?s k'"
    using k frame by (cases "at k") (auto simp: call_ok_def split: option.splits)
  moreover have "parked_ok ?s"
    using step inv c by (cases rule: wake_cases) (auto simp: sinv_def parked_ok_def Wait_begin_def Wait_end_Some)
  moreover have "once_ok ?s" using once c frame(1,2,4) by (auto simp: once_ok_def split: if_splits)
  ultimately show ?thesis using cinv all same by (auto simp: sinv_def)
qed

lemma sinv_step: "sinv s \<Longrightarrow> sstep s s' \<Longrightarrow> sinv s'"
proof -
  assume inv: "sinv s" and step: "sstep s s'"
  from step show "sinv s'"
  proof (cases rule: sstep.cases)
    case (work b)
    then have b: "cstep (sched s) b" "flags b = flags (sched s)" by (simp_all add: quiet_def)
    then have "cinv b" using inv cron.step_inv by (auto simp: sinv_def)
    moreover have "once_ok s' = once_ok s" by (rule once_ok_cong) (simp_all add: work b)
    moreover have "call_ok s' k = call_ok s k" for k by (rule call_ok_cong) (simp_all add: work b)
    moreover have "parked_ok s' = parked_ok s" using b work by (simp add: parked_ok_def flags_def)
    ultimately show ?thesis using inv work by (simp add: sinv_def)
  next
    case (call e)
    have "once_ok s' = once_ok s" by (rule once_ok_cong) (simp_all add: call)
    moreover have "call_ok s' k = call_ok s k" for k by (rule call_ok_cong) (simp_all add: call)
    moreover have "parked_ok s' = parked_ok s" using call by (simp add: parked_ok_def)
    ultimately show ?thesis using inv call by (auto simp: sinv_def) (simp_all add: call_ok_def)
  next
    case (move us k vs expired b oc k')
    with move_inv [OF inv] show ?thesis by blast
  next
    case (wake us k vs b k')
    with wake_inv [OF inv] show ?thesis by blast
  qed
qed

lemma sstep_sim: "sinv s \<Longrightarrow> sstep s s' \<Longrightarrow> cstep\<^sup>*\<^sup>* (sched s) (sched s')"
  by (erule sstep.cases) (auto dest: move_sim wake_sim simp: quiet_def)

definition shut_start :: "('p, 'w) ssys \<Rightarrow> bool" where
  "shut_start s \<longleftrightarrow> (\<exists>h opts w. s = ssys_init h opts w)"

interpretation shut: simulation shut_start sstep sinv sched cstep
  by unfold_locales (auto simp: shut_start_def sinv_init intro: sinv_step sstep_sim)

subsection \<open>A call can always come to its end\<close>

text \<open>A run of the rest of the scheduler is a run beside the calls.\<close>

lemma work_run: "quiet\<^sup>*\<^sup>* b b' \<Longrightarrow> sched s = b \<Longrightarrow> sstep\<^sup>*\<^sup>* s (s\<lparr>sched := b'\<rparr>)"
proof (induction arbitrary: s rule: converse_rtranclp_induct)
  case (step b c)
  then have "sstep s (s\<lparr>sched := c\<rparr>)" by (auto intro: work)
  moreover have "sstep\<^sup>*\<^sup>* (s\<lparr>sched := c\<rparr>) (s\<lparr>sched := c\<rparr>\<lparr>sched := b'\<rparr>)" by (rule step.IH) simp
  ultimately show ?case by simp
next
  case base
  then have "s\<lparr>sched := b'\<rparr> = s" by (cases s) simp
  then show ?case by simp
qed

text \<open>The steps of the call with index \<open>n\<close>.\<close>

lemma move_nth:
  assumes "sinv s" "n < length (calls s)" "Shutdown_step expired (sched s) (once s) (calls s ! n) = Some (b, oc, k')"
  shows "sstep s \<lparr>sched = b, once = oc, calls = (calls s)[n := k']\<rparr>"
proof -
  have "\<not> crashed (sched s)" using assms(1) by (simp add: sinv_def cinv_def safe_inv_def)
  from move [OF this id_take_nth_drop [OF assms(2)] assms(3)] show ?thesis
    by (simp add: upd_conv_take_nth_drop assms(2))
qed

lemma wake_nth:
  assumes "sinv s" "n < length (calls s)" "waiter_step (sched s) (calls s ! n) = Some (b, k')"
  shows "sstep s (s\<lparr>sched := b, calls := (calls s)[n := k']\<rparr>)"
proof -
  have "\<not> crashed (sched s)" using assms(1) by (simp add: sinv_def cinv_def safe_inv_def)
  from wake [OF this id_take_nth_drop [OF assms(2)] assms(3)] show ?thesis
    by (simp add: upd_conv_take_nth_drop assms(2))
qed

definition comes_to :: "('p, 'w) ssys \<Rightarrow> nat \<Rightarrow> (('p, 'w) ssys \<Rightarrow> bool) \<Rightarrow> bool" where
  "comes_to s n P \<longleftrightarrow> (\<exists>s'. sstep\<^sup>*\<^sup>* s s' \<and> sinv s' \<and> length (calls s') = length (calls s)
     \<and> (\<forall>m. m \<noteq> n \<longrightarrow> calls s' ! m = calls s ! m) \<and> P s')"

lemma comes_toI:
  assumes "sstep\<^sup>*\<^sup>* s s'" "sinv s" "length (calls s') = length (calls s)" "\<And>m. m \<noteq> n \<Longrightarrow> calls s' ! m = calls s ! m" "P s'"
  shows "comes_to s n P"
  using assms shut.run_inv unfolding comes_to_def by blast

lemma comes_to_step:
  assumes "sstep s s'" "sinv s" "length (calls s') = length (calls s)" "\<And>m. m \<noteq> n \<Longrightarrow> calls s' ! m = calls s ! m" "P s'"
  shows "comes_to s n P"
  by (rule comes_toI [where s' = s']) (use assms in auto)

lemma comes_to_trans:
  assumes "comes_to s n P" "\<And>s'. sinv s' \<Longrightarrow> length (calls s') = length (calls s) \<Longrightarrow> P s' \<Longrightarrow> comes_to s' n Q"
  shows "comes_to s n Q"
proof -
  obtain t where t: "sstep\<^sup>*\<^sup>* s t" "sinv t" "length (calls t) = length (calls s)" "P t"
    and o1: "\<forall>m. m \<noteq> n \<longrightarrow> calls t ! m = calls s ! m"
    using assms(1) by (auto simp: comes_to_def)
  obtain u where "sstep\<^sup>*\<^sup>* t u" "sinv u" "length (calls u) = length (calls t)" "Q u"
    "\<forall>m. m \<noteq> n \<longrightarrow> calls u ! m = calls t ! m"
    using assms(2) [OF t(2-4)] by (auto simp: comes_to_def)
  with t o1 show ?thesis unfolding comes_to_def by (metis rtranclp_trans)
qed

lemma comes_to_move:
  assumes "sinv s" "n < length (calls s)" "Shutdown_step expired (sched s) (once s) (calls s ! n) = Some (b, oc, k')"
    and "P \<lparr>sched = b, once = oc, calls = (calls s)[n := k']\<rparr>"
  shows "comes_to s n P"
  by (rule comes_to_step [OF move_nth [OF assms(1-3)]]) (use assms in simp_all)

lemma inside_running: "sinv s \<Longrightarrow> n < length (calls s) \<Longrightarrow> inside (at (calls s ! n)) \<Longrightarrow> once s = Running"
  using nth_mem [of n "calls s"] by (auto simp: sinv_def once_ok_def filter_empty_conv split: if_splits)

lemma closing_selects:
  assumes "sinv s" "n < length (calls s)" "at (calls s ! n) = Closing"
  shows "comes_to s n (\<lambda>s'. once s' = Done \<and> at (calls s' ! n) = Selecting)"
proof -
  have "once s = Running" using inside_running [OF assms(1,2)] assms(3) by simp
  then have "\<not> stop_closed (tab (sched s))" using assms(1) by (simp add: sinv_def once_ok_def)
  then show ?thesis
    using assms by (intro comes_to_move [where expired = False]) (auto simp: Shutdown_step_def)
qed

lemma flagging_selects:
  assumes "sinv s" "n < length (calls s)" "at (calls s ! n) = Flagging"
  shows "comes_to s n (\<lambda>s'. once s' = Done \<and> at (calls s' ! n) = Selecting)"
proof (rule comes_to_trans)
  have "cinv (sched s)" using assms(1) by (simp add: sinv_def)
  then obtain b where b: "quiet\<^sup>*\<^sup>* (sched s) b" "unlocked b" using loop_unlocks by blast
  from work_run [OF b(1) refl]
  show "comes_to s n (\<lambda>s'. unlocked (sched s') \<and> at (calls s' ! n) = Flagging)"
    by (rule comes_toI) (use assms b in simp_all)
next
  fix t :: "('a, 'b) ssys"
  assume t: "sinv t" "length (calls t) = length (calls s)" "unlocked (sched t) \<and> at (calls t ! n) = Flagging"
  have "comes_to t n (\<lambda>s'. at (calls s' ! n) = Closing)"
    using t assms(2) by (intro comes_to_move [where expired = False]) (auto simp: Shutdown_step_def)
  then show "comes_to t n (\<lambda>s'. once s' = Done \<and> at (calls s' ! n) = Selecting)"
    by (rule comes_to_trans) (use t assms(2) in \<open>simp add: closing_selects\<close>)
qed

lemma inside_selects:
  assumes "sinv s" "n < length (calls s)" "inside (at (calls s ! n))"
  shows "comes_to s n (\<lambda>s'. once s' = Done \<and> at (calls s' ! n) = Selecting)"
  using assms by (cases "at (calls s ! n)") (auto intro: closing_selects flagging_selects)

text \<open>A call at the door gets through: alone, behind the one inside, or as the first.\<close>

lemma entering_selects:
  assumes inv: "sinv s" and n: "n < length (calls s)" "at (calls s ! n) = Entering"
  shows "\<exists>s'. sstep\<^sup>*\<^sup>* s s' \<and> sinv s' \<and> length (calls s') = length (calls s) \<and> at (calls s' ! n) = Selecting"
proof -
  have through: "\<exists>s'. sstep\<^sup>*\<^sup>* t s' \<and> sinv s' \<and> length (calls s') = length (calls t) \<and> at (calls s' ! n) = Selecting"
    if "sinv t" "n < length (calls t)" "at (calls t ! n) = Entering" "once t = Done" for t :: "('a, 'b) ssys"
  proof -
    have "comes_to t n (\<lambda>s'. at (calls s' ! n) = Selecting)"
      using that by (intro comes_to_move [where expired = False]) (auto simp: Shutdown_step_def)
    then show ?thesis by (auto simp: comes_to_def)
  qed
  show ?thesis
  proof (cases "once s")
    case Fresh
    have "comes_to s n (\<lambda>s'. at (calls s' ! n) = Flagging)"
      using assms Fresh by (intro comes_to_move [where expired = False]) (auto simp: Shutdown_step_def)
    then have "comes_to s n (\<lambda>s'. once s' = Done \<and> at (calls s' ! n) = Selecting)"
      by (rule comes_to_trans) (use n in \<open>simp add: flagging_selects\<close>)
    then show ?thesis by (auto simp: comes_to_def)
  next
    case Running
    then have "filter (\<lambda>k. inside (at k)) (calls s) \<noteq> []" using inv by (auto simp: sinv_def once_ok_def)
    then obtain j where j: "j < length (calls s)" "inside (at (calls s ! j))"
      by (auto simp: filter_empty_conv in_set_conv_nth)
    with n have jn: "n \<noteq> j" by auto
    obtain t where t: "sstep\<^sup>*\<^sup>* s t" "sinv t" "length (calls t) = length (calls s)" "once t = Done"
      and same: "calls t ! n = calls s ! n"
      using inside_selects [OF inv j] jn by (auto simp: comes_to_def)
    from through [OF t(2) _ _ t(4)] same t n show ?thesis by (metis rtranclp_trans)
  next
    case Done
    with through inv n show ?thesis by blast
  qed
qed

lemma parked_waits: "sinv s \<Longrightarrow> n < length (calls s) \<Longrightarrow> parked (calls s ! n) \<Longrightarrow> waiters (tab (sched s)) \<noteq> 0"
  using nth_mem [of n "calls s"] filter_empty_conv [of parked "calls s"] by (auto simp: sinv_def parked_ok_def)

text \<open>With the wait group at zero, the waiter of a call closes its channel.\<close>

lemma waiter_closes:
  assumes "sinv s" "n < length (calls s)" "Wait_returns (tab (sched s)) \<and> at (calls s ! n) = Selecting"
  shows "comes_to s n (\<lambda>s'. done_closed (calls s' ! n) \<and> at (calls s' ! n) = Selecting)"
proof (cases "done_closed (calls s ! n)")
  case True
  with assms show ?thesis by (intro comes_toI [of s s]) simp_all
next
  case False
  have leaves: "comes_to t n (\<lambda>s'. done_closed (calls s' ! n) \<and> at (calls s' ! n) = Selecting)"
    if t: "sinv t" "n < length (calls t)" "Wait_returns (tab (sched t))" "at (calls t ! n) = Selecting"
      "parked (calls t ! n)" "\<not> done_closed (calls t ! n)" for t :: "('a, 'b) ssys"
  proof -
    obtain c where "Wait_end (tab (sched t)) = Some c"
      using parked_waits [OF t(1,2,5)] t(3) by (simp add: Wait_end_def)
    then have "waiter_step (sched t) (calls t ! n) = Some ((sched t)\<lparr>tab := c, drained := True\<rparr>,
        (calls t ! n)\<lparr>parked := False, done_closed := True\<rparr>)"
      using t by (simp add: waiter_step_def)
    from wake_nth [OF t(1,2) this] show ?thesis by (rule comes_to_step) (use t in simp_all)
  qed
  show ?thesis
  proof (cases "parked (calls s ! n)")
    case True
    with leaves assms False show ?thesis by blast
  next
    case unparked: False
    then have "waiter_step (sched s) (calls s ! n) = Some ((sched s)\<lparr>tab := Wait_begin (tab (sched s))\<rparr>,
        (calls s ! n)\<lparr>parked := True\<rparr>)"
      using assms False by (simp add: waiter_step_def)
    from wake_nth [OF assms(1,2) this] have "comes_to s n (\<lambda>s'. Wait_returns (tab (sched s'))
        \<and> at (calls s' ! n) = Selecting \<and> parked (calls s' ! n) \<and> \<not> done_closed (calls s' ! n))"
      by (rule comes_to_step) (use assms False in \<open>simp_all add: Wait_begin_def Wait_returns_def\<close>)
    then show ?thesis by (rule comes_to_trans) (use leaves assms(2) in simp)
  qed
qed

lemma selecting_returns:
  assumes "sinv s" "n < length (calls s)" "at (calls s ! n) = Selecting"
  shows "comes_to s n (\<lambda>s'. at (calls s' ! n) = Returned None)"
proof (rule comes_to_trans)
  have "cinv (sched s)" using assms(1) by (simp add: sinv_def)
  then obtain b where b: "quiet\<^sup>*\<^sup>* (sched s) b" "Wait_returns (tab b)" using jobs_finish by blast
  from work_run [OF b(1) refl]
  show "comes_to s n (\<lambda>s'. Wait_returns (tab (sched s')) \<and> at (calls s' ! n) = Selecting)"
    by (rule comes_toI) (use assms b in simp_all)
next
  fix t :: "('a, 'b) ssys"
  assume t: "sinv t" "length (calls t) = length (calls s)" "Wait_returns (tab (sched t)) \<and> at (calls t ! n) = Selecting"
  then have "n < length (calls t)" using assms(2) by simp
  from waiter_closes [OF t(1) this t(3)] show "comes_to t n (\<lambda>s'. at (calls s' ! n) = Returned None)"
    by (rule comes_to_trans)
      (use t assms(2) in \<open>auto intro!: comes_to_move [where expired = False] simp: Shutdown_step_def\<close>)
qed

subsection \<open>Once the flag is set\<close>

abbreviation started :: "('p, 'w) csys \<Rightarrow> (nat \<times> instant) list" where
  "started b \<equiv> map (\<lambda>f. (f_job f, fired_at f)) (firings b)"

lemma stopped_step:
  assumes "cinv b" "stopped (tab b)" "cstep b b'"
  shows "stopped (tab b') \<and> started b' = started b \<and> length (jobs (tab b')) = length (jobs (tab b))"
proof -
  have "unlocked b" using assms(1,2) by (simp add: cinv_def stop_inv_def)
  with assms(3,2) show ?thesis
    by (cases rule: cstep.cases)
      (auto simp: unlocked_def AddJob_Ok outer_steps fire_done_Some set_phase_def map_update_same)
qed

lemma stopped_run:
  assumes "cstep\<^sup>*\<^sup>* b b'" "cinv b" "stopped (tab b)"
  shows "stopped (tab b') \<and> started b' = started b \<and> length (jobs (tab b')) = length (jobs (tab b))"
  by (rule cron.run_rel [OF assms(1,2)]) (use assms(3) stopped_step in fastforce)+

lemma returned_stopped: "sinv s \<Longrightarrow> k \<in> set (calls s) \<Longrightarrow> at k = Returned r \<Longrightarrow> once s = Done \<and> stopped (tab (sched s))"
  using sinv_stop [of s] by (cases r) (auto simp: sinv_def call_ok_def once_ok_def)

subsection \<open>Properties\<close>

text \<open>
  C20: what the return of a \<open>Shutdown\<close> says, among any number of concurrent calls. After nil every job
  ever started has finished and nothing runs any more; an error is that of the call's own context, and
  the jobs still running are left to end. Either way the scheduler is stopped for good: no job is started
  or registered from then on, and \<open>AddJob\<close> of a valid schedule fails with \<open>ErrClosed\<close>. The channel is
  closed once, whoever calls: nothing ever crashes.
\<close>

theorem shutdown_final:
  assumes "sstep\<^sup>*\<^sup>* (ssys_init h opts w) s" "k \<in> set (calls s)" "at k = Returned r" "sstep\<^sup>*\<^sup>* s s'"
  shows "\<not> crashed (sched s')
    \<and> (r = None \<longrightarrow> (\<forall>f \<in> set (firings (sched s)). f_phase f = Finished)
         \<and> firings (sched s') = firings (sched s) \<and> world (sched s') = world (sched s))
    \<and> (\<forall>e. r = Some e \<longrightarrow> e = ctx_error k)
    \<and> map (\<lambda>f. (f_job f, fired_at f)) (firings (sched s')) = map (\<lambda>f. (f_job f, fired_at f)) (firings (sched s))
    \<and> length (jobs (tab (sched s'))) = length (jobs (tab (sched s)))
    \<and> (parse spec = Some (Ok sc) \<longrightarrow> AddJob spec fn (tab (sched s')) = Some (Err ErrClosed))
    \<and> runDue now (tab (sched s')) = Ok (tab (sched s'), [])"
proof -
  have inv: "sinv s" by (rule shut.run_inv [OF assms(1) sinv_init])
  have "sinv s'" by (rule shut.run_inv [OF assms(4) inv])
  then have nc: "\<not> crashed (sched s')" by (simp add: sinv_def cinv_def safe_inv_def)
  have cinv: "cinv (sched s)" using inv by (simp add: sinv_def)
  note sim = shut.sim_run [OF assms(4) inv]
  note st = stopped_run [OF sim cinv returned_stopped [OF inv assms(2,3), THEN conjunct2]]
  have k: "call_ok s k" using inv assms(2) by (simp add: sinv_def)
  have "drained (sched s)" if "r = None" using k assms(3) that by (simp add: call_ok_def)
  then have "r = None \<longrightarrow> (\<forall>f \<in> set (firings (sched s)). f_phase f = Finished)
      \<and> firings (sched s') = firings (sched s) \<and> world (sched s') = world (sched s)"
    using drained_run [OF cinv _ sim] cinv by (auto simp: cinv_def stop_inv_def)
  moreover have "\<forall>e. r = Some e \<longrightarrow> e = ctx_error k" using k assms(3) by (auto simp: call_ok_def)
  ultimately show ?thesis using nc st by (simp add: AddJob_def runDue_def)
qed

text \<open>
  C21: no \<open>Shutdown\<close> gets stuck. From every reachable state, in the middle of a dispatch loop, with jobs
  running that panic, with other calls in \<open>once.Do\<close> or given up, each call that has not returned can
  go on to return nil, with all jobs finished and none of those started forgotten; and a call at its
  \<open>select\<close> can return the error of its context at any moment.
\<close>

theorem shutdown_returns:
  assumes "sstep\<^sup>*\<^sup>* (ssys_init h opts w) s" "n < length (calls s)" "\<forall>r. at (calls s ! n) \<noteq> Returned r"
  shows "(\<exists>s'. sstep\<^sup>*\<^sup>* s s' \<and> at (calls s' ! n) = Returned None
      \<and> (\<forall>f \<in> set (firings (sched s')). f_phase f = Finished)
      \<and> (\<exists>rest. map (\<lambda>f. (f_job f, fired_at f)) (firings (sched s'))
           = map (\<lambda>f. (f_job f, fired_at f)) (firings (sched s)) @ rest))
    \<and> (at (calls s ! n) = Selecting \<longrightarrow>
         (\<exists>s'. sstep s s' \<and> at (calls s' ! n) = Returned (Some (ctx_error (calls s ! n)))))"
proof
  have inv: "sinv s" by (rule shut.run_inv [OF assms(1) sinv_init])
  have "\<exists>t. sstep\<^sup>*\<^sup>* s t \<and> sinv t \<and> length (calls t) = length (calls s) \<and> at (calls t ! n) = Selecting"
  proof (cases "at (calls s ! n)")
    case Entering
    then show ?thesis by (rule entering_selects [OF inv assms(2)])
  next
    case Selecting
    then show ?thesis using inv by blast
  qed (use inside_selects [OF inv assms(2)] assms(3) in \<open>auto simp: comes_to_def\<close>)
  then obtain t where t: "sstep\<^sup>*\<^sup>* s t" "sinv t" "n < length (calls t)" "at (calls t ! n) = Selecting"
    using assms(2) by auto
  obtain s' where s': "sstep\<^sup>*\<^sup>* s s'" "sinv s'" "n < length (calls s')" "at (calls s' ! n) = Returned None"
    using selecting_returns [OF t(2-4)] t(1,3) by (auto simp: comes_to_def dest: rtranclp_trans)
  have "calls s' ! n \<in> set (calls s')" using s'(3) by simp
  then have "call_ok s' (calls s' ! n)" using s'(2) by (simp add: sinv_def)
  then have "drained (sched s')" using s'(4) by (simp add: call_ok_def)
  then have fin: "\<forall>f \<in> set (firings (sched s')). f_phase f = Finished"
    using s'(2) by (simp add: sinv_def cinv_def stop_inv_def)
  have "cinv (sched s)" using inv by (simp add: sinv_def)
  then have "\<exists>rest. started (sched s') = started (sched s) @ rest"
    by (rule cron.run_rel [OF shut.sim_run [OF s'(1) inv]]) (auto dest: history_step)
  with s' fin show "\<exists>s'. sstep\<^sup>*\<^sup>* s s' \<and> at (calls s' ! n) = Returned None
      \<and> (\<forall>f \<in> set (firings (sched s')). f_phase f = Finished)
      \<and> (\<exists>rest. started (sched s') = started (sched s) @ rest)" by blast
  show "at (calls s ! n) = Selecting \<longrightarrow>
      (\<exists>s'. sstep s s' \<and> at (calls s' ! n) = Returned (Some (ctx_error (calls s ! n))))"
  proof
    assume "at (calls s ! n) = Selecting"
    then have "Shutdown_step True (sched s) (once s) (calls s ! n)
        = Some (sched s, once s, (calls s ! n)\<lparr>at := Returned (Some (ctx_error (calls s ! n)))\<rparr>)"
      by (simp add: Shutdown_step_def)
    from move_nth [OF inv assms(2) this]
    show "\<exists>s'. sstep s s' \<and> at (calls s' ! n) = Returned (Some (ctx_error (calls s ! n)))"
      by (intro exI [where x = "\<lparr>sched = sched s, once = once s, calls = (calls s)
          [n := (calls s ! n)\<lparr>at := Returned (Some (ctx_error (calls s ! n)))\<rparr>]\<rparr>"] conjI) (simp_all add: assms(2))
  qed
qed

text \<open>
  A job runs, one \<open>Shutdown\<close> gives up waiting for it, and a second one arrives.
\<close>

definition demo_deadline :: goerror where
  "demo_deadline = ctx_DeadlineExceeded"

definition demo_given_up :: "(string, nat) ssys" where
  "demo_given_up = \<lparr>sched = demo_started\<lparr>tab := demo_tab True demo_minute True 1, runner := AtSelect\<rparr>, once = Done,
     calls = [\<lparr>ctx_error = demo_deadline, at = Returned (Some demo_deadline), parked = False, done_closed = False\<rparr>,
       \<lparr>ctx_error = demo_deadline, at = Entering, parked = False, done_closed = False\<rparr>]\<rparr>"

lemma demo_gives_up: "sstep\<^sup>*\<^sup>* (ssys_init demo_handler [] 0) demo_given_up"
proof -
  define s where "s = (\<lambda>st cl oc ks. \<lparr>sched = demo_started\<lparr>tab := (demo_tab st demo_minute True 1)\<lparr>stop_closed := cl\<rparr>,
    runner := AtSelect\<rparr>, once = oc, calls = ks\<rparr> :: (string, nat) ssys)"
  define k where "k = (\<lambda>pc. \<lparr>ctx_error = demo_deadline, at = pc, parked = False, done_closed = False\<rparr>)"
  note defs = s_def k_def demo_started_def demo_tab_def
  have "quiet demo_started (demo_started\<lparr>runner := AtSelect\<rparr>)"
    using loop_end [of demo_started demo_minute 1] by (simp add: quiet_def flags_def demo_started_def demo_tab_def)
  with demo_reach_quiet have "quiet\<^sup>*\<^sup>* (csys_init demo_handler [] 0) (demo_started\<lparr>runner := AtSelect\<rparr>)" by simp
  from work_run [OF this, of "ssys_init demo_handler [] 0"]
  have "sstep\<^sup>*\<^sup>* (ssys_init demo_handler [] 0) (s False False Fresh [])"
    by (simp add: ssys_init_def defs)
  moreover have "sstep (s False False Fresh []) (s False False Fresh [k Entering])"
    using call [of "s False False Fresh []" demo_deadline] by (simp add: defs)
  moreover have "sstep (s False False Fresh [k Entering]) (s False False Running [k Flagging])"
    using move [of "s False False Fresh [k Entering]" "[]" "k Entering" "[]" False]
    by (simp add: defs Shutdown_step_def)
  moreover have "sstep (s False False Running [k Flagging]) (s True False Running [k Closing])"
    using move [of "s False False Running [k Flagging]" "[]" "k Flagging" "[]" False]
    by (simp add: defs Shutdown_step_def unlocked_def Shutdown_stop_def)
  moreover have "sstep (s True False Running [k Closing]) (s True True Done [k Selecting])"
    using move [of "s True False Running [k Closing]" "[]" "k Closing" "[]" False]
    by (simp add: defs Shutdown_step_def Shutdown_close_def)
  moreover have "sstep (s True True Done [k Selecting]) (s True True Done [k (Returned (Some demo_deadline))])"
    using move [of "s True True Done [k Selecting]" "[]" "k Selecting" "[]" True]
    by (simp add: defs Shutdown_step_def)
  moreover have "sstep (s True True Done [k (Returned (Some demo_deadline))]) demo_given_up"
    using call [of "s True True Done [k (Returned (Some demo_deadline))]" demo_deadline]
    by (simp add: defs demo_given_up_def)
  ultimately show ?thesis by (meson rtranclp.rtrancl_into_rtrancl)
qed

theorem shutdown_final_witness:
  "(\<exists>f \<in> set (firings (sched demo_given_up)). f_phase f = Executing)
   \<and> runDue demo_now (tab (sched demo_given_up)) = Ok (tab (sched demo_given_up), [])
   \<and> AddJob ''* * * * *'' demo_job (tab (sched demo_given_up)) = Some (Err ErrClosed)"
proof -
  have k: "calls demo_given_up ! 0 \<in> set (calls demo_given_up)"
    "at (calls demo_given_up ! 0) = Returned (Some demo_deadline)" by (simp_all add: demo_given_up_def)
  have "f_phase (firings (sched demo_given_up) ! 0) = Executing" "firings (sched demo_given_up) \<noteq> []"
    by (simp_all add: demo_given_up_def demo_started_def)
  then show ?thesis
    using shutdown_final [OF demo_gives_up k rtranclp.rtrancl_refl] demo_parse by (metis length_greater_0_conv nth_mem)
qed

theorem shutdown_returns_witness:
  "at (calls demo_given_up ! 1) = Entering
   \<and> (\<exists>s'. sstep\<^sup>*\<^sup>* demo_given_up s' \<and> at (calls s' ! 1) = Returned None
        \<and> (\<forall>f \<in> set (firings (sched s')). f_phase f = Finished))"
proof -
  have "at (calls demo_given_up ! 1) = Entering" "1 < length (calls demo_given_up)"
    by (simp_all add: demo_given_up_def)
  with shutdown_returns [OF demo_gives_up, of 1] show ?thesis by auto
qed

end
