(* ===== verification/Go_Slice.thy ===== *)
theory Go_Slice
  imports Go_Prelude
begin

section \<open>Slices and the arrays behind them\<close>

text \<open>
  Go slices as they are: headers that look at a part of an array, which other headers may look at too.
  A memory maps the arrays allocated so far to their cells. Slicing copies headers only; a write goes
  to the array; \<open>append\<close> writes behind the slice as long as there is capacity, and moves to an array of
  its own after that. A nil slice is a header without capacity.
\<close>

record 'a memory =
  cells :: "nat \<Rightarrow> 'a list"
  next_array :: nat

record header =
  s_array :: nat
  s_off :: nat
  s_len :: nat
  s_cap :: nat

definition contents :: "'a memory \<Rightarrow> header \<Rightarrow> 'a list" where
  "contents m s = take (s_len s) (drop (s_off s) (cells m (s_array s)))"

definition header_ok :: "'a memory \<Rightarrow> header \<Rightarrow> bool" where
  "header_ok m s \<longleftrightarrow> s_len s \<le> s_cap s
     \<and> (0 < s_cap s \<longrightarrow> s_array s < next_array m \<and> s_off s + s_cap s \<le> length (cells m (s_array s)))"

text \<open>\<open>s[i:j:k]\<close>, \<open>s[i:]\<close>, \<open>s[i]\<close> and \<open>s[i] = x\<close>, with their bounds checks.\<close>

definition full_slice :: "header \<Rightarrow> int \<Rightarrow> int \<Rightarrow> int \<Rightarrow> (unit, header) gores" where
  "full_slice s i j k =
     (if 0 \<le> i \<and> i \<le> j \<and> j \<le> k \<and> k \<le> int (s_cap s)
      then Ok \<lparr>s_array = s_array s, s_off = s_off s + nat i, s_len = nat (j - i), s_cap = nat (k - i)\<rparr>
      else Panic)"

definition slice_from :: "header \<Rightarrow> int \<Rightarrow> (unit, header) gores" where
  "slice_from s i = full_slice s i (int (s_len s)) (int (s_cap s))"

definition in_bounds :: "header \<Rightarrow> int \<Rightarrow> bool" where
  "in_bounds s i \<longleftrightarrow> 0 \<le> i \<and> i < int (s_len s)"

definition slice_get :: "'a memory \<Rightarrow> header \<Rightarrow> int \<Rightarrow> (unit, 'a) gores" where
  "slice_get m s i = (if in_bounds s i then Ok (cells m (s_array s) ! (s_off s + nat i)) else Panic)"

definition poke :: "nat \<Rightarrow> nat \<Rightarrow> 'a \<Rightarrow> 'a memory \<Rightarrow> 'a memory" where
  "poke a p x m = m\<lparr>cells := (cells m)(a := (cells m a)[p := x])\<rparr>"

definition slice_set :: "'a memory \<Rightarrow> header \<Rightarrow> int \<Rightarrow> 'a \<Rightarrow> (unit, 'a memory) gores" where
  "slice_set m s i x = (if in_bounds s i then Ok (poke (s_array s) (s_off s + nat i) x m) else Panic)"

text \<open>\<open>append(s, x)\<close>: \<open>grow\<close> is the capacity the runtime picks, \<open>zero\<close> what fresh cells hold.\<close>

definition slice_append :: "(nat \<Rightarrow> nat \<Rightarrow> nat) \<Rightarrow> 'a \<Rightarrow> 'a memory \<Rightarrow> header \<Rightarrow> 'a \<Rightarrow> 'a memory \<times> header" where
  "slice_append grow zero m s x =
     (if s_len s < s_cap s
      then (poke (s_array s) (s_off s + s_len s) x m, s\<lparr>s_len := Suc (s_len s)\<rparr>)
      else
        (let a = next_array m; c = grow (s_cap s) (Suc (s_len s))
         in (m\<lparr>cells := (cells m)(a := contents m s @ x # replicate (c - Suc (s_len s)) zero), next_array := Suc a\<rparr>,
             \<lparr>s_array = a, s_off = 0, s_len = Suc (s_len s), s_cap = c\<rparr>)))"

lemma gobind_cong [fundef_cong]:
  "m = m' \<Longrightarrow> (\<And>a. m' = Ok a \<Longrightarrow> f a = g a) \<Longrightarrow> gobind m f = gobind m' g"
  by (cases m') simp_all

subsection \<open>What is seen through a header\<close>

lemma length_contents: "header_ok m s \<Longrightarrow> length (contents m s) = s_len s"
  by (auto simp: header_ok_def contents_def min_def)

lemma full_slice_Ok:
  assumes "full_slice s i j k = Ok t"
  shows "s_array t = s_array s \<and> s_off t = s_off s + nat i \<and> s_len t = nat (j - i) \<and> s_cap t = nat (k - i)
    \<and> 0 \<le> i \<and> i \<le> j \<and> j \<le> k \<and> k \<le> int (s_cap s)"
  using assms by (auto simp: full_slice_def split: if_splits)

lemma full_slice_header:
  assumes "header_ok m s" "full_slice s i j k = Ok t"
  shows "header_ok m t"
  using assms(1) full_slice_Ok [OF assms(2)] by (auto simp: header_ok_def)

lemma full_slice_contents:
  assumes "full_slice s i j k = Ok t" "j \<le> int (s_len s)"
  shows "contents m t = take (nat (j - i)) (drop (nat i) (contents m s))"
proof -
  note t = full_slice_Ok [OF assms(1)]
  have "nat j \<le> s_len s" "nat (j - i) = nat j - nat i" using assms(2) t by auto
  moreover have "nat j - nat i \<le> s_len s - nat i" using \<open>nat j \<le> s_len s\<close> by (rule diff_le_mono)
  ultimately show ?thesis using t by (simp add: contents_def drop_take add.commute min_def)
qed

text \<open>A write is seen exactly through the headers that look at its cell.\<close>

definition sees :: "header \<Rightarrow> nat \<Rightarrow> nat \<Rightarrow> bool" where
  "sees s a p \<longleftrightarrow> s_array s = a \<and> s_off s \<le> p \<and> p < s_off s + s_len s"

lemma contents_poke:
  "contents (poke a p x m) s = (if sees s a p then (contents m s)[p - s_off s := x] else contents m s)"
  by (auto simp: contents_def poke_def sees_def drop_update_swap take_update_swap intro!: list_update_beyond)

lemma poke_frame [simp]:
  "next_array (poke a p x m) = next_array m" "length (cells (poke a p x m) b) = length (cells m b)"
  "header_ok (poke a p x m) s = header_ok m s"
  by (simp_all add: poke_def header_ok_def)

text \<open>Appending to a full slice moves it: nothing that was there before changes.\<close>

lemma append_full:
  assumes "header_ok m s" "s_len s = s_cap s" "\<And>old n. n \<le> grow old n" "slice_append grow zero m s x = (m', t)"
  shows "contents m' t = contents m s @ [x] \<and> header_ok m' t \<and> (\<forall>u. header_ok m u \<longrightarrow> contents m' u = contents m u)"
proof -
  have m': "m' = m\<lparr>cells := (cells m)(next_array m := contents m s
        @ x # replicate (grow (s_cap s) (Suc (s_len s)) - Suc (s_len s)) zero), next_array := Suc (next_array m)\<rparr>"
    and t: "t = \<lparr>s_array = next_array m, s_off = 0, s_len = Suc (s_len s), s_cap = grow (s_cap s) (Suc (s_len s))\<rparr>"
    using assms(2,4) by (auto simp: slice_append_def Let_def)
  have "contents m' u = contents m u" if "header_ok m u" for u
    using that by (auto simp: m' contents_def header_ok_def)
  moreover have "contents m' t = contents m s @ [x]"
    using length_contents [OF assms(1)] by (simp add: m' t contents_def)
  moreover have "header_ok m' t"
    using length_contents [OF assms(1)] assms(3) [of "Suc (s_len s)" "s_cap s"] by (simp add: m' t header_ok_def)
  ultimately show ?thesis by blast
qed

text \<open>Appending to a slice with capacity writes the cell behind it, whoever looks at that.\<close>

lemma append_room:
  assumes "s_len s < s_cap s" "slice_append grow zero m s x = (m', t)"
  shows "m' = poke (s_array s) (s_off s + s_len s) x m \<and> t = s\<lparr>s_len := Suc (s_len s)\<rparr>"
  using assms by (auto simp: slice_append_def)

end
