(* ===== verification/Kit_Slices.thy ===== *)
theory Kit_Slices
  imports Kit_Collections Go_Slice
begin

section \<open>Chunk and Reverse on shared arrays\<close>

text \<open>
  The functions of \<open>slices.go\<close> that do not copy: \<open>Chunk\<close>, which returns slices of the array it is given,
  and \<open>Reverse\<close>, which works in it. They refine the functions on lists of \<open>Kit_Collections\<close>; beyond that
  it is shown who sees whose writes afterwards. The capacity \<open>Chunk\<close> gives each chunk, its own length,
  keeps an \<open>append\<close> to one chunk out of the next.
\<close>

subsection \<open>The functions\<close>

text \<open>\<open>Chunk\<close> touches headers only; the outer slice is made with room for all of them.\<close>

function chunk_headers :: "header \<Rightarrow> int \<Rightarrow> header list \<Rightarrow> (unit, header list) gores" where
  "chunk_headers items chunkSize chunks =
     (if 0 < chunkSize \<and> chunkSize < int (s_len items)
      then gobind (slice_from items chunkSize) (\<lambda>rest.
        gobind (full_slice items 0 chunkSize chunkSize) (\<lambda>chunk.
          chunk_headers rest chunkSize (chunks @ [chunk])))
      else Ok (chunks @ [items]))"
  by pat_completeness auto
termination
  by (relation "measure (\<lambda>(items, n, chunks). s_len items)")
    (auto simp: slice_from_def dest!: full_slice_Ok)

declare chunk_headers.simps [simp del]

definition Chunk_slices :: "header \<Rightarrow> int \<Rightarrow> (unit, header list) gores" where
  "Chunk_slices items chunkSize = (if chunkSize \<le> 0 then Ok [items] else chunk_headers items chunkSize [])"

text \<open>\<open>Reverse\<close>: the two reads, then the two writes of the swap.\<close>

function reverse_cells :: "header \<Rightarrow> int \<Rightarrow> int \<Rightarrow> 'a memory \<Rightarrow> (unit, 'a memory) gores" where
  "reverse_cells s i j m =
     (if i < j
      then gobind (slice_get m s j) (\<lambda>x. gobind (slice_get m s i) (\<lambda>y.
        gobind (slice_set m s i x) (\<lambda>m. gobind (slice_set m s j y) (\<lambda>m. reverse_cells s (i + 1) (j - 1) m))))
      else Ok m)"
  by pat_completeness auto
termination
  by (relation "measure (\<lambda>(s, i, j, m). nat (j - i))") auto

declare reverse_cells.simps [simp del]

definition Reverse_slice :: "header \<Rightarrow> 'a memory \<Rightarrow> (unit, 'a memory) gores" where
  "Reverse_slice s m = reverse_cells s 0 (int (s_len s) - 1) m"

subsection \<open>Chunk\<close>

text \<open>A header that looks at the cells of another from some position on.\<close>

definition tail_of :: "nat \<Rightarrow> header \<Rightarrow> header \<Rightarrow> bool" where
  "tail_of d s t \<longleftrightarrow> s_array t = s_array s \<and> s_off t = s_off s + d \<and> d \<le> s_len s
     \<and> s_len t = s_len s - d \<and> s_cap t = s_cap s - d"

definition piece_of :: "nat \<Rightarrow> nat \<Rightarrow> header \<Rightarrow> header \<Rightarrow> bool" where
  "piece_of d n s t \<longleftrightarrow> s_array t = s_array s \<and> s_off t = s_off s + d \<and> s_len t = n \<and> s_cap t = n"

lemma chunk_headers_step:
  assumes "0 < n" "n < int (s_len s)" "header_ok m s"
  obtains rest chunk where "chunk_headers s n chunks = chunk_headers rest n (chunks @ [chunk])"
    "tail_of (nat n) s rest" "piece_of 0 (nat n) s chunk" "header_ok m rest" "header_ok m chunk"
    "contents m chunk = take (nat n) (contents m s)" "contents m rest = drop (nat n) (contents m s)"
proof -
  have cap: "s_len s \<le> s_cap s" using assms(3) by (simp add: header_ok_def)
  obtain rest where r: "slice_from s n = Ok rest"
    using assms cap by (simp add: slice_from_def full_slice_def)
  obtain chunk where c: "full_slice s 0 n n = Ok chunk"
    using assms cap by (simp add: full_slice_def)
  note r' = r [unfolded slice_from_def]
  have "chunk_headers s n chunks = chunk_headers rest n (chunks @ [chunk])"
    using assms r c by (subst chunk_headers.simps) simp
  moreover have "tail_of (nat n) s rest" "piece_of 0 (nat n) s chunk"
    using full_slice_Ok [OF r'] full_slice_Ok [OF c] by (auto simp: tail_of_def piece_of_def)
  moreover have "contents m chunk = take (nat n) (contents m s)"
    using full_slice_contents [OF c, of m] assms by simp
  moreover have "contents m rest = drop (nat n) (contents m s)"
    using full_slice_contents [OF r', of m] length_contents [OF assms(3)] by (simp add: nat_diff_distrib)
  ultimately show thesis
    using that full_slice_header [OF assms(3) r'] full_slice_header [OF assms(3) c] by blast
qed

text \<open>All chunks, as pieces of the slice one after the other, the last with what is left of the capacity.\<close>

definition pieces :: "nat \<Rightarrow> header \<Rightarrow> header list \<Rightarrow> bool" where
  "pieces n s cs \<longleftrightarrow> cs \<noteq> [] \<and> (\<forall>i. Suc i < length cs \<longrightarrow> piece_of (i * n) n s (cs ! i))
     \<and> tail_of ((length cs - 1) * n) s (last cs)"

lemma pieces_Cons:
  assumes "tail_of n s rest" "piece_of 0 n s chunk" "pieces n rest cs"
  shows "pieces n s (chunk # cs)"
proof -
  have "piece_of (i * n) n s ((chunk # cs) ! i)" if "Suc i < length (chunk # cs)" for i
    using assms that by (cases i) (auto simp: pieces_def piece_of_def tail_of_def)
  moreover have "tail_of (length cs * n) s (last cs)"
    using assms by (cases "length cs") (auto simp: pieces_def tail_of_def)
  ultimately show ?thesis using assms(3) by (simp add: pieces_def)
qed

lemma chunk_headers_views:
  assumes "0 < n" "header_ok m s"
  shows "\<exists>cs. chunk_headers s n chunks = Ok (chunks @ cs) \<and> pieces (nat n) s cs \<and> (\<forall>c \<in> set cs. header_ok m c)
    \<and> map (contents m) cs = chunk_loop (contents m s) (nat n) []"
  using assms
proof (induction "s_len s" arbitrary: s chunks rule: less_induct)
  case less
  note len = length_contents [OF less.prems(2)]
  show ?case
  proof (cases "n < int (s_len s)")
    case True
    from chunk_headers_step [OF less.prems(1) True less.prems(2)]
    obtain rest chunk where st: "chunk_headers s n chunks = chunk_headers rest n (chunks @ [chunk])"
      "tail_of (nat n) s rest" "piece_of 0 (nat n) s chunk" "header_ok m rest" "header_ok m chunk"
      "contents m chunk = take (nat n) (contents m s)" "contents m rest = drop (nat n) (contents m s)"
      by metis
    have "s_len rest < s_len s" using st(2) less.prems(1) True by (simp add: tail_of_def)
    from less.hyps [OF this less.prems(1) st(4), of "chunks @ [chunk]"] obtain cs where cs:
      "chunk_headers rest n (chunks @ [chunk]) = Ok ((chunks @ [chunk]) @ cs)" "pieces (nat n) rest cs"
      "\<forall>c \<in> set cs. header_ok m c" "map (contents m) cs = chunk_loop (contents m rest) (nat n) []" by blast
    have "chunk_loop (contents m s) (nat n) [] = map (contents m) (chunk # cs)"
      using cs(4) st(6,7) True less.prems(1) len by (subst chunk_loop_rec) (simp_all add: nat_less_iff)
    with st cs pieces_Cons [OF st(2,3) cs(2)] show ?thesis by (intro exI [of _ "chunk # cs"]) simp
  next
    case False
    then have "chunk_headers s n chunks = Ok (chunks @ [s])" by (subst chunk_headers.simps) simp
    moreover have "chunk_loop (contents m s) (nat n) [] = [contents m s]"
      using False less.prems(1) len by (subst chunk_loop_rec) auto
    ultimately show ?thesis using less.prems
      by (intro exI [of _ "[s]"]) (simp add: pieces_def tail_of_def)
  qed
qed

lemma Chunk_views:
  assumes "header_ok m s"
  obtains cs where "Chunk_slices s n = Ok cs" "map (contents m) cs = Chunk (contents m s) n"
    "\<forall>c \<in> set cs. header_ok m c" "if 0 < n then pieces (nat n) s cs else cs = [s]"
proof (cases "0 < n")
  case True
  from chunk_headers_views [OF True assms, of "[]"] obtain cs where
    "chunk_headers s n [] = Ok cs" "pieces (nat n) s cs" "\<forall>c \<in> set cs. header_ok m c"
    "map (contents m) cs = chunk_loop (contents m s) (nat n) []" by auto
  with True that show ?thesis by (simp add: Chunk_slices_def Chunk_def)
next
  case False
  with assms that show ?thesis by (simp add: Chunk_slices_def Chunk_def)
qed

text \<open>Two chunks never look at the same cell.\<close>

lemma pieces_apart:
  assumes "pieces n s cs" "i < length cs" "j < length cs" "i \<noteq> j" "sees (cs ! i) a p"
  shows "\<not> sees (cs ! j) a p"
proof -
  have len: "s_len c \<le> n \<or> j = length cs - 1" and off: "s_off c = s_off s + j * n"
    if "c = cs ! j" "j < length cs" for c j
  proof -
    have last: "j = length cs - 1" "c = last cs" if "\<not> Suc j < length cs"
    proof -
      show "j = length cs - 1" using that \<open>j < length cs\<close> by simp
      with \<open>c = cs ! j\<close> \<open>j < length cs\<close> show "c = last cs" using assms(1) by (simp add: last_conv_nth pieces_def)
    qed
    have "(s_len c \<le> n \<or> j = length cs - 1) \<and> s_off c = s_off s + j * n"
      using assms(1) that last by (cases "Suc j < length cs") (auto simp: pieces_def piece_of_def tail_of_def)
    then show "s_len c \<le> n \<or> j = length cs - 1" "s_off c = s_off s + j * n" by blast+
  qed
  have below: "\<not> (sees (cs ! i) a p \<and> sees (cs ! j) a p)" if "i < j" "j < length cs" for i j
  proof -
    have "Suc i * n \<le> j * n" using that by (intro mult_le_mono1) simp
    moreover have "s_len (cs ! i) \<le> n" using len [OF refl, of i] that by auto
    ultimately show ?thesis using off [OF refl, of i] off [OF refl, of j] that by (auto simp: sees_def)
  qed
  show ?thesis
    using below [of i j] below [of j i] assms by (cases "i < j") auto
qed

subsection \<open>Reverse\<close>

lemma slice_swap:
  assumes "header_ok m s" "0 \<le> i" "i < j" "j < int (s_len s)"
  obtains m' where "reverse_cells s i j m = reverse_cells s (i + 1) (j - 1) m'"
    "contents m' s = (contents m s)[nat i := contents m s ! nat j, nat j := contents m s ! nat i]"
    "header_ok m' s" "next_array m' = next_array m"
    "\<And>u. (\<And>p. sees u (s_array s) p \<Longrightarrow> \<not> sees s (s_array s) p) \<Longrightarrow> contents m' u = contents m u"
proof -
  let ?a = "s_array s" and ?x = "contents m s ! nat j" and ?y = "contents m s ! nat i"
  define m' where "m' = poke ?a (s_off s + nat j) ?y (poke ?a (s_off s + nat i) ?x m)"
  have b: "in_bounds s i" "in_bounds s j" using assms by (simp_all add: in_bounds_def)
  have bound: "s_off s + s_len s \<le> length (cells m ?a)" using assms by (auto simp: header_ok_def)
  have get: "cells m ?a ! (s_off s + nat k) = contents m s ! nat k" if "in_bounds s k" for k
    using that bound by (simp add: contents_def in_bounds_def nat_less_iff)
  have "reverse_cells s i j m = reverse_cells s (i + 1) (j - 1) m'"
    using assms(3) b get by (subst reverse_cells.simps) (simp add: slice_get_def slice_set_def m'_def)
  moreover have "sees s ?a (s_off s + nat i)" "sees s ?a (s_off s + nat j)" using b by (auto simp: sees_def in_bounds_def)
  moreover from this have "contents m' u = contents m u"
    if "\<And>p. sees u ?a p \<Longrightarrow> \<not> sees s ?a p" for u
    using that by (auto simp: m'_def contents_poke)
  ultimately show thesis
    using that [of m'] assms(1) by (simp add: m'_def contents_poke)
qed

lemma reverse_cells_views:
  assumes "header_ok m s" "0 \<le> i" "j < int (s_len s)"
  shows "\<exists>m'. reverse_cells s i j m = Ok m' \<and> contents m' s = reverse_loop (contents m s) i j
    \<and> next_array m' = next_array m
    \<and> (\<forall>u. (\<forall>p. sees u (s_array s) p \<longrightarrow> \<not> sees s (s_array s) p) \<longrightarrow> contents m' u = contents m u)"
  using assms
proof (induction "nat (j - i)" arbitrary: i j m rule: less_induct)
  case less
  show ?case
  proof (cases "i < j")
    case True
    from slice_swap [OF less.prems(1,2) True less.prems(3)] obtain m1 where
      m1: "reverse_cells s i j m = reverse_cells s (i + 1) (j - 1) m1"
      "contents m1 s = (contents m s)[nat i := contents m s ! nat j, nat j := contents m s ! nat i]"
      "header_ok m1 s" "next_array m1 = next_array m"
      "\<And>u. (\<And>p. sees u (s_array s) p \<Longrightarrow> \<not> sees s (s_array s) p) \<Longrightarrow> contents m1 u = contents m u"
      by metis
    have "nat (j - 1 - (i + 1)) < nat (j - i)" using True by simp
    from less.hyps [OF this m1(3)] less.prems obtain m' where
      m': "reverse_cells s (i + 1) (j - 1) m1 = Ok m'" "contents m' s = reverse_loop (contents m1 s) (i + 1) (j - 1)"
      "next_array m' = next_array m1"
      "\<forall>u. (\<forall>p. sees u (s_array s) p \<longrightarrow> \<not> sees s (s_array s) p) \<longrightarrow> contents m' u = contents m1 u" by auto
    moreover have "reverse_loop (contents m s) i j = reverse_loop (contents m1 s) (i + 1) (j - 1)"
      using True by (subst reverse_loop.simps) (simp add: m1(2))
    ultimately show ?thesis using m1 by simp
  next
    case False
    then show ?thesis by (simp add: reverse_cells.simps [of s i j] reverse_loop.simps [of _ i j])
  qed
qed

lemma Reverse_views:
  assumes "header_ok m s"
  obtains m' where "Reverse_slice s m = Ok m'" "contents m' s = rev (contents m s)" "next_array m' = next_array m"
    "\<And>u. (\<And>p. sees u (s_array s) p \<Longrightarrow> \<not> sees s (s_array s) p) \<Longrightarrow> contents m' u = contents m u"
proof -
  have "reverse_loop (contents m s) 0 (int (s_len s) - 1) = rev (contents m s)"
    using Reverse_rev [of "contents m s"] length_contents [OF assms] by (simp add: Reverse_def)
  with reverse_cells_views [OF assms, of 0 "int (s_len s) - 1"] that show thesis
    by (auto simp: Reverse_slice_def)
qed

subsection \<open>Who sees what\<close>

text \<open>Where a chunk lies in the slice it was cut from, and which chunks are full.\<close>

lemma pieces_nth:
  assumes "pieces n s cs" "i < length cs"
  shows "s_array (cs ! i) = s_array s" "s_off (cs ! i) = s_off s + i * n" "i * n + s_len (cs ! i) \<le> s_len s"
    and "Suc i < length cs \<Longrightarrow> s_len (cs ! i) = s_cap (cs ! i)"
proof -
  have tail: "tail_of ((length cs - 1) * n) s (last cs)" and ne: "cs \<noteq> []" using assms(1) by (simp_all add: pieces_def)
  have "s_array (cs ! i) = s_array s \<and> s_off (cs ! i) = s_off s + i * n \<and> i * n + s_len (cs ! i) \<le> s_len s
    \<and> (Suc i < length cs \<longrightarrow> s_len (cs ! i) = s_cap (cs ! i))"
  proof (cases "Suc i < length cs")
    case True
    then have p: "piece_of (i * n) n s (cs ! i)" using assms(1) by (simp add: pieces_def)
    have "Suc i * n \<le> (length cs - 1) * n" using True by (intro mult_le_mono1) simp
    also have "\<dots> \<le> s_len s" using tail by (simp add: tail_of_def)
    finally show ?thesis using p by (simp add: piece_of_def)
  next
    case False
    then have "i = length cs - 1" using assms(2) by simp
    with tail ne show ?thesis by (simp add: tail_of_def last_conv_nth)
  qed
  then show "s_array (cs ! i) = s_array s" "s_off (cs ! i) = s_off s + i * n" "i * n + s_len (cs ! i) \<le> s_len s"
    "Suc i < length cs \<Longrightarrow> s_len (cs ! i) = s_cap (cs ! i)" by blast+
qed

lemma single_piece: "pieces (s_len s) s [s]"
  by (simp add: pieces_def tail_of_def)

text \<open>
  C40: \<open>Chunk\<close> and \<open>Reverse\<close> on shared memory. \<open>Chunk\<close> never panics and copies nothing: its chunks are
  views of the input that read as the chunks of its list of elements. Writing through a chunk writes the
  input at the place of the chunk and no other chunk; appending to any chunk but the last leaves every
  slice there was alone, the next chunk included; and \<open>Reverse\<close> of a chunk reverses that chunk in place,
  without allocating, and leaves the others alone.
\<close>

theorem Chunk_shares:
  assumes "header_ok m s" and "\<And>old n. n \<le> grow old n"
  shows "\<exists>cs. Chunk_slices s n = Ok cs \<and> map (contents m) cs = Chunk (contents m s) n
    \<and> (\<forall>i k x. i < length cs \<and> in_bounds (cs ! i) k \<longrightarrow>
         (\<exists>m'. slice_set m (cs ! i) k x = Ok m' \<and> contents m' s = (contents m s)[i * nat n + nat k := x]
            \<and> (\<forall>j < length cs. j \<noteq> i \<longrightarrow> contents m' (cs ! j) = contents m (cs ! j))))
    \<and> (\<forall>i x m' t. Suc i < length cs \<and> slice_append grow zero m (cs ! i) x = (m', t) \<longrightarrow>
         contents m' t = contents m (cs ! i) @ [x] \<and> (\<forall>u. header_ok m u \<longrightarrow> contents m' u = contents m u))
    \<and> (\<forall>i < length cs. \<exists>m'. Reverse_slice (cs ! i) m = Ok m' \<and> next_array m' = next_array m
         \<and> contents m' (cs ! i) = rev (contents m (cs ! i))
         \<and> (\<forall>j < length cs. j \<noteq> i \<longrightarrow> contents m' (cs ! j) = contents m (cs ! j)))"
proof -
  obtain cs where run: "Chunk_slices s n = Ok cs" and views: "map (contents m) cs = Chunk (contents m s) n"
    and ok: "\<forall>c \<in> set cs. header_ok m c" and cut: "if 0 < n then pieces (nat n) s cs else cs = [s]"
    by (rule Chunk_views [OF assms(1)])
  define w where "w = (if 0 < n then nat n else s_len s)"
  have p: "pieces w s cs" using cut single_piece by (auto simp: w_def split: if_splits)
  have place: "i * w = i * nat n" if "i < length cs" for i
    using cut that by (auto simp: w_def split: if_splits)
  note nth = pieces_nth [OF p] and apart = pieces_apart [OF p]
  have "\<exists>m'. slice_set m (cs ! i) k x = Ok m' \<and> contents m' s = (contents m s)[i * nat n + nat k := x]
      \<and> (\<forall>j < length cs. j \<noteq> i \<longrightarrow> contents m' (cs ! j) = contents m (cs ! j))"
    if "i < length cs" "in_bounds (cs ! i) k" for i k x
  proof -
    let ?p = "s_off (cs ! i) + nat k"
    have sees: "sees (cs ! i) (s_array s) ?p" "sees s (s_array s) ?p"
      using that nth(1-3) [OF that(1)] by (auto simp: sees_def in_bounds_def)
    have "contents (poke (s_array s) ?p x m) (cs ! j) = contents m (cs ! j)" if "j < length cs" "j \<noteq> i" for j
      using apart [OF \<open>i < length cs\<close> that(1) _ sees(1)] that(2) by (simp add: contents_poke)
    with sees(2) that nth(1,2) [OF that(1)] place [OF that(1)] show ?thesis
      by (simp add: slice_set_def contents_poke add.assoc)
  qed
  moreover have "contents m' t = contents m (cs ! i) @ [x] \<and> (\<forall>u. header_ok m u \<longrightarrow> contents m' u = contents m u)"
    if "Suc i < length cs" "slice_append grow zero m (cs ! i) x = (m', t)" for i x m' t
    using append_full [OF _ nth(4) [OF _ that(1)] assms(2) that(2)] ok that(1) by simp
  moreover have "\<exists>m'. Reverse_slice (cs ! i) m = Ok m' \<and> next_array m' = next_array m
      \<and> contents m' (cs ! i) = rev (contents m (cs ! i))
      \<and> (\<forall>j < length cs. j \<noteq> i \<longrightarrow> contents m' (cs ! j) = contents m (cs ! j))"
    if i: "i < length cs" for i
  proof -
    have "header_ok m (cs ! i)" using ok i by simp
    from Reverse_views [OF this] obtain m' where m': "Reverse_slice (cs ! i) m = Ok m'"
      "contents m' (cs ! i) = rev (contents m (cs ! i))" "next_array m' = next_array m"
      "\<And>u. (\<And>p. sees u (s_array (cs ! i)) p \<Longrightarrow> \<not> sees (cs ! i) (s_array (cs ! i)) p) \<Longrightarrow> contents m' u = contents m u"
      by blast
    have "contents m' (cs ! j) = contents m (cs ! j)" if "j < length cs" "j \<noteq> i" for j
      by (rule m'(4)) (use apart [OF that(1) i that(2)] in blast)
    with m' show ?thesis by blast
  qed
  ultimately show ?thesis using run views by blast
qed

text \<open>Five elements in twos. The last chunk keeps the capacity of the input, here one cell behind it.\<close>

definition demo_memory :: "nat memory" where
  "demo_memory = \<lparr>cells = (\<lambda>a. if a = 0 then [1, 2, 3, 4, 5, 0] else []), next_array = 1\<rparr>"

definition demo_header :: header where
  "demo_header = \<lparr>s_array = 0, s_off = 0, s_len = 5, s_cap = 6\<rparr>"

theorem Chunk_shares_witness:
  "header_ok demo_memory demo_header \<and> Chunk (contents demo_memory demo_header) 2 = [[1, 2], [3, 4], [5]]
   \<and> (\<exists>cs. Chunk_slices demo_header 2 = Ok cs \<and> map (contents demo_memory) cs = [[1, 2], [3, 4], [5]]
        \<and> (\<forall>x m' t. slice_append (\<lambda>old n. n) 0 demo_memory (cs ! 0) x = (m', t) \<longrightarrow>
             contents m' demo_header = [1, 2, 3, 4, 5]))"
proof -
  have ok: "header_ok demo_memory demo_header" by (simp add: header_ok_def demo_memory_def demo_header_def)
  have c: "contents demo_memory demo_header = [1, 2, 3, 4, 5]"
    by (simp add: contents_def demo_memory_def demo_header_def)
  have k: "Chunk (contents demo_memory demo_header) 2 = [[1, 2], [3, 4], [5]]"
    unfolding c by (simp add: Chunk_def chunk_loop.simps)
  from Chunk_shares [OF ok order.refl, where zero = 0 and n = 2] obtain cs where
    cs: "Chunk_slices demo_header 2 = Ok cs" "map (contents demo_memory) cs = [[1, 2], [3, 4], [5]]"
    and app: "\<forall>i x m' t. Suc i < length cs \<and> slice_append (\<lambda>old n. n) 0 demo_memory (cs ! i) x = (m', t) \<longrightarrow>
      (\<forall>u. header_ok demo_memory u \<longrightarrow> contents m' u = contents demo_memory u)"
    unfolding k by - (elim exE conjE, rule that, assumption, assumption, blast)
  have "length cs = 3" using cs(2) by (metis length_map list.size(3,4) numeral_3_eq_3 add_Suc_right add_0_right plus_1_eq_Suc)
  then have "\<forall>x m' t. slice_append (\<lambda>old n. n) 0 demo_memory (cs ! 0) x = (m', t) \<longrightarrow>
      contents m' demo_header = [1, 2, 3, 4, 5]"
    using app ok c by (metis One_nat_def numeral_3_eq_3 lessI less_SucI)
  then show ?thesis by (intro conjI exI [of _ cs] ok k cs)
qed

end
