(* ===== verification/Kit_List_Concurrent.thy ===== *)
theory Kit_List_Concurrent
  imports Kit_Collections
begin

section \<open>The list under concurrent calls\<close>

text \<open>
  Models the methods of \<open>list.go\<close> as goroutines call them: \<open>Add\<close> and \<open>Remove\<close> under the mutex, the methods
  on slices and maps as loops of those, which let others in between, and \<open>Slice\<close> and \<open>Len\<close> without the
  mutex. An access of the map that overlaps a write, that of \<open>Len\<close> included, is a data race (the runtime ends
  the process when it notices one of a \<open>Slice\<close>): it sets \<open>broken\<close>, and nothing is said of what follows.
\<close>

subsection \<open>Calls and goroutines\<close>

datatype 'a elem = Ins 'a | Del 'a

datatype 'a list_call = Update "'a list_op" | SliceCall | LenCall

datatype 'a micro = Locked "'a elem" | Ranged | Measured

text \<open>What a method does, mutex by mutex.\<close>

fun elems :: "'a list_op \<Rightarrow> 'a elem list" where
  "elems (OpAdd x) = [Ins x]"
| "elems (OpRemove x) = [Del x]"
| "elems (OpAddSlice xs) = map Ins xs"
| "elems (OpRemoveSlice xs) = map Del xs"
| "elems (OpAddMapKeys m) = map Ins (map_keys m)"

fun micros :: "'a list_call \<Rightarrow> 'a micro list" where
  "micros (Update p) = map Locked (elems p)"
| "micros SliceCall = [Ranged]"
| "micros LenCall = [Measured]"

fun elem_apply :: "'a kit_list \<Rightarrow> 'a elem \<Rightarrow> 'a kit_list" where
  "elem_apply l (Ins x) = list_Add l x"
| "elem_apply l (Del x) = list_Remove l x"

fun elem_set :: "'a set \<Rightarrow> 'a elem \<Rightarrow> 'a set" where
  "elem_set S (Ins x) = insert x S"
| "elem_set S (Del x) = S - {x}"

text \<open>
  Where a goroutine is in its next call: outside, past the lock, in the write of the map, past it with
  the mutex still held, or reading the map, all its keys or its length, without the mutex.
\<close>

datatype list_pc = Out | Testing | Writing | Leaving | Reading

text \<open>
  What has happened to the list, in order: single updates, and the results of \<open>Slice\<close> and \<open>Len\<close>.
\<close>

datatype 'a event = Did "'a elem" | Sliced "'a list" | Counted nat

record 'a list_go =
  todo :: "'a micro list"
  lat :: list_pc

record 'a list_sys =
  shared :: "'a kit_list"
  holder :: "nat option"
  gos :: "'a list_go list"
  history :: "(nat \<times> 'a event) list"
  broken :: bool

definition list_start :: "'a list_call list list \<Rightarrow> 'a list_sys" where
  "list_start progs = \<lparr>shared = NewList, holder = None,
     gos = map (\<lambda>prog. \<lparr>todo = concat (map micros prog), lat = Out\<rparr>) progs, history = [], broken = False\<rparr>"

text \<open>Somebody is in a write of the map; somebody is in a write or a read of it.\<close>

definition written :: "'a list_sys \<Rightarrow> bool" where
  "written s \<longleftrightarrow> list_ex (\<lambda>g. lat g = Writing) (gos s)"

definition accessed :: "'a list_sys \<Rightarrow> bool" where
  "accessed s \<longleftrightarrow> list_ex (\<lambda>g. lat g = Writing \<or> lat g = Reading) (gos s)"

text \<open>
  One step of goroutine \<open>i\<close>. A read has a beginning and an end, and so has a write; as no write overlaps
  a read of a run that is not broken, what is there at the end of a read was there all along.
\<close>

definition list_go_step :: "nat \<Rightarrow> 'a::linorder list_sys \<Rightarrow> 'a list_sys option" where
  "list_go_step i s =
     (let g = gos s ! i;
          become = (\<lambda>g. s\<lparr>gos := (gos s)[i := g]\<rparr>);
          log = (\<lambda>e. history s @ [(i, e)])
      in case (lat g, todo g) of
           (Out, Locked p # ps) \<Rightarrow>
             if holder s = None then Some ((become (g\<lparr>lat := Testing\<rparr>))\<lparr>holder := Some i\<rparr>) else None
         | (Out, Ranged # ps) \<Rightarrow> Some ((become (g\<lparr>lat := Reading\<rparr>))\<lparr>broken := written s\<rparr>)
         | (Out, Measured # ps) \<Rightarrow> Some ((become (g\<lparr>lat := Reading\<rparr>))\<lparr>broken := written s\<rparr>)
         | (Testing, Locked (Ins x) # ps) \<Rightarrow>
             if map_get (list_data (shared s)) x = None
             then Some ((become (g\<lparr>lat := Writing\<rparr>))\<lparr>broken := accessed s\<rparr>)
             else Some ((become (g\<lparr>lat := Leaving\<rparr>))\<lparr>history := log (Did (Ins x)), broken := written s\<rparr>)
         | (Testing, Locked (Del x) # ps) \<Rightarrow> Some ((become (g\<lparr>lat := Writing\<rparr>))\<lparr>broken := accessed s\<rparr>)
         | (Writing, Locked p # ps) \<Rightarrow>
             Some ((become (g\<lparr>lat := Leaving\<rparr>))\<lparr>shared := elem_apply (shared s) p, history := log (Did p)\<rparr>)
         | (Leaving, Locked p # ps) \<Rightarrow> Some ((become (g\<lparr>lat := Out, todo := ps\<rparr>))\<lparr>holder := None\<rparr>)
         | (Reading, Ranged # ps) \<Rightarrow>
             Some ((become (g\<lparr>lat := Out, todo := ps\<rparr>))\<lparr>history := log (Sliced (list_Slice (shared s)))\<rparr>)
         | (Reading, Measured # ps) \<Rightarrow>
             Some ((become (g\<lparr>lat := Out, todo := ps\<rparr>))\<lparr>history := log (Counted (list_Len (shared s)))\<rparr>)
         | _ \<Rightarrow> None)"

inductive lstep :: "'a::linorder list_sys \<Rightarrow> 'a list_sys \<Rightarrow> bool" where
  "\<not> broken s \<Longrightarrow> i < length (gos s) \<Longrightarrow> list_go_step i s = Some s' \<Longrightarrow> lstep s s'"

inductive_cases lstepE: "lstep s s'"

subsection \<open>A list used by one at a time\<close>

text \<open>
  The specification: a set, and what the calls do to it in the order of a history. \<open>explains S h\<close> says that
  every result in \<open>h\<close> is the right one at its place when the set is \<open>S\<close> before.
\<close>

fun updates :: "(nat \<times> 'a event) list \<Rightarrow> 'a elem list" where
  "updates [] = []"
| "updates ((i, Did p) # h) = p # updates h"
| "updates (e # h) = updates h"

fun explains :: "'a::linorder set \<Rightarrow> (nat \<times> 'a event) list \<Rightarrow> bool" where
  "explains S [] = True"
| "explains S ((i, Did p) # h) = explains (elem_set S p) h"
| "explains S ((i, Sliced xs) # h) = (xs = sorted_list_of_set S \<and> explains S h)"
| "explains S ((i, Counted n) # h) = (n = card S \<and> explains S h)"

text \<open>Which part of a program an event completes.\<close>

fun micro_of :: "'a event \<Rightarrow> 'a micro" where
  "micro_of (Did p) = Locked p"
| "micro_of (Sliced xs) = Ranged"
| "micro_of (Counted n) = Measured"

lemma updates_append [simp]: "updates (h @ h') = updates h @ updates h'"
  by (induction h rule: updates.induct) simp_all

lemma explains_append: "explains S (h @ h') \<longleftrightarrow> explains S h \<and> explains (foldl elem_set S (updates h)) h'"
  by (induction S h rule: explains.induct) simp_all

text \<open>The value after some updates, through the contract of the sorted set.\<close>

definition value_of :: "'a elem list \<Rightarrow> 'a kit_list" where
  "value_of es = foldl elem_apply NewList es"

lemma value_of_set:
  fixes es :: "'a::linorder elem list"
  shows "list_ok (value_of es) \<and> list_set (value_of es) = foldl elem_set {} es"
proof (induction es rule: rev_induct)
  case Nil
  show ?case by (simp add: value_of_def kl.new_ok kl.new_abs)
next
  case (snoc e es)
  then show ?case
    by (cases e) (simp_all add: value_of_def kl.add_ok kl.add_abs kl.remove_ok kl.remove_abs)
qed

lemma value_of_reads:
  "list_Slice (value_of es) = sorted_list_of_set (foldl elem_set {} es)"
  "list_Len (value_of es) = card (foldl elem_set {} es)"
  using value_of_set [of es] by (simp_all add: kl.slice_sorted kl.size_card)

subsection \<open>The invariant\<close>

fun critical :: "list_pc \<Rightarrow> bool" where
  "critical Testing = True"
| "critical Writing = True"
| "critical Leaving = True"
| "critical _ = False"

text \<open>What a goroutine has still to do: the head of its program is done once it is \<open>Leaving\<close>.\<close>

definition pending :: "'a list_go \<Rightarrow> 'a micro list" where
  "pending g = (if lat g = Leaving then tl (todo g) else todo g)"

definition made :: "nat \<Rightarrow> 'a list_sys \<Rightarrow> 'a event list" where
  "made i s = map snd (filter (\<lambda>e. fst e = i) (history s))"

definition pc_ok :: "'a list_go \<Rightarrow> bool" where
  "pc_ok g \<longleftrightarrow> (case lat g of Out \<Rightarrow> True
     | Reading \<Rightarrow> (\<exists>ps. todo g = Ranged # ps) \<or> (\<exists>ps. todo g = Measured # ps)
     | _ \<Rightarrow> (\<exists>p ps. todo g = Locked p # ps))"

text \<open>Programs that read without the mutex.\<close>

definition reads :: "'a list_call list \<Rightarrow> bool" where
  "reads prog \<longleftrightarrow> SliceCall \<in> set prog \<or> LenCall \<in> set prog"

definition go_ok :: "'a::linorder list_call list list \<Rightarrow> 'a list_sys \<Rightarrow> nat \<Rightarrow> bool" where
  "go_ok progs s i \<longleftrightarrow> (critical (lat (gos s ! i)) \<longleftrightarrow> holder s = Some i) \<and> pc_ok (gos s ! i)
     \<and> map micro_of (made i s) @ pending (gos s ! i) = concat (map micros (progs ! i))
     \<and> (Ranged \<in> set (todo (gos s ! i)) \<or> Measured \<in> set (todo (gos s ! i)) \<longrightarrow> reads (progs ! i))"

definition linv :: "'a::linorder list_call list list \<Rightarrow> 'a list_sys \<Rightarrow> bool" where
  "linv progs s \<longleftrightarrow> length (gos s) = length progs \<and> shared s = value_of (updates (history s))
     \<and> explains {} (history s)
     \<and> (\<forall>i < length progs. go_ok progs s i)
     \<and> (broken s \<longrightarrow> (\<exists>prog \<in> set progs. reads prog))"

lemma go_cases:
  assumes "list_go_step i s = Some s'"
  obtains (lock) p ps where "lat (gos s ! i) = Out" "todo (gos s ! i) = Locked p # ps" "holder s = None"
      "s' = s\<lparr>gos := (gos s)[i := (gos s ! i)\<lparr>lat := Testing\<rparr>], holder := Some i\<rparr>"
  | (read) m ps where "lat (gos s ! i) = Out" "todo (gos s ! i) = m # ps" "m = Ranged \<or> m = Measured"
      "s' = s\<lparr>gos := (gos s)[i := (gos s ! i)\<lparr>lat := Reading\<rparr>], broken := written s\<rparr>"
  | (absent) p ps where "lat (gos s ! i) = Testing" "todo (gos s ! i) = Locked p # ps"
      "s' = s\<lparr>gos := (gos s)[i := (gos s ! i)\<lparr>lat := Writing\<rparr>], broken := accessed s\<rparr>"
  | (present) x ps where "lat (gos s ! i) = Testing" "todo (gos s ! i) = Locked (Ins x) # ps"
      "map_get (list_data (shared s)) x \<noteq> None"
      "s' = s\<lparr>gos := (gos s)[i := (gos s ! i)\<lparr>lat := Leaving\<rparr>], history := history s @ [(i, Did (Ins x))], broken := written s\<rparr>"
  | (stored) p ps where "lat (gos s ! i) = Writing" "todo (gos s ! i) = Locked p # ps"
      "s' = s\<lparr>gos := (gos s)[i := (gos s ! i)\<lparr>lat := Leaving\<rparr>], shared := elem_apply (shared s) p, history := history s @ [(i, Did p)]\<rparr>"
  | (unlock) p ps where "lat (gos s ! i) = Leaving" "todo (gos s ! i) = Locked p # ps"
      "s' = s\<lparr>gos := (gos s)[i := (gos s ! i)\<lparr>lat := Out, todo := ps\<rparr>], holder := None\<rparr>"
  | (sliced) ps where "lat (gos s ! i) = Reading" "todo (gos s ! i) = Ranged # ps"
      "s' = s\<lparr>gos := (gos s)[i := (gos s ! i)\<lparr>lat := Out, todo := ps\<rparr>], history := history s @ [(i, Sliced (list_Slice (shared s)))]\<rparr>"
  | (counted) ps where "lat (gos s ! i) = Reading" "todo (gos s ! i) = Measured # ps"
      "s' = s\<lparr>gos := (gos s)[i := (gos s ! i)\<lparr>lat := Out, todo := ps\<rparr>], history := history s @ [(i, Counted (list_Len (shared s)))]\<rparr>"
  using assms
  by (auto simp: list_go_step_def Let_def split: list_pc.splits list.splits micro.splits elem.splits if_splits)

lemma other_ok:
  assumes "go_ok progs s j" "gos s' ! j = gos s ! j" "history s' = history s @ es" "\<forall>e \<in> set es. fst e \<noteq> j"
    and "holder s' = Some j \<longleftrightarrow> holder s = Some j"
  shows "go_ok progs s' j"
proof -
  have "filter (\<lambda>e. fst e = j) es = []" using assms(4) by (auto simp: filter_empty_conv)
  then have "made j s' = made j s" using assms(3) by (simp add: made_def)
  then show ?thesis using assms by (simp add: go_ok_def)
qed

text \<open>While \<open>i\<close> holds the mutex, an access of another goroutine is that of a \<open>Slice\<close> or a \<open>Len\<close>.\<close>

lemma only_reads:
  assumes "linv progs s" "i < length progs" "critical (lat (gos s ! i))" "lat (gos s ! i) \<noteq> Writing"
  shows "\<not> written s" and "accessed s \<Longrightarrow> \<exists>prog \<in> set progs. reads prog"
proof -
  have ok: "go_ok progs s j" if "j < length progs" for j using assms(1) that by (simp add: linv_def)
  have len: "length (gos s) = length progs" using assms(1) by (simp add: linv_def)
  have w: "lat (gos s ! j) \<noteq> Writing" if "j < length progs" for j
    using ok [OF that] ok [OF assms(2)] assms(3,4) by (cases "j = i") (auto simp: go_ok_def)
  then show "\<not> written s" using len by (auto simp: written_def list_ex_length)
  assume "accessed s"
  then obtain j where j: "j < length progs" "lat (gos s ! j) = Reading"
    using w len by (auto simp: accessed_def list_ex_length)
  with ok [OF j(1)] have "reads (progs ! j)" by (auto simp: go_ok_def pc_ok_def)
  with j(1) show "\<exists>prog \<in> set progs. reads prog" using nth_mem by blast
qed

lemma made_snoc: "history s' = history s @ [(i, e)] \<Longrightarrow> made i s' = made i s @ [e]"
  by (simp add: made_def)

lemma present_Add: "map_get (list_data l) x \<noteq> None \<Longrightarrow> list_Add l x = l"
  by (auto simp: list_Add_def)

lemma linv_step: "linv progs s \<Longrightarrow> lstep s s' \<Longrightarrow> linv progs s'"
proof -
  assume inv: "linv progs s" and step: "lstep s s'"
  from step obtain i where nb: "\<not> broken s" and i: "i < length (gos s)" and go: "list_go_step i s = Some s'"
    by (rule lstepE)
  have len: "length (gos s) = length progs" and val: "shared s = value_of (updates (history s))"
    and expl: "explains {} (history s)"
    and all: "\<And>j. j < length progs \<Longrightarrow> go_ok progs s j" using inv by (auto simp: linv_def)
  have ip: "i < length progs" using i len by simp
  note me = all [OF ip]
  have "length (gos s') = length progs \<and> shared s' = value_of (updates (history s')) \<and> explains {} (history s')
    \<and> go_ok progs s' i
    \<and> (\<forall>j. j \<noteq> i \<longrightarrow> gos s' ! j = gos s ! j) \<and> (\<exists>es. history s' = history s @ es \<and> (\<forall>e \<in> set es. fst e = i))
    \<and> (\<forall>j. j \<noteq> i \<longrightarrow> (holder s' = Some j \<longleftrightarrow> holder s = Some j))
    \<and> (broken s' \<longrightarrow> (\<exists>prog \<in> set progs. reads prog))"
    using go
  proof (cases rule: go_cases)
    case (lock p ps)
    then show ?thesis using me i len val expl nb by (auto simp: go_ok_def pc_ok_def pending_def made_def)
  next
    case (read m ps)
    then have "reads (progs ! i)" using me by (auto simp: go_ok_def)
    then show ?thesis using read me i len val expl ip by (auto simp: go_ok_def pc_ok_def pending_def made_def)
  next
    case (absent p ps)
    then have "accessed s \<Longrightarrow> \<exists>prog \<in> set progs. reads prog" using only_reads [OF inv ip] by simp
    then show ?thesis using absent me i len val expl by (auto simp: go_ok_def pc_ok_def pending_def made_def)
  next
    case (present x ps)
    then have w: "\<not> written s" using only_reads [OF inv ip] by simp
    have "value_of (updates (history s) @ [Ins x]) = value_of (updates (history s))"
      using present(3) val by (simp add: value_of_def present_Add)
    then show ?thesis using present w me i len val expl made_snoc [of s' s i "Did (Ins x)"]
      by (auto simp: go_ok_def pc_ok_def pending_def explains_append)
  next
    case (stored p ps)
    then show ?thesis using me i len val expl nb made_snoc [of s' s i "Did p"]
      by (auto simp: go_ok_def pc_ok_def pending_def value_of_def explains_append)
  next
    case (unlock p ps)
    then show ?thesis using me i len val expl nb by (auto simp: go_ok_def pc_ok_def pending_def made_def)
  next
    case (sliced ps)
    then show ?thesis using me i len val expl nb made_snoc [of s' s i "Sliced (list_Slice (shared s))"]
      by (auto simp: go_ok_def pc_ok_def pending_def explains_append value_of_reads)
  next
    case (counted ps)
    then show ?thesis using me i len val expl nb made_snoc [of s' s i "Counted (list_Len (shared s))"]
      by (auto simp: go_ok_def pc_ok_def pending_def explains_append value_of_reads)
  qed
  then obtain es where main: "length (gos s') = length progs" "shared s' = value_of (updates (history s'))"
    "explains {} (history s')" "go_ok progs s' i"
    "\<forall>j. j \<noteq> i \<longrightarrow> gos s' ! j = gos s ! j" "history s' = history s @ es" "\<forall>e \<in> set es. fst e = i"
    "\<forall>j. j \<noteq> i \<longrightarrow> (holder s' = Some j \<longleftrightarrow> holder s = Some j)"
    "broken s' \<longrightarrow> (\<exists>prog \<in> set progs. reads prog)" by blast
  have "go_ok progs s' j" if "j < length progs" for j
  proof (cases "j = i")
    case False
    then show ?thesis using other_ok [OF all [OF that], of s' es] main by auto
  qed (use main in simp)
  with main show "linv progs s'" by (simp add: linv_def)
qed

lemma linv_start: "linv progs (list_start progs)"
proof -
  have slow: "reads prog" if "m \<in> set (concat (map micros prog))" "m = Ranged \<or> m = Measured"
    for m and prog :: "'a list_call list"
  proof -
    from that(1) obtain k where k: "k \<in> set prog" "m \<in> set (micros k)" by auto
    from k(2) that(2) have "k = SliceCall \<or> k = LenCall" by (cases k) auto
    with k(1) show ?thesis by (auto simp: reads_def)
  qed
  have "go_ok progs (list_start progs) i" if "i < length progs" for i
    using that slow [of Ranged "progs ! i"] slow [of Measured "progs ! i"]
    by (simp add: go_ok_def list_start_def pc_ok_def made_def pending_def)
  then show ?thesis by (simp add: linv_def) (simp add: list_start_def value_of_def)
qed

interpretation conc: step_system "\<lambda>s. s = list_start progs" lstep "linv progs"
  by unfold_locales (auto intro: linv_start linv_step)

subsection \<open>Properties\<close>

text \<open>
  C39: a \<open>List\<close> under any number of goroutines, in every interleaving, is linearizable. There is one order
  of the single additions, removals, \<open>Slice\<close>s and \<open>Len\<close>s, each at a moment between its call and
  its return: in this order the list is a set, every \<open>Slice\<close> and \<open>Len\<close> returned the whole set, ascending, or
  its size at its place, and each goroutine went through its program, to the end once it has no call left.
  The list itself reads as the set at the end. No two goroutines hold the mutex. Only a \<open>Slice\<close> or a \<open>Len\<close>, which
  do not take it, can break this, by reading the map during a write: in programs without them no access of the
  map ever overlaps a write.
\<close>

theorem List_linearizable:
  fixes s :: "'a::linorder list_sys"
  assumes "lstep\<^sup>*\<^sup>* (list_start progs) s"
  shows "explains {} (history s)
    \<and> list_Slice (shared s) = sorted_list_of_set (foldl elem_set {} (updates (history s)))
    \<and> list_Len (shared s) = card (foldl elem_set {} (updates (history s)))
    \<and> (\<forall>i < length progs. \<exists>rest.
         concat (map micros (progs ! i)) = map micro_of (map snd (filter (\<lambda>e. fst e = i) (history s))) @ rest
         \<and> (todo (gos s ! i) = [] \<longrightarrow> rest = []))
    \<and> (\<forall>i < length progs. \<forall>j < length progs. critical (lat (gos s ! i)) \<and> critical (lat (gos s ! j)) \<longrightarrow> i = j)
    \<and> (broken s \<longrightarrow> (\<exists>prog \<in> set progs. SliceCall \<in> set prog \<or> LenCall \<in> set prog))"
proof -
  have inv: "linv progs s" by (rule conc.reach_inv [OF refl assms])
  have ok: "go_ok progs s i" if "i < length progs" for i using inv that by (simp add: linv_def)
  have "\<exists>rest. concat (map micros (progs ! i)) = map micro_of (map snd (filter (\<lambda>e. fst e = i) (history s))) @ rest
         \<and> (todo (gos s ! i) = [] \<longrightarrow> rest = [])" if "i < length progs" for i
    using ok [OF that] by (intro exI [of _ "pending (gos s ! i)"]) (auto simp: go_ok_def made_def pending_def)
  moreover have "i = j" if "i < length progs" "j < length progs" "critical (lat (gos s ! i))" "critical (lat (gos s ! j))" for i j
    using ok [OF that(1)] ok [OF that(2)] that by (simp add: go_ok_def)
  ultimately show ?thesis using inv by (simp add: value_of_reads linv_def reads_def)
qed

text \<open>A run given by the order in which the goroutines move.\<close>

fun list_run :: "nat list \<Rightarrow> 'a::linorder list_sys \<Rightarrow> 'a list_sys option" where
  "list_run [] s = Some s"
| "list_run (i # is) s =
     (if broken s \<or> length (gos s) \<le> i then None
      else (case list_go_step i s of None \<Rightarrow> None | Some s' \<Rightarrow> list_run is s'))"

lemma list_run_steps: "list_run is s = Some s' \<Longrightarrow> lstep\<^sup>*\<^sup>* s s'"
proof (induction "is" s rule: list_run.induct)
  case (2 i "is" s)
  then obtain s1 where s1: "\<not> broken s" "i < length (gos s)" "list_go_step i s = Some s1" "list_run is s1 = Some s'"
    by (auto split: if_splits option.splits)
  have "lstep s s1" by (rule lstep.intros [OF s1(1-3)])
  moreover have "lstep\<^sup>*\<^sup>* s1 s'" using 2 s1 by simp
  ultimately show ?case by (rule converse_rtranclp_into_rtranclp)
qed simp

lemma list_run_obtain:
  assumes "case list_run is s of None \<Rightarrow> False | Some s' \<Rightarrow> P s'"
  obtains s' where "list_run is s = Some s'" "P s'"
  using assms by (cases "list_run is s") simp_all

text \<open>
  A goroutine that stores two elements and counts them, beside one that removes the first in between.
\<close>

definition demo_progs :: "nat list_call list list" where
  "demo_progs = [[Update (OpAddSlice [3, 1]), LenCall], [Update (OpRemove 3), SliceCall]]"

definition demo_moves :: "nat list" where
  "demo_moves = [0, 0, 0, 0, 1, 1, 1, 1, 0, 0, 0, 0, 0, 1, 0, 1]"

theorem List_linearizable_witness:
  "\<exists>s. list_run demo_moves (list_start demo_progs) = Some s
     \<and> history s = [(0, Did (Ins 3)), (1, Did (Del 3)), (0, Did (Ins 1)), (0, Counted 1), (1, Sliced [1])]
     \<and> explains {} (history s) \<and> list_Slice (shared s) = [1] \<and> list_Len (shared s) = 1"
proof -
  have "case list_run demo_moves (list_start demo_progs) of None \<Rightarrow> False
      | Some s \<Rightarrow> history s = [(0, Did (Ins 3)), (1, Did (Del 3)), (0, Did (Ins 1)), (0, Counted 1), (1, Sliced [1])]"
    by code_simp
  then obtain s where s: "list_run demo_moves (list_start demo_progs) = Some s"
    "history s = [(0, Did (Ins 3)), (1, Did (Del 3)), (0, Did (Ins 1)), (0, Counted 1), (1, Sliced [1])]"
    by (rule list_run_obtain)
  note lin = List_linearizable [OF list_run_steps [OF s(1)]]
  have "explains {} (history s)"
    "list_Slice (shared s) = sorted_list_of_set (foldl elem_set {} (updates (history s)))"
    "list_Len (shared s) = card (foldl elem_set {} (updates (history s)))"
    using lin by blast+
  with s show ?thesis by simp
qed

text \<open>
  \<open>Slice\<close> and \<open>Len\<close> take no mutex: beside a single \<open>Add\<close>, there are runs in which they read the map during
  the write.
\<close>

lemma unlocked_read_races:
  "\<exists>s. lstep\<^sup>*\<^sup>* (list_start [[Update (OpAdd (1 :: nat))], [SliceCall]]) s \<and> broken s"
  "\<exists>s. lstep\<^sup>*\<^sup>* (list_start [[Update (OpAdd (1 :: nat))], [LenCall]]) s \<and> broken s"
proof -
  let ?s = "\<lambda>k. list_start [[Update (OpAdd (1 :: nat))], [k]]"
  have "case list_run [0, 0, 1] (?s SliceCall) of None \<Rightarrow> False | Some s \<Rightarrow> broken s" by code_simp
  then obtain s where "list_run [0, 0, 1] (?s SliceCall) = Some s" "broken s" by (rule list_run_obtain)
  then show "\<exists>s. lstep\<^sup>*\<^sup>* (?s SliceCall) s \<and> broken s" by (intro exI [of _ s] conjI list_run_steps)
  have "case list_run [0, 0, 1] (?s LenCall) of None \<Rightarrow> False | Some s \<Rightarrow> broken s" by code_simp
  then obtain s where "list_run [0, 0, 1] (?s LenCall) = Some s" "broken s" by (rule list_run_obtain)
  then show "\<exists>s. lstep\<^sup>*\<^sup>* (?s LenCall) s \<and> broken s" by (intro exI [of _ s] conjI list_run_steps)
qed

end
