(* ===== verification/Http_Pacing.thy ===== *)
theory Http_Pacing
  imports Http_Options
begin

section \<open>A client between its requests\<close>

text \<open>
  The retry layer of a client put together from its three parts: the configuration and the options
  (\<open>httpclient/options.go\<close>), the round trip (\<open>httpclient/retry_transport.go\<close>) and the retrier below it
  (\<open>retry/retry.go\<close>). A run is recorded beside the external state: every answer of the base transport
  and every wait of the retrier. The lemmas show that recording changes nothing, and what stands
  between two requests.
\<close>

subsection \<open>Recording\<close>

datatype pace = Answered "goerror + int \<times> string" | Paused int

fun answers :: "pace list \<Rightarrow> (goerror + int \<times> string) list" where
  "answers [] = []"
| "answers (Answered a # lg) = a # answers lg"
| "answers (Paused d # lg) = answers lg"

definition recorded :: "'e httpenv \<Rightarrow> ('e \<times> pace list) httpenv" where
  "recorded env =
     \<lparr>base_RoundTrip = (\<lambda>k (e, lg). case base_RoundTrip env k e of (a, e') \<Rightarrow> (a, (e', lg @ [Answered a]))),
      parent_Err = (\<lambda>(e, lg). parent_Err env e),
      time_left = (\<lambda>(e, lg). time_left env e),
      ran_out = (\<lambda>t k (e, lg). ran_out env t k e),
      GetBody = (\<lambda>(e, lg). case GetBody env e of (x, e') \<Rightarrow> (x, (e', lg))),
      budget_Allow = (\<lambda>(e, lg). case budget_Allow env e of (b, e') \<Rightarrow> (b, (e', lg))),
      budget_Record = (\<lambda>b (e, lg). (budget_Record env b e, lg)),
      onAttempt = map_option (\<lambda>hook i p. (hook i (fst p), snd p)) (onAttempt env),
      elapsed = (\<lambda>(e, lg) (e', lg'). elapsed env e e'),
      reused = (\<lambda>(e, lg). reused env e),
      drain = (\<lambda>k (e, lg). (drain env k e, lg)),
      date_until = (\<lambda>v (e, lg). date_until env v e)\<rparr>"

definition recorded_timer :: "(int \<Rightarrow> 'e \<Rightarrow> bool \<times> 'e) \<Rightarrow> int \<Rightarrow> 'e \<times> pace list \<Rightarrow> bool \<times> 'e \<times> pace list" where
  "recorded_timer timer = (\<lambda>d p. map_prod id (\<lambda>e. (e, snd p @ [Paused d])) (timer d (fst p)))"

definition recorded_rnd :: "'e gorand \<Rightarrow> ('e \<times> pace list) gorand" where
  "recorded_rnd rnd = (\<lambda>k p. map_prod id (\<lambda>e. (e, snd p)) (rnd k (fst p)))"

lemma recorded_sel [simp]:
  "base_RoundTrip (recorded env) k p
     = (case base_RoundTrip env k (fst p) of (a, e') \<Rightarrow> (a, (e', snd p @ [Answered a])))"
  "parent_Err (recorded env) p = parent_Err env (fst p)"
  "time_left (recorded env) p = time_left env (fst p)"
  "ran_out (recorded env) t k p = ran_out env t k (fst p)"
  "GetBody (recorded env) p = map_prod id (\<lambda>e. (e, snd p)) (GetBody env (fst p))"
  "budget_Allow (recorded env) p = map_prod id (\<lambda>e. (e, snd p)) (budget_Allow env (fst p))"
  "budget_Record (recorded env) b p = (budget_Record env b (fst p), snd p)"
  "onAttempt (recorded env) = map_option (\<lambda>hook i p. (hook i (fst p), snd p)) (onAttempt env)"
  "elapsed (recorded env) p q = elapsed env (fst p) (fst q)"
  "reused (recorded env) p = reused env (fst p)"
  "drain (recorded env) k p = (drain env k (fst p), snd p)"
  "date_until (recorded env) v p = date_until env v (fst p)"
  by (simp_all add: recorded_def map_prod_def case_prod_beta split: prod.splits)

text \<open>The loop as it is without the record.\<close>

definition unrecorded :: "('e \<times> pace list) aloop \<Rightarrow> 'e aloop" where
  "unrecorded l = \<lparr>ext = fst (ext l), trace = trace l, l_attempt = l_attempt l, l_resp = l_resp l, l_prev = l_prev l\<rparr>"

lemma unrecorded_upd [simp]:
  "unrecorded (l\<lparr>ext := p\<rparr>) = (unrecorded l)\<lparr>ext := fst p\<rparr>"
  "unrecorded (l\<lparr>l_attempt := k\<rparr>) = (unrecorded l)\<lparr>l_attempt := k\<rparr>"
  "unrecorded (l\<lparr>l_resp := r\<rparr>) = (unrecorded l)\<lparr>l_resp := r\<rparr>"
  "unrecorded (l\<lparr>l_prev := q\<rparr>) = (unrecorded l)\<lparr>l_prev := q\<rparr>"
  "unrecorded (note_ev ev l) = note_ev ev (unrecorded l)"
  "unrecorded (new_loop (e, lg)) = new_loop e"
  by (simp_all add: unrecorded_def note_ev_def new_loop_def)

lemma unrecorded_sel [simp]:
  "fst (ext l) = ext (unrecorded l)" "trace (unrecorded l) = trace l" "l_attempt (unrecorded l) = l_attempt l"
  "l_resp (unrecorded l) = l_resp l" "l_prev (unrecorded l) = l_prev l"
  by (simp_all add: unrecorded_def)

subsection \<open>Recording changes nothing\<close>

lemma unrecorded_emit [simp]:
  "unrecorded (emit (recorded env) req k st er el rt ru l) = emit env req k st er el rt ru (unrecorded l)"
  by (cases "onAttempt env") (simp_all add: emit_def split: prod.splits)

lemma unrecorded_drainClose [simp]:
  "unrecorded (drainClose (recorded env) r c l) = drainClose env r c (unrecorded l)"
  by (simp add: drainClose_def Let_def)

lemma unrecorded_drainPrev [simp]:
  "unrecorded (drainPrev (recorded env) l) = drainPrev env (unrecorded l)"
  by (simp add: drainPrev_def split: option.splits)

lemma drainPrev_attempt [simp]: "l_attempt (drainPrev env l) = l_attempt l"
  by (simp add: drainPrev_def split: option.splits)

lemma unrecorded_classify:
  "classify rt env req cr r k el reu (unrecorded l)
     = map_prod id unrecorded (classify rt (recorded env) req cr r k el reu l)"
  by (simp add: classify_def Let_def wrapBodyCancel_def split: prod.splits)

lemma attempt_Err_recorded: "attempt_Err (recorded env) tmo k l = attempt_Err env tmo k (unrecorded l)"
  by (simp add: attempt_Err_def)

lemma normalizeErr_recorded: "normalizeErr (recorded env) tmo k rerr l = normalizeErr env tmo k rerr (unrecorded l)"
  by (simp only: normalizeErr_def attempt_Err_recorded recorded_sel unrecorded_sel)

lemma unrecorded_transmit:
  "transmit rt env req cr tmo (unrecorded l) = map_prod id unrecorded (transmit rt (recorded env) req cr tmo l)"
  by (simp add: transmit_def Let_def normalizeErr_recorded unrecorded_classify [symmetric]
      split: prod.splits sum.splits)

lemma unrecorded_send:
  "send rt env req cr (unrecorded l) = map_prod id unrecorded (send rt (recorded env) req cr l)"
proof -
  have t: "attemptContext rt (recorded env) (ext l) = attemptContext rt env (ext (unrecorded l))"
    by (simp add: attemptContext_def)
  obtain x e where "GetBody env (ext (unrecorded l)) = (x, e)" by force
  then show ?thesis
    by (cases x; cases "1 < l_attempt l \<and> has_GetBody req")
      (auto simp: send_def Let_def t unrecorded_transmit [symmetric])
qed

lemma unrecorded_once:
  "once rt env req cr (unrecorded l) = map_prod id unrecorded (once rt (recorded env) req cr l)"
proof -
  define m where "m = drainPrev (recorded env) (l\<lparr>l_attempt := l_attempt l + 1\<rparr>)"
  have m': "drainPrev env ((unrecorded l)\<lparr>l_attempt := l_attempt l + 1\<rparr>) = unrecorded m" by (simp add: m_def)
  have k: "l_attempt m = l_attempt l + 1" by (simp add: m_def)
  obtain b e where "budget_Allow env (ext (unrecorded m)) = (b, e)" by force
  then show ?thesis
    by (cases b; cases "0 < l_attempt l")
      (simp_all add: once_def Let_def m_def [symmetric] m' k unrecorded_send [symmetric])
qed

lemma unrecorded_result:
  "result env (map_prod id unrecorded x) = map_prod id unrecorded (result (recorded env) x)"
  by (cases x) (simp add: result_def Let_def wrapBodyCancel_def split: option.splits prod.splits)

interpretation recording: retry_view unrecorded "lift_ctx (recorded env) (recorded_timer timer)"
    "once rt (recorded env) req cr" "lift_rnd (recorded_rnd rnd)"
    "lift_ctx env timer" "once rt env req cr" "lift_rnd rnd"
  by unfold_locales (auto simp: lift_ctx_def lift_rnd_def recorded_timer_def recorded_rnd_def unrecorded_once
      split: prod.splits)

lemma recorded_run:
  assumes "RoundTrip rt (recorded env) (recorded_timer timer) (recorded_rnd rnd) req (e, lg) = (out, l)"
  shows "RoundTrip rt env timer rnd req e = (out, unrecorded l)"
proof -
  have new: "new_loop e = unrecorded (new_loop (e, lg))" by simp
  have "RoundTrip rt env timer rnd req e = map_prod id unrecorded
      (RoundTrip rt (recorded env) (recorded_timer timer) (recorded_rnd rnd) req (e, lg))"
    unfolding RoundTrip_def Let_def new unrecorded_once recording.view_DoCtx unrecorded_result by simp
  with assms show ?thesis by simp
qed

subsection \<open>What one attempt records\<close>

text \<open>The record of a loop. Only the base transport and the timer write to it.\<close>

abbreviation record_of :: "('e \<times> pace list) aloop \<Rightarrow> pace list" where
  "record_of l \<equiv> snd (ext l)"

text \<open>A failed attempt and the answer it was given: either no response, or one that asks for a retry.\<close>

definition asks :: "retry_transport \<Rightarrow> goerror \<Rightarrow> goerror + int \<times> string \<Rightarrow> bool" where
  "asks rt err a =
     (case a of
        Inl rerr \<Rightarrow> True
      | Inr (status, header) \<Rightarrow> status \<in> retryableStatuses
          \<and> (\<exists>until k d. retryAfterDelay rt until \<lparr>r_attempt = k, StatusCode = status, RetryAfter = header\<rparr> = (d, True)
                \<and> err = retryableStatusError status d))"

text \<open>What an attempt may add to the record: nothing when it fails before it is sent, else its answer.\<close>

definition adds :: "retry_transport \<Rightarrow> goerror option \<Rightarrow> pace list \<Rightarrow> pace list \<Rightarrow> bool" where
  "adds rt res lg lg' \<longleftrightarrow> res \<noteq> None \<and> lg' = lg
     \<or> (\<exists>a. lg' = lg @ [Answered a] \<and> (\<forall>err. res = Some err \<longrightarrow> asks rt err a))"

lemma record_simps [simp]:
  "record_of (note_ev ev l) = record_of l"
  "record_of (emit (recorded env) req k st er el rt ru l) = record_of l"
  "record_of (drainClose (recorded env) r c l) = record_of l"
  "record_of (drainPrev (recorded env) l) = record_of l"
  "record_of (new_loop (e, lg)) = lg"
  by (simp_all add: note_ev_def emit_def drainClose_def drainPrev_def new_loop_def Let_def map_option_case
      split: option.splits prod.splits)

lemma classify_records:
  assumes "classify rt (recorded env) req cr r k el reu l = (res, l')"
  shows "record_of l' = record_of l"
    and "res = Some err \<Longrightarrow> asks rt err (Inr (StatusCode r, RetryAfter r))"
proof -

  show "record_of l' = record_of l"
    using assms by (auto simp: classify_def Let_def wrapBodyCancel_def split: prod.splits if_splits)
  assume "res = Some err"
  then obtain until d where "StatusCode r \<in> retryableStatuses" "err = retryableStatusError (StatusCode r) d"
    and d: "retryAfterDelay rt until r = (d, True)"
    using assms by (auto simp: classify_def Let_def split: prod.splits if_splits)
  moreover have "retryAfterDelay rt until \<lparr>r_attempt = r_attempt r, StatusCode = StatusCode r,
      RetryAfter = RetryAfter r\<rparr> = (d, True)"
    using d by (cases r) simp
  ultimately show "asks rt err (Inr (StatusCode r, RetryAfter r))" unfolding asks_def by fastforce
qed

lemma transmit_records:
  assumes "transmit rt (recorded env) req cr tmo l = (res, l')"
  shows "adds rt res (record_of l) (record_of l')"
proof -
  obtain a e where b: "base_RoundTrip env (l_attempt l) (ext (unrecorded l)) = (a, e)" by force
  show ?thesis
  proof (cases a)
    case (Inl rerr)
    with assms b show ?thesis by (auto simp: transmit_def Let_def adds_def asks_def)
  next
    case (Inr p)
    obtain st h where p: "p = (st, h)" by force
    let ?l = "note_ev (Got (l_attempt l)) (note_ev (Sent (l_attempt l))
        (l\<lparr>ext := (e, record_of l @ [Answered a])\<rparr>))"
    obtain el reu where c: "classify rt (recorded env) req cr
        \<lparr>r_attempt = l_attempt l, StatusCode = st, RetryAfter = h\<rparr> (l_attempt l) el reu ?l = (res, l')"
      using assms b Inr p by (auto simp: transmit_def Let_def)
    show ?thesis using classify_records [OF c] Inr p by (auto simp: adds_def)
  qed
qed

lemma send_records:
  assumes "send rt (recorded env) req cr l = (res, l')"
  shows "adds rt res (record_of l) (record_of l')"
proof -
  obtain x e where "GetBody env (ext (unrecorded l)) = (x, e)" by force
  then show ?thesis
    using assms by (cases x; cases "1 < l_attempt l \<and> has_GetBody req")
      (auto simp: send_def Let_def adds_def [where res = "Some err" for err] dest!: transmit_records)
qed

lemma once_records:
  assumes "once rt (recorded env) req cr l = (res, l')"
  shows "adds rt res (record_of l) (record_of l')"
proof -
  define m where "m = drainPrev (recorded env) (l\<lparr>l_attempt := l_attempt l + 1\<rparr>)"
  have m: "record_of m = record_of l" "l_attempt m = l_attempt l + 1" by (simp_all add: m_def)
  obtain b e where "budget_Allow env (ext (unrecorded m)) = (b, e)" by force
  then show ?thesis
    using assms m by (cases b; cases "0 < l_attempt l")
      (auto simp: once_def Let_def m_def [symmetric] adds_def [where res = "Some errBudgetExhausted"] dest!: send_records)
qed

lemma result_records: "result (recorded env) (err, l) = (out, l') \<Longrightarrow> record_of l' = record_of l"
  by (auto simp: result_def Let_def wrapBodyCancel_def split: option.splits prod.splits if_splits)

subsection \<open>Pacing\<close>

text \<open>
  What may follow what in a record. Two requests are never sent back to back, and a wait comes only after a
  transport error or a response whose status asks for a retry (\<open>spaced\<close>). Moreover, when that response named a
  positive number of seconds in \<open>Retry-After\<close>, they are within the cap, the wait is no shorter, and at most a
  tenth longer (\<open>paced\<close>).
\<close>

fun spaced :: "pace \<Rightarrow> pace \<Rightarrow> bool" where
  "spaced (Answered a) (Answered b) = False"
| "spaced (Answered (Inl rerr)) (Paused d) = True"
| "spaced (Answered (Inr (status, header))) (Paused d) = (status \<in> retryableStatuses)"
| "spaced (Paused d) p = True"

definition honours :: "int \<Rightarrow> int \<Rightarrow> string \<Rightarrow> int \<Rightarrow> bool" where
  "honours cap status header d \<longleftrightarrow> status \<in> retryableStatuses
     \<and> (case Atoi header of
          Some n \<Rightarrow> (status = 429 \<or> status = 503) \<and> 0 < n \<longrightarrow>
            n * Second \<le> cap \<and> n * Second \<le> d \<and> d \<le> n * Second + n * Second div 10
        | None \<Rightarrow> True)"

fun paced :: "int \<Rightarrow> pace \<Rightarrow> pace \<Rightarrow> bool" where
  "paced cap (Answered a) (Answered b) = False"
| "paced cap (Answered (Inl rerr)) (Paused d) = True"
| "paced cap (Answered (Inr (status, header))) (Paused d) = honours cap status header d"
| "paced cap (Paused d) p = True"

text \<open>
  The second holds of the caps that are not negative and leave room, below the largest duration, for a tenth
  and one second on top; nearer to the top the arithmetic of the delays overflows.
\<close>

definition cap_ok :: "int \<Rightarrow> bool" where
  "cap_ok cap \<longleftrightarrow> 0 \<le> cap \<and> cap + cap div 10 + Second \<le> MaxInt64"

definition follows :: "int \<Rightarrow> pace \<Rightarrow> pace \<Rightarrow> bool" where
  "follows cap p q \<longleftrightarrow> spaced p q \<and> (cap_ok cap \<longrightarrow> paced cap p q)"

lemma follows_simps [simp]: "follows cap (Paused d) p" "follows cap (Answered (Inl rerr)) (Paused d)"
  "follows cap (Answered (Inr (status, header))) (Paused d)
     \<longleftrightarrow> status \<in> retryableStatuses \<and> (cap_ok cap \<longrightarrow> honours cap status header d)"
  by (simp_all add: follows_def)

definition waited :: "pace list \<Rightarrow> bool" where
  "waited lg \<longleftrightarrow> lg = [] \<or> (\<exists>d. last lg = Paused d)"

definition pace_ok :: "int \<Rightarrow> ('e \<times> pace list) aloop \<Rightarrow> bool" where
  "pace_ok cap l \<longleftrightarrow> successively (follows cap) (record_of l) \<and> int (length (answers (record_of l))) \<le> l_attempt l"

definition pace_failed :: "retry_transport \<Rightarrow> goerror \<Rightarrow> ('e \<times> pace list) aloop \<Rightarrow> bool" where
  "pace_failed rt err l \<longleftrightarrow> pace_ok (maxRetryAfter rt) l
     \<and> (waited (record_of l) \<or> (\<exists>lg a. record_of l = lg @ [Answered a] \<and> asks rt err a))"

lemma answers_append [simp]: "answers (xs @ ys) = answers xs @ answers ys"
  by (induction xs rule: answers.induct) simp_all

lemma waited_simps [simp]: "waited []" "waited (lg @ [Paused d])" "\<not> waited (lg @ [Answered a])"
  by (simp_all add: waited_def)

lemma once_paced:
  assumes "once rt (recorded env) req cr l = (res, l')" and "pace_ok cap l" "waited (record_of l)"
  shows "pace_ok cap l'"
    and "res = Some err \<Longrightarrow> waited (record_of l') \<or> (\<exists>lg a. record_of l' = lg @ [Answered a] \<and> asks rt err a)"
  using assms once_records [OF assms(1)] once_count [OF assms(1)]
  by (auto simp: adds_def pace_ok_def waited_def successively_append_iff)

text \<open>A wait after a failed attempt.\<close>

lemma asked_wait:
  assumes "cap_ok (maxRetryAfter rt)" "rand_ok rnd" "asks rt err (Inr (status, header))"
    and "nextDelay r rnd i err w = (d, w')"
  shows "honours (maxRetryAfter rt) status header d"
proof -
  let ?cap = "maxRetryAfter rt"
  have cap: "0 \<le> ?cap" "?cap + Second \<le> MaxInt64" and tenth: "?cap + ?cap div 10 \<le> MaxInt64"
    using assms(1) by (auto simp: cap_ok_def Second_def)
  obtain until k h where s: "status \<in> retryableStatuses"
    and a: "retryAfterDelay rt until \<lparr>r_attempt = k, StatusCode = status, RetryAfter = header\<rparr> = (h, True)"
    and err: "err = retryableStatusError status h"
    using assms(3) by (auto simp: asks_def)
  have "n * Second \<le> ?cap \<and> n * Second \<le> d \<and> d \<le> n * Second + n * Second div 10"
    if n: "Atoi header = Some n" "status = 429 \<or> status = 503" "0 < n" for n
  proof -
    have h: "h = n * Second" "n * Second \<le> ?cap"
      using retryAfter_bounds [OF cap a] n by auto
    have as: "errors_As as_DelayHinter err = Some h" using err by (simp add: retryableStatusError_def)
    have pos: "0 < h" using h n(3) by (simp add: Second_def)
    have "h div 10 \<le> ?cap div 10" using h by (intro zdiv_mono1) simp_all
    then have "h + h div 10 \<le> MaxInt64" using h tenth by linarith
    from nextDelay_hint [OF assms(2) as pos this assms(4)] pos h show ?thesis
      by (auto split: if_splits)
  qed
  with s show ?thesis by (auto simp: honours_def split: option.splits)
qed

lemma nextDelay_keeps:
  assumes "nextDelay r (lift_rnd (recorded_rnd rnd)) i err l = (d, l')"
  shows "record_of l' = record_of l" and "l_attempt l' = l_attempt l"
  using assms
  by (auto simp: nextDelay_def linearDelay_def calculateJitter_def lift_rnd_def recorded_rnd_def Let_def map_prod_def
      split: option.splits if_splits prod.splits)

lemma recorded_rand_ok:
  assumes "rand_ok rnd"
  shows "rand_ok (lift_rnd (recorded_rnd rnd))"
  using assms by (auto simp: rand_ok_def lift_rnd_def recorded_rnd_def split: prod.splits)
    (metis fst_conv map_prod_simp id_apply prod.collapse)+

lemma pace_wait:
  assumes "rand_ok rnd" "pace_failed rt err l"
    and "nextDelay r (lift_rnd (recorded_rnd rnd)) i err l = (d, l1)"
    and "timer_first (lift_ctx (recorded env) (recorded_timer timer)) d l1 = (b, l')"
  shows "pace_ok (maxRetryAfter rt) l' \<and> waited (record_of l')"
proof -
  let ?cap = "maxRetryAfter rt"
  note keep = nextDelay_keeps [OF assms(3)]
  have l': "record_of l' = record_of l @ [Paused d]" "l_attempt l' = l_attempt l"
    using assms(4) keep by (auto simp: lift_ctx_def recorded_timer_def map_prod_def split: prod.splits)
  have "follows ?cap (last (record_of l)) (Paused d)" if "record_of l \<noteq> []"
  proof (cases "waited (record_of l)")
    case True
    with that show ?thesis by (auto simp: waited_def)
  next
    case False
    then obtain lg a where a: "record_of l = lg @ [Answered a]" "asks rt err a"
      using assms(2) by (auto simp: pace_failed_def)
    show ?thesis
    proof (cases a)
      case (Inr p)
      obtain status header where p: "p = (status, header)" by force
      with a(2) Inr have asks: "asks rt err (Inr (status, header))" by simp
      then have "cap_ok ?cap \<Longrightarrow> honours ?cap status header d"
        using asked_wait [OF _ recorded_rand_ok [OF assms(1)] _ assms(3)] by blast
      moreover have "status \<in> retryableStatuses" using asks by (auto simp: asks_def)
      ultimately show ?thesis using a(1) Inr p by simp
    qed (use a in simp)
  qed
  with assms(2) l' show ?thesis
    by (auto simp: pace_failed_def pace_ok_def successively_append_iff)
qed

interpretation pacing: retry_pacer r "lift_ctx (recorded env) (recorded_timer timer)" "once rt (recorded env) req cr"
    "lift_rnd (recorded_rnd rnd)"
    "\<lambda>l. rand_ok rnd \<longrightarrow> pace_ok (maxRetryAfter rt) l \<and> waited (record_of l)"
    "\<lambda>l. rand_ok rnd \<longrightarrow> pace_ok (maxRetryAfter rt) l"
    "\<lambda>e l. rand_ok rnd \<longrightarrow> pace_failed rt e l"
proof unfold_locales
  fix l l' :: "('a \<times> pace list) aloop" and e i d l1 b
  assume q: "rand_ok rnd \<longrightarrow> pace_failed rt e l"
    and w: "nextDelay r (lift_rnd (recorded_rnd rnd)) i e l = (d, l1)"
      "timer_first (lift_ctx (recorded env) (recorded_timer timer)) d l1 = (b, l')"
  show "rand_ok rnd \<longrightarrow> pace_ok (maxRetryAfter rt) l' \<and> waited (record_of l')"
    using pace_wait [OF _ _ w] q by blast
qed (auto simp: pace_failed_def dest: once_paced)

lemma RoundTrip_paced:
  assumes "rand_ok rnd" "rt_retrier rt = Some r"
    and "RoundTrip rt (recorded env) (recorded_timer timer) (recorded_rnd rnd) req (e, []) = (out, l)"
  shows "pace_ok (maxRetryAfter rt) l"
proof -
  have new: "pace_ok (maxRetryAfter rt) (new_loop (e, []))"
    by (simp add: pace_ok_def) (simp add: new_loop_def)
  have res: "pace_ok (maxRetryAfter rt) l" if "result (recorded env) (err, l1) = (out, l)" "pace_ok (maxRetryAfter rt) l1"
    for err l1
    using that result_records [OF that(1)]
    by (auto simp: pace_ok_def result_def Let_def wrapBodyCancel_def split: option.splits prod.splits if_splits)
  from RoundTrip_split [OF assms(3)] show ?thesis
  proof (elim disjE conjE)
    assume o: "result (recorded env) (once rt (recorded env) req False (new_loop (e, []))) = (out, l)"
    obtain err l1 where l1: "once rt (recorded env) req False (new_loop (e, [])) = (err, l1)" by force
    from once_paced(1) [OF l1 new] o l1 res show ?thesis by simp
  next
    assume o: "result (recorded env) (DoCtx (rt_retrier rt) (Some (lift_ctx (recorded env) (recorded_timer timer)))
        (Some (once rt (recorded env) req True)) (lift_rnd (recorded_rnd rnd)) (new_loop (e, []))) = (out, l)"
    obtain err l1 where l1: "DoCtx (Some r) (Some (lift_ctx (recorded env) (recorded_timer timer)))
        (Some (once rt (recorded env) req True)) (lift_rnd (recorded_rnd rnd)) (new_loop (e, [])) = (err, l1)" by force
    have "pace_ok (maxRetryAfter rt) l1"
      using pacing.DoCtx_paced [OF _ l1] new assms(1) by simp
    with o l1 assms(2) res show ?thesis by simp
  qed (use new in simp)
qed

subsection \<open>Properties\<close>

text \<open>
  C26: the retry layer of a client, for every configuration, base transport, budget, hook and clock.
  Recording its run does not change it. Two requests are never sent back to back: between them the
  retrier waits, and it does so only after a transport error or a response with a retryable status. At most
  \<open>max(maxRetries, 1)\<close> requests are sent, and one when the method may not be replayed. When the cap on
  \<open>Retry-After\<close> is not negative and leaves room, below the largest duration, for a tenth and one second on top
  (\<open>cap_ok\<close>), as every cap up to 265 years does, the header is kept: a number of seconds on
  a 429 or a 503 is a floor of the wait that follows, exceeded by at most a tenth, and a request is
  retried after one only when it is within the cap. For a cap at the very top, \<open>retryAfter_overflow\<close> shows that this fails.
\<close>

theorem client_paces_retries:
  assumes "w = newRetryTransport c base" "rand_ok rnd"
    and "RoundTrip (w_rt w) (recorded (wire w env)) (recorded_timer timer) (recorded_rnd rnd) req (e, []) = (out, l)"
  shows "fst (RoundTrip (w_rt w) (wire w env) timer rnd req e) = out
    \<and> successively spaced (snd (ext l))
    \<and> (cap_ok (c_maxRetryAfter c) \<longrightarrow> successively (paced (c_maxRetryAfter c)) (snd (ext l)))
    \<and> int (length (answers (snd (ext l))))
        \<le> (if retryNonIdempotent c \<or> Method req \<in> idempotentMethods
           then (case c_retrier c of None \<Rightarrow> max (c_maxRetries c) 1 | Some r \<Rightarrow> max (maxRetries r) 1) else 1)"
proof -
  obtain r where r: "rt_retrier (w_rt w) = Some r"
    and m: "max (maxRetries r) 1
        = (case c_retrier c of None \<Rightarrow> max (c_maxRetries c) 1 | Some r \<Rightarrow> max (maxRetries r) 1)"
    using assms(1) by (auto simp: newRetryTransport_def buildRetrier_def retry_New_def WithMaxRetries_def
        WithDelayStep_def WithJitter_def WithRetryIf_def Let_def split: option.splits)
  have cap: "maxRetryAfter (w_rt w) = c_maxRetryAfter c" and non: "nonIdem (w_rt w) = retryNonIdempotent c"
    using assms(1) by (simp_all add: newRetryTransport_def)
  have ok: "pace_ok (c_maxRetryAfter c) l"
    using RoundTrip_paced [OF assms(2) r assms(3)] cap by simp
  then have "successively spaced (snd (ext l))"
    "cap_ok (c_maxRetryAfter c) \<longrightarrow> successively (paced (c_maxRetryAfter c)) (snd (ext l))"
    unfolding pace_ok_def by (auto elim!: successively_mono simp: follows_def)
  moreover have "l_attempt l \<le> attempt_limit (w_rt w) req" using RoundTrip_outcome [OF assms(3)] by blast
  then have "l_attempt l \<le> (if retryNonIdempotent c \<or> Method req \<in> idempotentMethods
      then (case c_retrier c of None \<Rightarrow> max (c_maxRetries c) 1 | Some r \<Rightarrow> max (maxRetries r) 1) else 1)"
    unfolding attempt_limit_def can_retry_def r non option.case m .
  ultimately show ?thesis using ok recorded_run [OF assms(3)] unfolding pace_ok_def by (auto elim: order_trans)
qed

text \<open>A server that is unavailable and asks for two seconds, then answers.\<close>

definition demo_client :: "nat wired" where
  "demo_client = newRetryTransport (apply_options [Some (Http_WithMaxRetries 5)] defaultConfig)
     (base_RoundTrip demo_env)"

definition demo_record :: "pace list" where
  "demo_record = [Answered (Inr (503, ''2'')), Paused 2000000000, Answered (Inr (200, ''''))]"

definition demo_paced :: "(nat \<times> pace list) aloop" where
  "demo_paced = \<lparr>ext = (2, demo_record),
     trace = [Ctx 1 (Some DefaultPerAttemptTimeout), Sent 1, Got 1, Drained 1, Closed 1, Cancelled 1,
       Allowed True, Recorded True, Ctx 2 (Some DefaultPerAttemptTimeout), Rewound 2, Sent 2, Got 2, Wrapped 2],
     l_attempt = 2, l_resp = l_resp demo_out, l_prev = None\<rparr>"

lemma demo_recorded:
  "RoundTrip (w_rt demo_client) (recorded (wire demo_client demo_env)) (recorded_timer (\<lambda>d n. (True, n)))
     (recorded_rnd (\<lambda>k n. (0, n))) (demo_req ''GET'') (0, [])
   = ((Some \<lparr>r_attempt = 2, StatusCode = 200, RetryAfter = ''''\<rparr>, None),
      demo_paced)"
  by code_simp

theorem client_paces_retries_witness:
  "fst (RoundTrip (w_rt demo_client) (wire demo_client demo_env) (\<lambda>d n. (True, n)) (\<lambda>k n. (0, n)) (demo_req ''GET'') 0)
     = (Some \<lparr>r_attempt = 2, StatusCode = 200, RetryAfter = ''''\<rparr>, None)
   \<and> successively (paced DefaultMaxRetryAfter) demo_record \<and> length (answers demo_record) = 2
   \<and> \<not> successively (paced DefaultMaxRetryAfter)
        [Answered (Inr (503, ''2'')), Paused 1999999999, Answered (Inr (200, ''''))]"
proof -
  let ?c = "apply_options [Some (Http_WithMaxRetries 5)] defaultConfig :: nat config"
  have cap: "c_maxRetryAfter ?c = DefaultMaxRetryAfter"
    by (simp add: Http_WithMaxRetries_def defaultConfig_def)
  have "cap_ok (c_maxRetryAfter ?c)"
    unfolding cap by (simp add: cap_ok_def DefaultMaxRetryAfter_def Second_def MaxInt64_def)
  moreover have "rand_ok (\<lambda>k n. (0, n :: nat))" by (simp add: rand_ok_def)
  moreover have "\<not> successively (paced DefaultMaxRetryAfter)
      [Answered (Inr (503, ''2'')), Paused 1999999999, Answered (Inr (200, ''''))]" by code_simp
  ultimately show ?thesis
    using client_paces_retries [OF demo_client_def _ demo_recorded] cap
    by (simp add: demo_paced_def demo_record_def)
qed

end
