(* ===== verification/Crypter_Pool.thy ===== *)
theory Crypter_Pool
  imports Crypter "HOL-Library.Multiset"
begin

section \<open>Concurrent calls of Encrypt\<close>

text \<open>
  \<open>Encrypt\<close> of \<open>crypter/crypter.go\<close> run by any number of goroutines on one \<open>Crypter\<close>: the buffers of the
  nonce pool are addresses of a store, filling one and copying out of it go byte by byte, and \<open>sync.Pool\<close>
  hands out any buffer it holds, or a new one, and may forget some at any time. Every call remembers which
  read of the random source was its own.
\<close>

subsection \<open>The shared state and a call\<close>

record 'w store =
  bufs :: "nat \<Rightarrow> string"
  free :: "nat list"
  next_buf :: nat
  source :: 'w
  drawn :: "string list"

datatype enc_pc =
    Begin | Fetch
  | Draw nat
  | Fill nat nat string "goerror option"
  | Copy nat nat string
  | PutBack nat string
  | Return nat goerror
  | Sealing string
  | Finished "(goerror, string) gores"

record enc_call =
  plaintext :: string
  at :: enc_pc
  draw :: "nat option"

text \<open>
  One step of a call. The first argument is what the pool does on a \<open>Get\<close>: a position in the pool, or
  none for a new buffer.
\<close>

fun enc_step :: "nat option \<Rightarrow> crypter \<Rightarrow> 'w reader \<Rightarrow> enc_call \<Rightarrow> 'w store \<Rightarrow> (enc_call \<times> 'w store) option" where
  "enc_step choice c rand_Reader k m =
     (case at k of
        Begin \<Rightarrow> Some (k\<lparr>at := if IsEncrypted (plaintext k) then Finished (Ok (plaintext k)) else Fetch\<rparr>, m)
      | Fetch \<Rightarrow>
          (case choice of
             None \<Rightarrow> Some (k\<lparr>at := Draw (next_buf m)\<rparr>,
               m\<lparr>bufs := (bufs m)(next_buf m := replicate (nonceSize c) (CHR 0x00)), next_buf := Suc (next_buf m)\<rparr>)
           | Some i \<Rightarrow>
               if i < length (free m)
               then Some (k\<lparr>at := Draw (free m ! i)\<rparr>, m\<lparr>free := take i (free m) @ drop (Suc i) (free m)\<rparr>)
               else None)
      | Draw a \<Rightarrow>
          (case rand_Reader (length (bufs m a)) (source m) of
             ((err, bytes), w) \<Rightarrow>
               Some (k\<lparr>at := Fill a 0 bytes err, draw := Some (length (drawn m))\<rparr>,
                 m\<lparr>source := w, drawn := drawn m @ [bytes]\<rparr>))
      | Fill a i bytes err \<Rightarrow>
          if i < length bytes
          then Some (k\<lparr>at := Fill a (Suc i) bytes err\<rparr>, m\<lparr>bufs := (bufs m)(a := (bufs m a)[i := bytes ! i])\<rparr>)
          else Some (k\<lparr>at := (case err of
                 Some e \<Rightarrow> Return a e
               | None \<Rightarrow> Copy a 0 (replicate (nonceSize c) (CHR 0x00)))\<rparr>, m)
      | Copy a i nonce \<Rightarrow>
          if i < min (length nonce) (length (bufs m a))
          then Some (k\<lparr>at := Copy a (Suc i) (nonce[i := bufs m a ! i])\<rparr>, m)
          else Some (k\<lparr>at := PutBack a nonce\<rparr>, m)
      | PutBack a nonce \<Rightarrow> Some (k\<lparr>at := Sealing nonce\<rparr>, m\<lparr>free := a # free m\<rparr>)
      | Return a e \<Rightarrow> Some (k\<lparr>at := Finished (Err (wrap2 ErrReadNonce e))\<rparr>, m\<lparr>free := a # free m\<rparr>)
      | Sealing nonce \<Rightarrow>
          (let raw = nonce @ Seal (cr_aead c) nonce (plaintext k);
               buf = StartTag @ b64_encode raw @ EndTag
           in Some (k\<lparr>at := Finished (Ok buf)\<rparr>, m))
      | Finished r \<Rightarrow> None)"

declare enc_step.simps [simp del]

record 'w enc_system =
  store :: "'w store"
  calls :: "enc_call list"

inductive estep :: "crypter \<Rightarrow> 'w reader \<Rightarrow> 'w enc_system \<Rightarrow> 'w enc_system \<Rightarrow> bool" for c rd where
  enter: "estep c rd s (s\<lparr>calls := calls s @ [\<lparr>plaintext = d, at = Begin, draw = None\<rparr>]\<rparr>)"
| move: "calls s = us @ k # vs \<Longrightarrow> enc_step choice c rd k (store s) = Some (k', m) \<Longrightarrow>
    estep c rd s (s\<lparr>store := m, calls := us @ k' # vs\<rparr>)"
| forget: "free (store s) = us @ a # vs \<Longrightarrow> estep c rd s (s\<lparr>store := (store s)\<lparr>free := us @ vs\<rparr>\<rparr>)"

inductive_cases estepE: "estep c rd s s'"

definition enc_start :: "'w enc_system \<Rightarrow> bool" where
  "enc_start s \<longleftrightarrow> free (store s) = [] \<and> next_buf (store s) = 0 \<and> drawn (store s) = [] \<and> calls s = []"

subsection \<open>The invariant\<close>

text \<open>The buffer a call holds, and what it knows about it.\<close>

fun holds :: "enc_pc \<Rightarrow> nat list" where
  "holds (Draw a) = [a]"
| "holds (Fill a i bytes err) = [a]"
| "holds (Copy a i nonce) = [a]"
| "holds (PutBack a nonce) = [a]"
| "holds (Return a e) = [a]"
| "holds _ = []"

definition held :: "'w enc_system \<Rightarrow> nat list" where
  "held s = free (store s) @ concat (map (\<lambda>k. holds (at k)) (calls s))"

definition bufs_ok :: "crypter \<Rightarrow> 'w enc_system \<Rightarrow> bool" where
  "bufs_ok c s \<longleftrightarrow> distinct (held s) \<and> (\<forall>a \<in> set (held s). a < next_buf (store s))
     \<and> (\<forall>a < next_buf (store s). length (bufs (store s) a) = nonceSize c)"

definition drew :: "'w store \<Rightarrow> enc_call \<Rightarrow> string \<Rightarrow> bool" where
  "drew m k bytes \<longleftrightarrow> \<not> IsEncrypted (plaintext k)
     \<and> (\<exists>d. draw k = Some d \<and> d < length (drawn m) \<and> drawn m ! d = bytes)"

definition call_ok :: "crypter \<Rightarrow> 'w store \<Rightarrow> enc_call \<Rightarrow> bool" where
  "call_ok c m k \<longleftrightarrow>
     (case at k of
        Begin \<Rightarrow> True
      | Fetch \<Rightarrow> \<not> IsEncrypted (plaintext k)
      | Draw a \<Rightarrow> \<not> IsEncrypted (plaintext k)
      | Fill a i bytes err \<Rightarrow> drew m k bytes \<and> i \<le> length bytes \<and> length bytes \<le> nonceSize c
          \<and> take i (bufs m a) = take i bytes \<and> (err = None \<longrightarrow> length bytes = nonceSize c)
      | Copy a i nonce \<Rightarrow> drew m k (bufs m a) \<and> length nonce = nonceSize c \<and> i \<le> nonceSize c
          \<and> take i nonce = take i (bufs m a)
      | PutBack a nonce \<Rightarrow> drew m k nonce \<and> length nonce = nonceSize c
      | Return a e \<Rightarrow> \<not> IsEncrypted (plaintext k)
      | Sealing nonce \<Rightarrow> drew m k nonce \<and> length nonce = nonceSize c
      | Finished r \<Rightarrow>
          if IsEncrypted (plaintext k) then r = Ok (plaintext k)
          else (\<exists>e. r = Err (wrap2 ErrReadNonce e))
            \<or> (\<exists>nonce. drew m k nonce \<and> length nonce = nonceSize c \<and> r = Ok (sealed c nonce (plaintext k))))"

definition draws :: "enc_call list \<Rightarrow> nat list" where
  "draws ks = concat (map (\<lambda>k. case draw k of None \<Rightarrow> [] | Some d \<Rightarrow> [d]) ks)"

fun early :: "enc_pc \<Rightarrow> bool" where
  "early Begin = True" | "early Fetch = True" | "early (Draw a) = True" | "early _ = False"

definition draws_ok :: "'w enc_system \<Rightarrow> bool" where
  "draws_ok s \<longleftrightarrow> distinct (draws (calls s)) \<and> (\<forall>d \<in> set (draws (calls s)). d < length (drawn (store s)))
     \<and> (\<forall>k \<in> set (calls s). early (at k) \<longrightarrow> draw k = None)"

definition enc_inv :: "crypter \<Rightarrow> 'w enc_system \<Rightarrow> bool" where
  "enc_inv c s \<longleftrightarrow> bufs_ok c s \<and> draws_ok s \<and> (\<forall>k \<in> set (calls s). call_ok c (store s) k)"

text \<open>What a step does: its own call keeps its knowledge, and no buffer it does not hold changes.\<close>

lemma drew_grows: "drew m k bytes \<Longrightarrow> drawn m' = drawn m @ x \<Longrightarrow> drew m' k bytes"
  by (auto simp: drew_def nth_append)

lemma step_frame:
  assumes "enc_step choice c rd k m = Some (k', m')"
  shows "\<exists>x. drawn m' = drawn m @ x" and "plaintext k' = plaintext k" and "next_buf m \<le> next_buf m'"
    and "a \<notin> set (holds (at k)) \<Longrightarrow> a \<noteq> next_buf m \<Longrightarrow> bufs m' a = bufs m a"
  using assms
  by (cases "at k"; auto simp: enc_step.simps Let_def split: if_splits option.splits prod.splits)+

lemma call_ok_frame:
  assumes "call_ok c m k" "drawn m' = drawn m @ x" "\<And>a. a \<in> set (holds (at k)) \<Longrightarrow> bufs m' a = bufs m a"
  shows "call_ok c m' k"
proof (cases "at k")
  case (Finished r)
  note g = drew_grows [OF _ assms(2)]
  show ?thesis using assms(1) Finished by (auto simp: call_ok_def split: if_splits dest: g)
qed (use assms in \<open>auto simp: call_ok_def intro: drew_grows\<close>)

lemma call_ok_step:
  assumes "enc_step choice c rd k m = Some (k', m')" "call_ok c m k" "reader_ok rd"
    and "\<And>a. a \<in> set (holds (at k)) \<Longrightarrow> length (bufs m a) = nonceSize c"
  shows "call_ok c m' k'"
proof (cases "at k")
  case (Draw a)
  obtain err bytes w where r: "rd (nonceSize c) (source m) = ((err, bytes), w)" by (metis prod.exhaust)
  have "length bytes \<le> nonceSize c" "err = None \<longrightarrow> length bytes = nonceSize c"
    using reader_okD [OF assms(3)] r by blast+
  then show ?thesis
    using assms(1,2,4) Draw r by (auto simp: enc_step.simps call_ok_def drew_def)
next
  case (Fill a i bytes err)
  have l: "length (bufs m a) = nonceSize c" using assms(4) Fill by simp
  show ?thesis
  proof (cases "i < length bytes")
    case True
    then have "take (Suc i) ((bufs m a)[i := bytes ! i]) = take (Suc i) bytes"
      using assms(2) Fill l by (simp add: call_ok_def take_Suc_conv_app_nth)
    then show ?thesis
      using assms(1,2) Fill True by (auto simp: enc_step.simps call_ok_def drew_def)
  next
    case False
    then have "err = None \<Longrightarrow> bufs m a = bytes" using assms(2) Fill l by (auto simp: call_ok_def)
    then show ?thesis
      using assms(1,2) Fill False by (auto simp: enc_step.simps call_ok_def drew_def split: option.splits)
  qed
next
  case (Copy a i nonce)
  have l: "length (bufs m a) = nonceSize c" using assms(4) Copy by simp
  show ?thesis
  proof (cases "i < nonceSize c")
    case True
    then have "take (Suc i) (nonce[i := bufs m a ! i]) = take (Suc i) (bufs m a)"
      using assms(2) Copy l by (simp add: call_ok_def take_Suc_conv_app_nth)
    then show ?thesis
      using assms(1,2) Copy l True by (auto simp: enc_step.simps call_ok_def drew_def)
  next
    case False
    then have "nonce = bufs m a" using assms(2) Copy l by (auto simp: call_ok_def)
    then show ?thesis
      using assms(1,2) Copy l False by (auto simp: enc_step.simps call_ok_def drew_def)
  qed
next
  case (Sealing nonce)
  then show ?thesis
    using assms(1,2) by (auto simp: enc_step.simps call_ok_def sealed_def drew_def Let_def)
qed (use assms(1,2) in \<open>auto simp: enc_step.simps call_ok_def drew_def split: if_splits option.splits\<close>)

text \<open>Buffers are handed over, never shared: what a step holds it held before, took from the pool, or made.\<close>

lemma step_held:
  assumes "enc_step choice c rd k m = Some (k', m')"
  shows "mset (free m' @ holds (at k')) = mset (free m @ holds (at k))
    \<or> mset (free m' @ holds (at k')) = add_mset (next_buf m) (mset (free m @ holds (at k)))
      \<and> next_buf m' = Suc (next_buf m)"
proof (cases "at k")
  case Fetch
  show ?thesis
  proof (cases choice)
    case (Some i)
    with Fetch assms have i: "i < length (free m)" by (simp add: enc_step.simps split: if_splits)
    then have k': "free m' = take i (free m) @ drop (Suc i) (free m)" "holds (at k') = [free m ! i]"
      using assms Fetch Some by (auto simp: enc_step.simps)
    have "mset (free m) = mset (take i (free m)) + add_mset (free m ! i) (mset (drop (Suc i) (free m)))"
      by (subst id_take_nth_drop [OF i]) (simp only: mset_append mset.simps)
    then show ?thesis using Fetch by (simp add: k')
  qed (use assms Fetch in \<open>auto simp: enc_step.simps\<close>)
qed (use assms in \<open>auto simp: enc_step.simps Let_def split: if_splits option.splits prod.splits\<close>)

lemma step_bufs:
  assumes "enc_step choice c rd k m = Some (k', m')"
    and "\<forall>a < next_buf m. length (bufs m a) = nonceSize c"
  shows "\<forall>a < next_buf m'. length (bufs m' a) = nonceSize c"
  using assms
  by (cases "at k"; auto simp: enc_step.simps Let_def less_Suc_eq split: if_splits option.splits prod.splits)

lemma step_draw:
  assumes "enc_step choice c rd k m = Some (k', m')"
  shows "draw k' = draw k \<and> (\<forall>a. at k \<noteq> Draw a) \<or> draw k' = Some (length (drawn m)) \<and> length (drawn m') = Suc (length (drawn m)) \<and> (\<exists>a. at k = Draw a)"
  using assms
  by (cases "at k"; auto simp: enc_step.simps Let_def split: if_splits option.splits prod.splits)

subsection \<open>Every reachable state satisfies the invariant\<close>

lemma held_split:
  "calls s = us @ k # vs \<Longrightarrow>
   mset (held s) = mset (free (store s) @ holds (at k)) + mset (concat (map (\<lambda>k. holds (at k)) (us @ vs)))"
  by (simp add: held_def)

lemma fresh_distinct: "mset xs = add_mset y (mset ys) \<Longrightarrow> distinct xs \<longleftrightarrow> y \<notin> set ys \<and> distinct ys"
  by (metis distinct.simps(2) mset.simps(2) mset_eq_imp_distinct_iff)

lemma distinct_mset: "mset xs = mset ys \<Longrightarrow> distinct xs \<longleftrightarrow> distinct ys"
  by (rule mset_eq_imp_distinct_iff)

lemma move_bufs:
  assumes "bufs_ok c s" "calls s = us @ k # vs" "enc_step choice c rd k (store s) = Some (k', m)"
  shows "bufs_ok c (s\<lparr>store := m, calls := us @ k' # vs\<rparr>)"
proof -
  let ?s = "s\<lparr>store := m, calls := us @ k' # vs\<rparr>"
  let ?rest = "concat (map (\<lambda>k. holds (at k)) (us @ vs))"
  note i = assms(1) [unfolded bufs_ok_def]
  have m: "mset (held s) = mset (free (store s) @ holds (at k)) + mset ?rest"
    "mset (held ?s) = mset (free m @ holds (at k')) + mset ?rest"
    using held_split [OF assms(2)] held_split [of ?s us k' vs] by simp_all
  have "mset (held ?s) = mset (held s) \<or>
      mset (held ?s) = add_mset (next_buf (store s)) (mset (held s)) \<and> next_buf m = Suc (next_buf (store s))"
    using step_held [OF assms(3)] unfolding m by auto
  then have "distinct (held ?s) \<and> (\<forall>a \<in> set (held ?s). a < next_buf m)"
  proof
    assume e: "mset (held ?s) = mset (held s)"
    then have "set (held ?s) = set (held s)" by (rule mset_eq_setD)
    then show ?thesis using i distinct_mset [OF e] step_frame(3) [OF assms(3)] by auto
  next
    assume e: "mset (held ?s) = add_mset (next_buf (store s)) (mset (held s)) \<and> next_buf m = Suc (next_buf (store s))"
    then have "set (held ?s) = insert (next_buf (store s)) (set (held s))"
      by (metis set_mset_add_mset_insert set_mset_mset)
    then show ?thesis using i e fresh_distinct [of "held ?s" "next_buf (store s)" "held s"] by auto
  qed
  then show ?thesis using step_bufs [OF assms(3)] i by (simp add: bufs_ok_def)
qed

lemma move_draws:
  assumes "draws_ok s" "calls s = us @ k # vs" "enc_step choice c rd k (store s) = Some (k', m)"
  shows "draws_ok (s\<lparr>store := m, calls := us @ k' # vs\<rparr>)"
  using step_draw [OF assms(3)]
proof
  assume d: "draw k' = draw k \<and> (\<forall>a. at k \<noteq> Draw a)"
  moreover obtain x where "drawn m = drawn (store s) @ x" using step_frame(1) [OF assms(3)] by blast
  moreover have "early (at k') \<longrightarrow> early (at k)"
    using assms(3) by (cases "at k"; auto simp: enc_step.simps Let_def split: if_splits option.splits prod.splits)
  moreover have "draws (us @ k' # vs) = draws (calls s)" using assms(2) d by (simp add: draws_def)
  ultimately show ?thesis using assms(1,2) by (auto simp: draws_ok_def)
next
  assume d: "draw k' = Some (length (drawn (store s))) \<and> length (drawn m) = Suc (length (drawn (store s))) \<and> (\<exists>a. at k = Draw a)"
  moreover have "\<exists>a i bytes err. at k' = Fill a i bytes err"
    using assms(3) d by (auto simp: enc_step.simps split: prod.splits)
  moreover have "draw k = None" using assms(1,2) d by (auto simp: draws_ok_def)
  ultimately have n: "draws (us @ k' # vs) = draws us @ length (drawn (store s)) # draws vs"
    and o: "draws (calls s) = draws us @ draws vs" and f: "\<exists>a i bytes err. at k' = Fill a i bytes err"
    using assms(2) by (simp_all add: draws_def)
  have "\<forall>x \<in> set (draws us @ draws vs). x < length (drawn (store s))" "distinct (draws us @ draws vs)"
    using assms(1) o by (simp_all add: draws_ok_def)
  then have "distinct (draws (us @ k' # vs))" "\<forall>x \<in> set (draws (us @ k' # vs)). x < length (drawn m)"
    unfolding n using d by (auto simp: less_Suc_eq)
  moreover have "\<forall>j \<in> set (us @ k' # vs). early (at j) \<longrightarrow> draw j = None"
    using assms(1,2) f by (auto simp: draws_ok_def)
  ultimately show ?thesis by (simp add: draws_ok_def)
qed

lemma other_call_ok:
  assumes "bufs_ok c s" "calls s = us @ k # vs" "enc_step choice c rd k (store s) = Some (k', m)"
    and "j \<in> set (us @ vs)" "call_ok c (store s) j"
  shows "call_ok c m j"
proof -
  obtain x where x: "drawn m = drawn (store s) @ x" using step_frame(1) [OF assms(3)] by blast
  have "bufs m a = bufs (store s) a" if "a \<in> set (holds (at j))" for a
  proof (rule step_frame(4) [OF assms(3)])
    have a: "a \<in> set (concat (map (\<lambda>k. holds (at k)) (us @ vs)))" using that assms(4) by auto
    have d: "distinct (held s)" "\<forall>a \<in> set (held s). a < next_buf (store s)"
      using assms(1) by (simp_all add: bufs_ok_def)
    show "a \<notin> set (holds (at k))" using d(1) a assms(2) by (auto simp: held_def)
    show "a \<noteq> next_buf (store s)" using d(2) a assms(2) by (auto simp: held_def)
  qed
  then show ?thesis using call_ok_frame [OF assms(5) x] by blast
qed

lemma move_calls:
  assumes "enc_inv c s" "reader_ok rd" "calls s = us @ k # vs" "enc_step choice c rd k (store s) = Some (k', m)"
  shows "\<forall>j \<in> set (us @ k' # vs). call_ok c m j"
proof -
  have b: "bufs_ok c s" and ok: "\<forall>j \<in> set (calls s). call_ok c (store s) j"
    using assms(1) by (simp_all add: enc_inv_def)
  have "length (bufs (store s) a) = nonceSize c" if "a \<in> set (holds (at k))" for a
    using b that assms(3) by (auto simp: bufs_ok_def held_def)
  then have "call_ok c m k'" using call_ok_step [OF assms(4) _ assms(2)] ok assms(3) by simp
  then show ?thesis using other_call_ok [OF b assms(3,4)] ok assms(3) by auto
qed

lemma enc_step_inv: "reader_ok rd \<Longrightarrow> enc_inv c s \<Longrightarrow> estep c rd s s' \<Longrightarrow> enc_inv c s'"
proof (erule estepE)
  fix d
  assume "enc_inv c s" "s' = s\<lparr>calls := calls s @ [\<lparr>plaintext = d, at = Begin, draw = None\<rparr>]\<rparr>"
  then show ?thesis
    by (simp add: enc_inv_def bufs_ok_def held_def draws_ok_def draws_def call_ok_def)
next
  fix us k vs choice k' m
  assume i: "reader_ok rd" "enc_inv c s" "s' = s\<lparr>store := m, calls := us @ k' # vs\<rparr>"
    and k: "calls s = us @ k # vs" "enc_step choice c rd k (store s) = Some (k', m)"
  have "bufs_ok c s" "draws_ok s" using i(2) by (simp_all add: enc_inv_def)
  then show ?thesis
    using move_bufs [OF _ k] move_draws [OF _ k] move_calls [OF i(2,1) k] i(3) by (simp add: enc_inv_def)
next
  fix us a vs
  assume i: "enc_inv c s" "s' = s\<lparr>store := (store s)\<lparr>free := us @ vs\<rparr>\<rparr>" "free (store s) = us @ a # vs"
  have "call_ok c (store s) k \<Longrightarrow> call_ok c ((store s)\<lparr>free := us @ vs\<rparr>) k" for k
    by (erule call_ok_frame [where x = "[]"]) simp_all
  then show ?thesis
    using i by (auto simp: enc_inv_def bufs_ok_def held_def draws_ok_def)
qed

lemma enc_start_inv: "enc_start s \<Longrightarrow> enc_inv c s"
  by (simp add: enc_start_def enc_inv_def bufs_ok_def held_def draws_ok_def draws_def)

interpretation enc: step_system enc_start "estep c rd" "\<lambda>s. reader_ok rd \<longrightarrow> enc_inv c s" for c rd
  by unfold_locales (simp add: enc_start_inv, use enc_step_inv in blast)

subsection \<open>Schedules\<close>

text \<open>The system run by a list of moves: which call, and what the pool does.\<close>

fun enc_sched :: "crypter \<Rightarrow> 'w reader \<Rightarrow> (nat \<times> nat option) list \<Rightarrow> 'w enc_system \<Rightarrow> 'w enc_system option" where
  "enc_sched c rd [] s = Some s"
| "enc_sched c rd ((g, choice) # moves) s =
     (if length (calls s) \<le> g then None
      else
        (case enc_step choice c rd (calls s ! g) (store s) of
           None \<Rightarrow> None
         | Some (k, m) \<Rightarrow>
             enc_sched c rd moves (s\<lparr>store := m, calls := take g (calls s) @ k # drop (Suc g) (calls s)\<rparr>)))"

lemma enc_sched_sound: "enc_sched c rd moves s = Some s' \<Longrightarrow> (estep c rd)\<^sup>*\<^sup>* s s'"
proof (induction moves arbitrary: s)
  case (Cons a moves)
  obtain g choice where a: "a = (g, choice)" by force
  with Cons.prems obtain k m where k: "g < length (calls s)"
    "enc_step choice c rd (calls s ! g) (store s) = Some (k, m)"
    "enc_sched c rd moves (s\<lparr>store := m, calls := take g (calls s) @ k # drop (Suc g) (calls s)\<rparr>) = Some s'"
    by (auto split: if_splits option.splits)
  have "estep c rd s (s\<lparr>store := m, calls := take g (calls s) @ k # drop (Suc g) (calls s)\<rparr>)"
    by (rule estep.move [OF id_take_nth_drop [OF k(1)] k(2)])
  then show ?case using Cons.IH [OF k(3)] by (rule converse_rtranclp_into_rtranclp)
qed simp

definition toy_system :: "nat enc_system" where
  "toy_system = \<lparr>store = \<lparr>bufs = (\<lambda>a. []), free = [], next_buf = 0, source = 65, drawn = []\<rparr>, calls = []\<rparr>"

definition toy_entered :: "nat enc_system" where
  "toy_entered = toy_system\<lparr>calls := [\<lparr>plaintext = ''ab'', at = Begin, draw = None\<rparr>, \<lparr>plaintext = ''cd'', at = Begin, draw = None\<rparr>]\<rparr>"

text \<open>Two calls in lock step, the second one drawing first; both take new buffers.\<close>

definition toy_moves :: "(nat \<times> nat option) list" where
  "toy_moves = [(1, None), (0, None), (1, None), (0, None), (1, None), (0, None), (1, None), (0, None), (1, None), (0, None),
     (1, None), (0, None), (1, None), (0, None), (1, None), (0, None), (1, None), (0, None)]"

definition toy_end :: "nat enc_system" where
  "toy_end = the (enc_sched toy_crypter toy_reader toy_moves toy_entered)"

lemma toy_texts:
  "\<not> IsEncrypted ''ab''" "\<not> IsEncrypted ''cd''"
  "b64_encode (CHR ''B'' # byte (xor_sum ''ab'') # ''ba'') = ''QsNiYQ''"
  "b64_encode (CHR ''A'' # byte (xor_sum ''cd'') # ''dc'') = ''QcdkYw''"
  by code_simp+

lemma toy_nonces: "byte 65 = CHR ''A''" "byte 66 = CHR ''B''"
  by code_simp+

lemma toy_sched:
  "\<exists>s. enc_sched toy_crypter toy_reader toy_moves toy_entered = Some s
    \<and> calls s = [\<lparr>plaintext = ''ab'', at = Finished (Ok ''ENCv1[QsNiYQ]''), draw = Some 1\<rparr>,
        \<lparr>plaintext = ''cd'', at = Finished (Ok ''ENCv1[QcdkYw]''), draw = Some 0\<rparr>]"
  by (simp add: toy_moves_def toy_entered_def toy_system_def enc_step.simps toy_texts toy_nonces toy_crypter_def
      toy_reader_def toy_aead_def Let_def StartTag_def EndTag_def del: b64_encode.simps)

lemma toy_end_calls:
  "enc_sched toy_crypter toy_reader toy_moves toy_entered = Some toy_end"
  "calls toy_end = [\<lparr>plaintext = ''ab'', at = Finished (Ok ''ENCv1[QsNiYQ]''), draw = Some 1\<rparr>,
        \<lparr>plaintext = ''cd'', at = Finished (Ok ''ENCv1[QcdkYw]''), draw = Some 0\<rparr>]"
  using toy_sched by (auto simp: toy_end_def)

lemma toy_end_run: "(estep toy_crypter toy_reader)\<^sup>*\<^sup>* toy_system toy_end"
proof -
  have "estep toy_crypter toy_reader toy_system (toy_system\<lparr>calls := [\<lparr>plaintext = ''ab'', at = Begin, draw = None\<rparr>]\<rparr>)"
    "estep toy_crypter toy_reader (toy_system\<lparr>calls := [\<lparr>plaintext = ''ab'', at = Begin, draw = None\<rparr>]\<rparr>) toy_entered"
    using estep.enter [of toy_crypter toy_reader toy_system "''ab''"]
      estep.enter [of toy_crypter toy_reader "toy_system\<lparr>calls := [\<lparr>plaintext = ''ab'', at = Begin, draw = None\<rparr>]\<rparr>" "''cd''"]
    by (simp_all add: toy_system_def toy_entered_def)
  moreover have "(estep toy_crypter toy_reader)\<^sup>*\<^sup>* toy_entered toy_end"
    by (rule enc_sched_sound [OF toy_end_calls(1)])
  ultimately show ?thesis by (blast intro: converse_rtranclp_into_rtranclp)
qed

subsection \<open>The property\<close>

text \<open>
  C11: Concurrent calls of \<open>Encrypt\<close> do not disturb each other. Whatever the interleaving and the pool do, a
  call that has returned gave a tagged text back unchanged, or failed with \<open>ErrReadNonce\<close>, or returned the
  sealing of its own text under a nonce that is exactly what one read of the random source delivered;
  that decrypts to the text, and no other call used the same read.
\<close>

theorem concurrent_Encrypt:
  assumes "crypter_ok c" and "reader_ok rd" and "enc_start s0" and "(estep c rd)\<^sup>*\<^sup>* s0 s"
    and "calls s = us @ k # vs" and "at k = Finished r"
  shows "if IsEncrypted (plaintext k) then r = Ok (plaintext k)
    else (\<exists>e. r = Err (wrap2 ErrReadNonce e))
      \<or> (\<exists>d < length (drawn (store s)). r = Ok (sealed c (drawn (store s) ! d) (plaintext k))
           \<and> Decrypt c (sealed c (drawn (store s) ! d) (plaintext k)) = Ok (plaintext k)
           \<and> draw k = Some d \<and> (\<forall>j \<in> set (us @ vs). draw j \<noteq> Some d))"
proof -
  have i: "enc_inv c s" using enc.reach_inv [OF assms(3,4)] assms(2) by simp
  then have ok: "call_ok c (store s) k" and d: "distinct (draws (calls s))"
    using assms(5) by (simp_all add: enc_inv_def draws_ok_def)
  have own: "draw j \<noteq> Some n" if n: "draw k = Some n" and j: "j \<in> set (us @ vs)" for j n
  proof
    assume "draw j = Some n"
    then have "n \<in> set (draws (us @ vs))" using j by (auto simp: draws_def intro!: bexI [of _ j])
    then show False using d n assms(5) by (auto simp: draws_def)
  qed
  have "Decrypt c (sealed c nonce t) = Ok t" if "length nonce = nonceSize c" for nonce t
    by (rule Decrypt_sealed [OF assms(1) that])
  then show ?thesis using ok own assms(6) unfolding call_ok_def drew_def by auto blast
qed

lemma concurrent_Encrypt_witness:
  "\<exists>d. calls toy_end ! 0 = \<lparr>plaintext = ''ab'', at = Finished (Ok ''ENCv1[QsNiYQ]''), draw = Some d\<rparr>
    \<and> ''ENCv1[QsNiYQ]'' = sealed toy_crypter (drawn (store toy_end) ! d) ''ab'' \<and> draw (calls toy_end ! 1) \<noteq> Some d"
proof -
  let ?k = "\<lparr>plaintext = ''ab'', at = Finished (Ok ''ENCv1[QsNiYQ]''), draw = Some 1\<rparr>"
  let ?j = "\<lparr>plaintext = ''cd'', at = Finished (Ok ''ENCv1[QcdkYw]''), draw = Some 0\<rparr>"
  have s: "enc_start toy_system" by (simp add: enc_start_def toy_system_def)
  have c: "calls toy_end = [] @ ?k # [?j]" by (simp add: toy_end_calls(2))
  have f: "at ?k = Finished (Ok ''ENCv1[QsNiYQ]'')" by simp
  from concurrent_Encrypt [OF toy_ok(1,2) s toy_end_run c f] show ?thesis
    by (simp add: toy_texts(1) toy_end_calls(2))
qed

end
