(* ===== verification/Migrater.thy ===== *)
theory Migrater
  imports Go_Strings Go_Errors "HOL-Library.Multiset"
begin

section \<open>Numbered SQL migrations\<close>

text \<open>
  Models \<open>migrater/migrater.go\<close> and \<open>options.go\<close>. The database driver (with the context
  passed to it), the file system, SHA-256 and the log functions are parameters acting on a
  world; every SQL string the code builds is built here. A panic of the driver is the outcome
  \<open>Panic\<close>, which \<open>Run\<close> recovers.
\<close>

subsection \<open>What the code calls\<close>

text \<open>
  The result of a query is what \<open>Next\<close>, \<open>Scan\<close> and \<open>Err\<close> of its rows give: for each row
  the scanned columns or the error of \<open>Scan\<close>, and the final error.
\<close>

record 'd db =
  db_Exec :: "string \<Rightarrow> 'd \<Rightarrow> (goerror, unit) gores \<times> 'd"
  db_Query :: "string \<Rightarrow> 'd \<Rightarrow> (goerror, (goerror, string \<times> string) gores list \<times> goerror option) gores \<times> 'd"
  db_Begin :: "'d \<Rightarrow> (goerror, unit) gores \<times> 'd"
  tx_Exec :: "string \<Rightarrow> string list \<Rightarrow> 'd \<Rightarrow> (goerror, unit) gores \<times> 'd"
  tx_Rollback :: "'d \<Rightarrow> 'd"
  tx_Commit :: "'d \<Rightarrow> (goerror, unit) gores \<times> 'd"

text \<open>A directory entry is its name and whether it is a directory.\<close>

record fsys =
  fs_ReadDir :: "string \<Rightarrow> (goerror, (string \<times> bool) list) gores"
  fs_ReadFile :: "string \<Rightarrow> (goerror, string) gores"

text \<open>The messages the package logs, by the values they carry.\<close>

datatype log_msg =
    LogDebug string
  | LogNoPrefix string
  | LogDrift string string string string
  | LogSkip string
  | LogApplying string string
  | LogContent string
  | LogApplied string
  | LogRecord string string string
  | LogPanic

type_synonym 'd logfunc = "(log_msg \<Rightarrow> 'd \<Rightarrow> 'd) option"

datatype migrate_error =
    EmptyTable | LongTable nat | BadTable string
  | EnsureFailed goerror | LoadFailed goerror
  | ReadDirFailed string goerror | Duplicate string string string
  | ReadFailed string goerror | ApplyFailed string goerror
  | Panicked

record 'd migrater =
  m_db :: "'d db"
  m_fsys :: fsys
  m_dir :: string
  m_table :: string
  m_info :: "'d logfunc"
  m_debug :: "'d logfunc"
  m_recoverLog :: "'d logfunc"
  m_postgres :: bool

definition tableNameMaxLen :: nat where
  "tableNameMaxLen = 64"

definition DefaultTableName :: string where
  "DefaultTableName = ''migrater_state''"

definition DefaultDir :: string where
  "DefaultDir = ''migrations''"

type_synonym 'd migrater_option = "'d migrater \<Rightarrow> 'd migrater"

definition WithFS :: "fsys \<Rightarrow> string \<Rightarrow> 'd migrater_option" where
  "WithFS f dir m = m\<lparr>m_fsys := f, m_dir := dir\<rparr>"

text \<open>\<open>os.DirFS\<close> is a parameter.\<close>

definition WithDir :: "(string \<Rightarrow> fsys) \<Rightarrow> string \<Rightarrow> 'd migrater_option" where
  "WithDir DirFS dir m = m\<lparr>m_fsys := DirFS dir, m_dir := ''.''\<rparr>"

definition WithInfoLog :: "'d logfunc \<Rightarrow> 'd migrater_option" where
  "WithInfoLog f m = m\<lparr>m_info := f\<rparr>"

definition WithDebugLog :: "'d logfunc \<Rightarrow> 'd migrater_option" where
  "WithDebugLog f m = m\<lparr>m_debug := f\<rparr>"

definition WithRecoverLog :: "'d logfunc \<Rightarrow> 'd migrater_option" where
  "WithRecoverLog f m = m\<lparr>m_recoverLog := f\<rparr>"

definition WithTableName :: "string \<Rightarrow> 'd migrater_option" where
  "WithTableName name m = m\<lparr>m_table := name\<rparr>"

definition WithPostgres :: "'d migrater_option" where
  "WithPostgres m = m\<lparr>m_postgres := True\<rparr>"

definition migrater_New ::
    "(string \<Rightarrow> fsys) \<Rightarrow> 'd logfunc \<Rightarrow> 'd logfunc \<Rightarrow> 'd logfunc \<Rightarrow> 'd db \<Rightarrow> 'd migrater_option list \<Rightarrow> 'd migrater" where
  "migrater_New DirFS DefaultInfoLog DefaultDebugLog DefaultRecoverLog d options =
     (let m = \<lparr>m_db = d, m_fsys = \<lparr>fs_ReadDir = (\<lambda>_. Panic), fs_ReadFile = (\<lambda>_. Panic)\<rparr>, m_dir = [],
               m_table = DefaultTableName, m_info = DefaultInfoLog, m_debug = DefaultDebugLog,
               m_recoverLog = DefaultRecoverLog, m_postgres = False\<rparr>;
          m = WithDir DirFS DefaultDir m
      in foldl (\<lambda>m opt. opt m) m options)"

subsection \<open>Helpers of the package\<close>

definition logf :: "'d logfunc \<Rightarrow> log_msg \<Rightarrow> 'd \<Rightarrow> 'd" where
  "logf fn msg d = (case fn of None \<Rightarrow> d | Some f \<Rightarrow> f msg d)"

definition is_upper :: "char \<Rightarrow> bool" where
  "is_upper c \<longleftrightarrow> (let n = (of_char c :: nat) in 65 \<le> n \<and> n \<le> 90)"

definition is_lower :: "char \<Rightarrow> bool" where
  "is_lower c \<longleftrightarrow> (let n = (of_char c :: nat) in 97 \<le> n \<and> n \<le> 122)"

text \<open>The regular expression \<open>^[A-Za-z_][A-Za-z0-9_]*$\<close>.\<close>

definition ident_start :: "char \<Rightarrow> bool" where
  "ident_start c \<longleftrightarrow> is_upper c \<or> is_lower c \<or> c = CHR ''_''"

definition tableNameRe :: "string \<Rightarrow> bool" where
  "tableNameRe s \<longleftrightarrow> s \<noteq> [] \<and> ident_start (hd s) \<and> list_all (\<lambda>c. ident_start c \<or> is_digit c) (tl s)"

definition migrationID :: "string \<Rightarrow> string" where
  "migrationID filename = takeWhile is_digit filename"

definition numericKey :: "string \<Rightarrow> int" where
  "numericKey mid = (if mid = [] then 0 else (case Atoi mid of None \<Rightarrow> MaxInt64 | Some n \<Rightarrow> n))"

definition placeholder :: "'d migrater \<Rightarrow> nat \<Rightarrow> string" where
  "placeholder m n = (if m_postgres m then ''$'' @ decimal n else ''?'')"

definition timestampType :: "'d migrater \<Rightarrow> string" where
  "timestampType m = (if m_postgres m then ''TIMESTAMPTZ'' else ''TIMESTAMP'')"

text \<open>\<open>bytes.ReplaceAll(b, "\r\n", "\n")\<close>.\<close>

fun unix_lines :: "string \<Rightarrow> string" where
  "unix_lines [] = []"
| "unix_lines [c] = [c]"
| "unix_lines (c # e # s) =
     (if c = CHR 0x0D \<and> e = CHR 0x0A then CHR 0x0A # unix_lines s else c # unix_lines (e # s))"

text \<open>\<open>path.Join\<close> of two elements, with the cleaning it ends with.\<close>

fun clean_segs :: "bool \<Rightarrow> string list \<Rightarrow> string list \<Rightarrow> string list" where
  "clean_segs rooted out [] = rev out"
| "clean_segs rooted out (s # ss) =
     (if s = [] \<or> s = ''.'' then clean_segs rooted out ss
      else if s = ''..'' then
        (if out \<noteq> [] \<and> hd out \<noteq> ''..'' then clean_segs rooted (tl out) ss
         else if rooted then clean_segs rooted out ss
         else clean_segs rooted (''..'' # out) ss)
      else clean_segs rooted (s # out) ss)"

definition path_Clean :: "string \<Rightarrow> string" where
  "path_Clean p =
     (let rooted = HasPrefix p ''/'';
          q = (if rooted then ''/'' else []) @ Join (clean_segs rooted [] (Split p (CHR ''/''))) ''/''
      in if q = [] then ''.'' else q)"

definition path_Join :: "string \<Rightarrow> string \<Rightarrow> string" where
  "path_Join a b =
     (let es = filter (\<lambda>e. e \<noteq> []) [a, b] in if es = [] then [] else path_Clean (Join es ''/''))"

subsection \<open>The files\<close>

text \<open>
  The loop over the entries: the map \<open>seen\<close> from IDs to names, and the collected names with
  their keys. \<open>sort.Slice\<close> with the comparison of the code sorts by key, then by name.
\<close>

fun collect_loop :: "(string \<times> bool) list \<Rightarrow> (string \<rightharpoonup> string) \<Rightarrow> (string \<times> int) list
    \<Rightarrow> (migrate_error, (string \<times> int) list) gores" where
  "collect_loop [] seen files = Ok files"
| "collect_loop ((name, isdir) # es) seen files =
     (if isdir \<or> \<not> HasSuffix name ''.sql'' then collect_loop es seen files
      else
        (let mid = migrationID name in
         if mid \<noteq> [] then
           (case seen mid of
              Some first \<Rightarrow> Err (Duplicate mid first name)
            | None \<Rightarrow> collect_loop es (seen(mid \<mapsto> name)) (files @ [(name, numericKey mid)]))
         else collect_loop es seen (files @ [(name, numericKey mid)])))"

definition sort_files :: "(string \<times> int) list \<Rightarrow> (string \<times> int) list" where
  "sort_files files = sort_key snd (sort_key fst files)"

definition collectFiles :: "'d migrater \<Rightarrow> (migrate_error, string list) gores" where
  "collectFiles m =
     (case fs_ReadDir (m_fsys m) (m_dir m) of
        Err e \<Rightarrow> Err (ReadDirFailed (m_dir m) e)
      | Panic \<Rightarrow> Panic
      | Ok entries \<Rightarrow>
          gobind (collect_loop entries Map.empty []) (\<lambda>files. Ok (map fst (sort_files files))))"

subsection \<open>The state table\<close>

definition create_query :: "'d migrater \<Rightarrow> string" where
  "create_query m = ''CREATE TABLE IF NOT EXISTS '' @ m_table m @ '' (id TEXT PRIMARY KEY, content_hash TEXT, applied_at ''
     @ timestampType m @ '' NOT NULL DEFAULT CURRENT_TIMESTAMP)''"

definition alter_query :: "'d migrater \<Rightarrow> string" where
  "alter_query m = ''ALTER TABLE '' @ m_table m @ '' ADD COLUMN content_hash TEXT''"

definition probe_query :: "'d migrater \<Rightarrow> string" where
  "probe_query m = ''SELECT content_hash FROM '' @ m_table m @ '' LIMIT 0''"

definition load_query :: "'d migrater \<Rightarrow> string" where
  "load_query m = ''SELECT id, COALESCE(content_hash, '' @ [CHR 0x27, CHR 0x27] @ '') FROM '' @ m_table m"

definition insert_query :: "'d migrater \<Rightarrow> string" where
  "insert_query m = ''INSERT INTO '' @ m_table m @ '' (id, content_hash) VALUES ('' @ placeholder m 1 @ '', ''
     @ placeholder m 2 @ '')''"

definition contentHashColumnExists :: "'d migrater \<Rightarrow> 'd \<Rightarrow> (goerror, bool) gores \<times> 'd" where
  "contentHashColumnExists m d =
     (case db_Query (m_db m) (probe_query m) d of
        (Err e, d) \<Rightarrow> (Ok False, d)
      | (Panic, d) \<Rightarrow> (Panic, d)
      | (Ok rows, d) \<Rightarrow> (Ok True, d))"

definition ensureContentHashColumn :: "'d migrater \<Rightarrow> 'd \<Rightarrow> (goerror, unit) gores \<times> 'd" where
  "ensureContentHashColumn m =
     go_bind (contentHashColumnExists m) (\<lambda>ex d.
       if ex then (Ok (), d)
       else
         (let d = logf (m_debug m) (LogDebug (alter_query m)) d in
          case db_Exec (m_db m) (alter_query m) d of
            (Err err, d) \<Rightarrow>
              go_bind (contentHashColumnExists m) (\<lambda>ex d. if ex then (Ok (), d) else (Err err, d)) d
          | (Panic, d) \<Rightarrow> (Panic, d)
          | (Ok _, d) \<Rightarrow> (Ok (), d)))"

definition ensureTable :: "'d migrater \<Rightarrow> 'd \<Rightarrow> (goerror, unit) gores \<times> 'd" where
  "ensureTable m d =
     go_bind (db_Exec (m_db m) (create_query m)) (\<lambda>_. ensureContentHashColumn m)
       (logf (m_debug m) (LogDebug (create_query m)) d)"

text \<open>The loop over the rows, and \<open>rows.Err()\<close> after it.\<close>

fun scan_rows :: "(goerror, string \<times> string) gores list \<Rightarrow> goerror option \<Rightarrow> (string \<rightharpoonup> string)
    \<Rightarrow> (goerror, string \<rightharpoonup> string) gores" where
  "scan_rows [] err applied = (case err of None \<Rightarrow> Ok applied | Some e \<Rightarrow> Err e)"
| "scan_rows (r # rs) err applied =
     gobind r (\<lambda>(mid, hash). scan_rows rs err (applied(mid \<mapsto> hash)))"

definition loadApplied :: "'d migrater \<Rightarrow> 'd \<Rightarrow> (goerror, string \<rightharpoonup> string) gores \<times> 'd" where
  "loadApplied m d =
     go_bind (db_Query (m_db m) (load_query m)) (\<lambda>(rows, err) d. (scan_rows rows err Map.empty, d))
       (logf (m_debug m) (LogDebug (load_query m)) d)"

subsection \<open>Applying\<close>

definition apply_migration :: "'d migrater \<Rightarrow> string \<Rightarrow> string \<Rightarrow> string \<Rightarrow> 'd \<Rightarrow> (goerror, unit) gores \<times> 'd" where
  "apply_migration m mid content contentHash =
     go_bind (db_Begin (m_db m)) (\<lambda>_ d.
       case tx_Exec (m_db m) content [] d of
         (Err err, d) \<Rightarrow> (Err err, tx_Rollback (m_db m) d)
       | (Panic, d) \<Rightarrow> (Panic, d)
       | (Ok _, d) \<Rightarrow>
           (let d = logf (m_debug m) (LogRecord (insert_query m) mid contentHash) d in
            case tx_Exec (m_db m) (insert_query m) [mid, contentHash] d of
              (Err err, d) \<Rightarrow> (Err err, tx_Rollback (m_db m) d)
            | (Panic, d) \<Rightarrow> (Panic, d)
            | (Ok _, d) \<Rightarrow> tx_Commit (m_db m) d))"

definition applyFile :: "'d migrater \<Rightarrow> (string \<Rightarrow> string) \<Rightarrow> (string \<rightharpoonup> string) \<Rightarrow> string \<Rightarrow> 'd
    \<Rightarrow> (migrate_error, unit) gores \<times> 'd" where
  "applyFile m sha256 applied name d =
     (let mid = migrationID name in
      if mid = [] then (Ok (), logf (m_debug m) (LogNoPrefix name) d)
      else
        (case fs_ReadFile (m_fsys m) (path_Join (m_dir m) name) of
           Err err \<Rightarrow> (Err (ReadFailed name err), d)
         | Panic \<Rightarrow> (Panic, d)
         | Ok contentb \<Rightarrow>
             (let content = unix_lines contentb; contentHash = sha256 content in
              case applied mid of
                Some storedHash \<Rightarrow>
                  if storedHash \<noteq> [] \<and> storedHash \<noteq> contentHash
                  then (Ok (), logf (m_info m) (LogDrift mid name storedHash contentHash) d)
                  else (Ok (), logf (m_debug m) (LogSkip mid) d)
              | None \<Rightarrow>
                  (let d = logf (m_info m) (LogApplying mid name) d;
                       d = logf (m_debug m) (LogContent content) d
                   in case apply_migration m mid content contentHash d of
                        (Err err, d) \<Rightarrow> (Err (ApplyFailed mid err), d)
                      | (Panic, d) \<Rightarrow> (Panic, d)
                      | (Ok _, d) \<Rightarrow> (Ok (), logf (m_info m) (LogApplied mid) d)))))"

fun applyFiles :: "'d migrater \<Rightarrow> (string \<Rightarrow> string) \<Rightarrow> (string \<rightharpoonup> string) \<Rightarrow> string list \<Rightarrow> 'd
    \<Rightarrow> (migrate_error, unit) gores \<times> 'd" where
  "applyFiles m sha256 applied [] d = (Ok (), d)"
| "applyFiles m sha256 applied (f # fs) d =
     go_bind (applyFile m sha256 applied f) (\<lambda>_. applyFiles m sha256 applied fs) d"

definition map_err :: "('e \<Rightarrow> 'f) \<Rightarrow> ('e, 'a) gores \<times> 'd \<Rightarrow> ('f, 'a) gores \<times> 'd" where
  "map_err f r = (case r of (Ok a, d) \<Rightarrow> (Ok a, d) | (Err e, d) \<Rightarrow> (Err (f e), d) | (Panic, d) \<Rightarrow> (Panic, d))"

text \<open>The body of \<open>Run\<close> below the checks, and \<open>Run\<close> with its recovering defer.\<close>

definition run_body :: "'d migrater \<Rightarrow> (string \<Rightarrow> string) \<Rightarrow> 'd \<Rightarrow> (migrate_error, unit) gores \<times> 'd" where
  "run_body m sha256 =
     go_bind (\<lambda>d. map_err EnsureFailed (ensureTable m d)) (\<lambda>_.
     go_bind (\<lambda>d. map_err LoadFailed (loadApplied m d)) (\<lambda>applied.
     go_bind (\<lambda>d. (collectFiles m, d)) (\<lambda>files. applyFiles m sha256 applied files)))"

definition Run :: "'d migrater \<Rightarrow> (string \<Rightarrow> string) \<Rightarrow> 'd \<Rightarrow> migrate_error option \<times> 'd" where
  "Run m sha256 d =
     (if m_table m = [] then (Some EmptyTable, d)
      else if tableNameMaxLen < length (m_table m) then (Some (LongTable (length (m_table m))), d)
      else if \<not> tableNameRe (m_table m) then (Some (BadTable (m_table m)), d)
      else
        (case run_body m sha256 d of
           (Ok _, d) \<Rightarrow> (None, d)
         | (Err e, d) \<Rightarrow> (Some e, d)
         | (Panic, d) \<Rightarrow> (Some Panicked, logf (m_recoverLog m) LogPanic d)))"

subsection \<open>What the code relies on of the driver\<close>

text \<open>
  The abstract state of a database: the recorded migrations with their hashes, and the
  migrations whose effects are there, in order. A view gives the committed state and that of
  the open transaction.
\<close>

type_synonym cview = "(string \<rightharpoonup> string) \<times> string list"
type_synonym 'd view = "'d \<Rightarrow> cview \<times> cview option"

text \<open>
  The documented behaviour of \<open>database/sql\<close> transactions: nothing is seen outside before
  the commit, a rollback or a failed commit leaves the committed state, executing a migration
  succeeds with its effect, and loading reads what is committed. Migrations are taken to leave
  transaction control and the state table alone, and so are the log functions.
\<close>

definition begin_ok :: "'d migrater \<Rightarrow> 'd view \<Rightarrow> bool" where
  "begin_ok m view \<longleftrightarrow> (\<forall>d r d' c. view d = (c, None) \<longrightarrow> db_Begin (m_db m) d = (r, d') \<longrightarrow>
     view d' = (c, if r = Ok () then Some c else None))"

definition exec_ok :: "'d migrater \<Rightarrow> 'd view \<Rightarrow> bool" where
  "exec_ok m view \<longleftrightarrow> (\<forall>d r d' c t q. view d = (c, Some t) \<longrightarrow> tx_Exec (m_db m) q [] d = (r, d') \<longrightarrow>
     fst (view d') = c \<and> (r = Ok () \<longrightarrow> snd (view d') = Some (fst t, snd t @ [q]))
     \<and> (r \<noteq> Panic \<longrightarrow> snd (view d') \<noteq> None))"

definition insert_ok :: "'d migrater \<Rightarrow> 'd view \<Rightarrow> bool" where
  "insert_ok m view \<longleftrightarrow> (\<forall>d r d' c t i h. view d = (c, Some t) \<longrightarrow>
     tx_Exec (m_db m) (insert_query m) [i, h] d = (r, d') \<longrightarrow>
     fst (view d') = c \<and> (r = Ok () \<longrightarrow> snd (view d') = Some ((fst t)(i \<mapsto> h), snd t))
     \<and> (r \<noteq> Panic \<longrightarrow> snd (view d') \<noteq> None))"

definition rollback_ok :: "'d migrater \<Rightarrow> 'd view \<Rightarrow> bool" where
  "rollback_ok m view \<longleftrightarrow> (\<forall>d c t. view d = (c, Some t) \<longrightarrow> view (tx_Rollback (m_db m) d) = (c, None))"

definition commit_ok :: "'d migrater \<Rightarrow> 'd view \<Rightarrow> bool" where
  "commit_ok m view \<longleftrightarrow> (\<forall>d r d' c t. view d = (c, Some t) \<longrightarrow> tx_Commit (m_db m) d = (r, d') \<longrightarrow>
     view d' = (if r = Ok () then t else c, None))"

definition ddl_ok :: "'d migrater \<Rightarrow> 'd view \<Rightarrow> bool" where
  "ddl_ok m view \<longleftrightarrow> (\<forall>d r d' q. q = create_query m \<or> q = alter_query m \<longrightarrow>
     db_Exec (m_db m) q d = (r, d') \<longrightarrow> view d' = view d)"

definition query_ok :: "'d migrater \<Rightarrow> 'd view \<Rightarrow> bool" where
  "query_ok m view \<longleftrightarrow> (\<forall>d r d' q. db_Query (m_db m) q d = (r, d') \<longrightarrow> view d' = view d)"

definition load_ok :: "'d migrater \<Rightarrow> 'd view \<Rightarrow> bool" where
  "load_ok m view \<longleftrightarrow> (\<forall>d d' c rows err a. view d = (c, None) \<longrightarrow>
     db_Query (m_db m) (load_query m) d = (Ok (rows, err), d') \<longrightarrow>
     scan_rows rows err Map.empty = Ok a \<longrightarrow> a = fst c)"

definition log_ok :: "'d migrater \<Rightarrow> 'd view \<Rightarrow> bool" where
  "log_ok m view \<longleftrightarrow> (\<forall>f msg d. f = m_info m \<or> f = m_debug m \<or> f = m_recoverLog m \<longrightarrow>
     view (logf f msg d) = view d)"

definition driver_ok :: "'d migrater \<Rightarrow> 'd view \<Rightarrow> bool" where
  "driver_ok m view \<longleftrightarrow> begin_ok m view \<and> exec_ok m view \<and> insert_ok m view \<and> rollback_ok m view
     \<and> commit_ok m view \<and> ddl_ok m view \<and> query_ok m view \<and> load_ok m view \<and> log_ok m view"

lemma view_log:
  "driver_ok m view \<Longrightarrow> view (logf (m_info m) msg d) = view d"
  "driver_ok m view \<Longrightarrow> view (logf (m_debug m) msg d) = view d"
  "driver_ok m view \<Longrightarrow> view (logf (m_recoverLog m) msg d) = view d"
  by (simp_all add: driver_ok_def log_ok_def)

lemma view_begin:
  "driver_ok m view \<Longrightarrow> view d = (c, None) \<Longrightarrow> db_Begin (m_db m) d = (r, d') \<Longrightarrow>
    view d' = (c, if r = Ok () then Some c else None)"
  unfolding driver_ok_def begin_ok_def by blast

lemma view_exec:
  "driver_ok m view \<Longrightarrow> view d = (c, Some t) \<Longrightarrow> tx_Exec (m_db m) q [] d = (r, d') \<Longrightarrow>
    fst (view d') = c \<and> (r = Ok () \<longrightarrow> snd (view d') = Some (fst t, snd t @ [q]))
    \<and> (r \<noteq> Panic \<longrightarrow> snd (view d') \<noteq> None)"
  unfolding driver_ok_def exec_ok_def by blast

lemma view_insert:
  "driver_ok m view \<Longrightarrow> view d = (c, Some t) \<Longrightarrow> tx_Exec (m_db m) (insert_query m) [i, h] d = (r, d') \<Longrightarrow>
    fst (view d') = c \<and> (r = Ok () \<longrightarrow> snd (view d') = Some ((fst t)(i \<mapsto> h), snd t))
    \<and> (r \<noteq> Panic \<longrightarrow> snd (view d') \<noteq> None)"
  unfolding driver_ok_def insert_ok_def by blast

lemma view_rollback:
  "driver_ok m view \<Longrightarrow> fst (view d) = c \<Longrightarrow> snd (view d) \<noteq> None \<Longrightarrow>
    view (tx_Rollback (m_db m) d) = (c, None)"
  by (cases "view d") (auto simp: driver_ok_def rollback_ok_def)

lemma view_commit:
  "driver_ok m view \<Longrightarrow> view d = (c, Some t) \<Longrightarrow> tx_Commit (m_db m) d = (r, d') \<Longrightarrow>
    view d' = (if r = Ok () then t else c, None)"
  unfolding driver_ok_def commit_ok_def by blast

lemma view_query:
  "driver_ok m view \<Longrightarrow> db_Query (m_db m) q d = (r, d') \<Longrightarrow> view d' = view d"
  unfolding driver_ok_def query_ok_def by blast

lemma view_ddl:
  "driver_ok m view \<Longrightarrow> q = create_query m \<or> q = alter_query m \<Longrightarrow> db_Exec (m_db m) q d = (r, d') \<Longrightarrow>
    view d' = view d"
  unfolding driver_ok_def ddl_ok_def by blast

lemma view_load:
  "driver_ok m view \<Longrightarrow> view d = (c, None) \<Longrightarrow> db_Query (m_db m) (load_query m) d = (Ok (rows, err), d') \<Longrightarrow>
    scan_rows rows err Map.empty = Ok a \<Longrightarrow> a = fst c"
  unfolding driver_ok_def load_ok_def by blast

subsection \<open>A migration is atomic\<close>

lemma apply_atomic:
  assumes ok: "driver_ok m view" and v: "view d = (c, None)"
    and run: "apply_migration m mid content h d = (r, d')"
  shows "(r = Ok () \<longrightarrow> view d' = (((fst c)(mid \<mapsto> h), snd c @ [content]), None))
    \<and> (r \<noteq> Ok () \<longrightarrow> fst (view d') = c \<and> (r \<noteq> Panic \<longrightarrow> snd (view d') = None))"
proof -
  obtain r0 d0 where b: "db_Begin (m_db m) d = (r0, d0)" by force
  note v0 = view_begin [OF ok v b]
  show ?thesis
  proof (cases "r0 = Ok ()")
    case False
    with run b v0 show ?thesis by (cases r0) (auto simp: apply_migration_def go_bind_def)
  next
    case True
    with v0 have v0: "view d0 = (c, Some c)" by simp
    obtain r1 d1 where e: "tx_Exec (m_db m) content [] d0 = (r1, d1)" by force
    note v1 = view_exec [OF ok v0 e]
    show ?thesis
    proof (cases r1)
      case (Ok u)
      let ?d = "logf (m_debug m) (LogRecord (insert_query m) mid h) d1"
      have v1: "view ?d = (c, Some (fst c, snd c @ [content]))"
        using v1 Ok view_log(2) [OF ok] by (simp add: prod_eq_iff)
      obtain r2 d2 where i: "tx_Exec (m_db m) (insert_query m) [mid, h] ?d = (r2, d2)" by force
      note v2 = view_insert [OF ok v1 i]
      show ?thesis
      proof (cases r2)
        case (Ok u')
        with v2 have v2: "view d2 = (c, Some ((fst c)(mid \<mapsto> h), snd c @ [content]))"
          by (simp add: prod_eq_iff)
        obtain r3 d3 where k: "tx_Commit (m_db m) d2 = (r3, d3)" by force
        from view_commit [OF ok v2 k] run b e i k True \<open>r1 = Ok u\<close> Ok show ?thesis
          by (auto simp: apply_migration_def go_bind_def Let_def)
      next
        case (Err x)
        with v2 view_rollback [OF ok, of d2 c] run b e i True \<open>r1 = Ok u\<close> show ?thesis
          by (auto simp: apply_migration_def go_bind_def Let_def)
      next
        case Panic
        with v2 run b e i True \<open>r1 = Ok u\<close> show ?thesis
          by (auto simp: apply_migration_def go_bind_def Let_def)
      qed
    next
      case (Err x)
      with v1 view_rollback [OF ok, of d1 c] run b e True show ?thesis
        by (auto simp: apply_migration_def go_bind_def)
    next
      case Panic
      with v1 run b e True show ?thesis by (auto simp: apply_migration_def go_bind_def)
    qed
  qed
qed

text \<open>What applying a file adds to the abstract state, and which files are to be applied.\<close>

definition file_content :: "'d migrater \<Rightarrow> string \<Rightarrow> string" where
  "file_content m f = (case fs_ReadFile (m_fsys m) (path_Join (m_dir m) f) of Ok b \<Rightarrow> unix_lines b | _ \<Rightarrow> [])"

definition record_file :: "'d migrater \<Rightarrow> (string \<Rightarrow> string) \<Rightarrow> cview \<Rightarrow> string \<Rightarrow> cview" where
  "record_file m sha c f = ((fst c)(migrationID f \<mapsto> sha (file_content m f)), snd c @ [file_content m f])"

definition pending :: "(string \<rightharpoonup> string) \<Rightarrow> string list \<Rightarrow> string list" where
  "pending applied files = filter (\<lambda>f. migrationID f \<noteq> [] \<and> applied (migrationID f) = None) files"

lemma applyFile_view:
  assumes ok: "driver_ok m view" and v: "view d = (c, None)" and run: "applyFile m sha applied f d = (r, d')"
  shows "if migrationID f \<noteq> [] \<and> applied (migrationID f) = None
    then (r = Ok () \<longrightarrow> view d' = (record_file m sha c f, None))
      \<and> (r \<noteq> Ok () \<longrightarrow> fst (view d') = c \<and> (r \<noteq> Panic \<longrightarrow> snd (view d') = None))
    else view d' = (c, None)"
proof (cases "migrationID f = []")
  case True
  with run v view_log [OF ok] show ?thesis by (auto simp: applyFile_def)
next
  case False
  show ?thesis
  proof (cases "fs_ReadFile (m_fsys m) (path_Join (m_dir m) f)")
    case (Ok b)
    show ?thesis
    proof (cases "applied (migrationID f)")
      case (Some h)
      with run v Ok False view_log [OF ok] show ?thesis
        by (auto simp: applyFile_def Let_def split: if_splits)
    next
      case None
      let ?d = "logf (m_debug m) (LogContent (unix_lines b)) (logf (m_info m) (LogApplying (migrationID f) f) d)"
      have v': "view ?d = (c, None)" using v view_log [OF ok] by simp
      obtain r1 d1 where a: "apply_migration m (migrationID f) (unix_lines b) (sha (unix_lines b)) ?d = (r1, d1)"
        by force
      from apply_atomic [OF ok v' a] run Ok None False a view_log [OF ok] show ?thesis
        by (cases r1) (auto simp: applyFile_def Let_def record_file_def file_content_def)
    qed
  qed (use run v False in \<open>auto simp: applyFile_def\<close>)
qed

lemma applyFiles_view:
  assumes ok: "driver_ok m view"
  shows "view d = (c, None) \<Longrightarrow> applyFiles m sha applied files d = (r, d') \<Longrightarrow>
    \<exists>done rest. pending applied files = done @ rest \<and> fst (view d') = foldl (record_file m sha) c done
      \<and> (r = Ok () \<longrightarrow> rest = []) \<and> (r \<noteq> Panic \<longrightarrow> snd (view d') = None)"
proof (induction files arbitrary: c d)
  case Nil
  then show ?case by (auto simp: pending_def)
next
  case (Cons f fs)
  obtain r1 d1 where f: "applyFile m sha applied f d = (r1, d1)" by force
  note v1 = applyFile_view [OF ok Cons.prems(1) f]
  let ?todo = "migrationID f \<noteq> [] \<and> applied (migrationID f) = None"
  show ?case
  proof (cases "r1 = Ok ()")
    case True
    let ?c = "if ?todo then record_file m sha c f else c"
    have "view d1 = (?c, None)" using v1 True by (auto split: if_splits)
    moreover have "applyFiles m sha applied fs d1 = (r, d')"
      using Cons.prems(2) f True by (simp add: go_bind_def)
    ultimately obtain don rest where IH: "pending applied fs = don @ rest"
      "fst (view d') = foldl (record_file m sha) ?c don" "r = Ok () \<longrightarrow> rest = []"
      "r \<noteq> Panic \<longrightarrow> snd (view d') = None"
      using Cons.IH by blast
    then show ?thesis
      by (intro exI [of _ "if ?todo then f # don else don"] exI [of _ rest]) (auto simp: pending_def)
  next
    case False
    have "r = r1 \<and> d' = d1" using Cons.prems(2) f False by (cases r1) (auto simp: go_bind_def)
    then show ?thesis using v1 False
      by (intro exI [of _ "[]"] exI [of _ "pending applied (f # fs)"]) (auto split: if_splits)
  qed
qed

lemma column_view:
  "driver_ok m view \<Longrightarrow> contentHashColumnExists m d = (r, d') \<Longrightarrow> view d' = view d"
  by (auto simp: contentHashColumnExists_def dest: view_query split: prod.splits gores.splits)

lemma ensureColumn_view:
  assumes ok: "driver_ok m view" and run: "ensureContentHashColumn m d = (r, d')"
  shows "view d' = view d"
proof -
  obtain r1 d1 where c: "contentHashColumnExists m d = (r1, d1)" by force
  note v1 = column_view [OF ok c]
  let ?d = "logf (m_debug m) (LogDebug (alter_query m)) d1"
  obtain r2 d2 where a: "db_Exec (m_db m) (alter_query m) ?d = (r2, d2)" by force
  have v2: "view d2 = view d" using view_ddl [OF ok _ a] v1 view_log(2) [OF ok] by simp
  obtain r3 d3 where c3: "contentHashColumnExists m d2 = (r3, d3)" by force
  from run c a c3 v1 v2 column_view [OF ok c3] show ?thesis
    by (auto simp: ensureContentHashColumn_def go_bind_def Let_def split: gores.splits if_splits)
qed

lemma ensureTable_view:
  assumes ok: "driver_ok m view" and run: "ensureTable m d = (r, d')"
  shows "view d' = view d"
proof -
  let ?d = "logf (m_debug m) (LogDebug (create_query m)) d"
  obtain r1 d1 where e: "db_Exec (m_db m) (create_query m) ?d = (r1, d1)" by force
  have v1: "view d1 = view d" using view_ddl [OF ok _ e] view_log(2) [OF ok] by simp
  obtain r2 d2 where c: "ensureContentHashColumn m d1 = (r2, d2)" by force
  from run e c v1 ensureColumn_view [OF ok c] show ?thesis
    by (auto simp: ensureTable_def go_bind_def split: gores.splits)
qed

lemma loadApplied_view:
  assumes ok: "driver_ok m view" and v: "view d = (c, None)" and run: "loadApplied m d = (r, d')"
  shows "view d' = view d \<and> (\<forall>a. r = Ok a \<longrightarrow> a = fst c)"
proof -
  let ?d = "logf (m_debug m) (LogDebug (load_query m)) d"
  have vd: "view ?d = (c, None)" using v view_log(2) [OF ok] by simp
  obtain r1 d1 where q: "db_Query (m_db m) (load_query m) ?d = (r1, d1)" by force
  have v1: "view d1 = view d" using view_query [OF ok q] v vd by simp
  show ?thesis
  proof (cases r1)
    case (Ok p)
    obtain rows err where p: "p = (rows, err)" by force
    from run q Ok p v1 view_load [OF ok vd, of rows err d1] show ?thesis
      by (auto simp: loadApplied_def go_bind_def)
  qed (use run q v1 in \<open>auto simp: loadApplied_def go_bind_def\<close>)
qed

definition dir_files :: "'d migrater \<Rightarrow> string list" where
  "dir_files m = (case collectFiles m of Ok files \<Rightarrow> files | _ \<Rightarrow> [])"

lemma run_body_view:
  assumes ok: "driver_ok m view" and v: "view d = (c, None)" and run: "run_body m sha d = (r, d')"
  shows "\<exists>done rest. pending (fst c) (dir_files m) = done @ rest
    \<and> fst (view d') = foldl (record_file m sha) c done
    \<and> (r = Ok () \<longrightarrow> rest = []) \<and> (r \<noteq> Panic \<longrightarrow> snd (view d') = None)"
proof -
  have stop: ?thesis if "view d' = (c, None)" "r \<noteq> Ok ()"
    using that by (intro exI [of _ "[]"] exI [of _ "pending (fst c) (dir_files m)"]) simp
  obtain r1 d1 where e: "ensureTable m d = (r1, d1)" by force
  have v1: "view d1 = (c, None)" using ensureTable_view [OF ok e] v by simp
  obtain r2 d2 where l: "loadApplied m d1 = (r2, d2)" by force
  have v2: "view d2 = (c, None)" "\<And>a. r2 = Ok a \<Longrightarrow> a = fst c"
    using loadApplied_view [OF ok v1 l] v1 by simp_all
  show ?thesis
  proof (cases "r1 = Ok () \<and> (\<exists>a files. r2 = Ok a \<and> collectFiles m = Ok files)")
    case True
    then obtain a files where a: "r1 = Ok ()" "r2 = Ok a" "collectFiles m = Ok files" by blast
    then have "applyFiles m sha (fst c) files d2 = (r, d')"
      using run e l v2(2) by (simp add: run_body_def go_bind_def map_err_def)
    from applyFiles_view [OF ok v2(1) this] a(3) show ?thesis by (simp add: dir_files_def)
  next
    case False
    then have "view d' = (c, None) \<and> r \<noteq> Ok ()"
      using run e l v1 v2(1)
      by (cases r1; cases r2; cases "collectFiles m") (auto simp: run_body_def go_bind_def map_err_def)
    with stop show ?thesis by blast
  qed
qed

text \<open>What is recorded is not pending any more.\<close>

lemma record_file_keeps: "fst c i \<noteq> None \<Longrightarrow> fst (foldl (record_file m sha) c fs) i \<noteq> None"
  by (induction fs arbitrary: c) (auto simp: record_file_def)

lemma record_file_records:
  "f \<in> set fs \<Longrightarrow> fst (foldl (record_file m sha) c fs) (migrationID f) \<noteq> None"
proof (induction fs arbitrary: c)
  case (Cons g fs)
  show ?case
  proof (cases "f = g")
    case True
    have "fst (record_file m sha c g) (migrationID g) \<noteq> None" by (simp add: record_file_def)
    from record_file_keeps [OF this, of m sha fs] True show ?thesis by simp
  qed (use Cons in auto)
qed simp

lemma pending_recorded:
  "pending (fst c) files = don \<Longrightarrow> pending (fst (foldl (record_file m sha) c don)) files = []"
proof -
  assume p: "pending (fst c) files = don"
  have "fst (foldl (record_file m sha) c don) (migrationID f) \<noteq> None"
    if "f \<in> set files" "migrationID f \<noteq> []" for f
  proof (cases "fst c (migrationID f) = None")
    case True
    with that p have "f \<in> set don" by (auto simp: pending_def)
    then show ?thesis by (rule record_file_records)
  qed (rule record_file_keeps)
  then show ?thesis by (auto simp: pending_def filter_empty_conv)
qed

subsection \<open>The order of the files\<close>

lemma collect_loop_Ok:
  "collect_loop es seen acc = Ok files \<Longrightarrow>
     (\<exists>new. files = acc @ new
       \<and> map fst new = map fst (filter (\<lambda>(n, d). \<not> d \<and> HasSuffix n ''.sql'') es)
       \<and> (\<forall>(n, k) \<in> set new. k = numericKey (migrationID n))
       \<and> distinct (filter (\<lambda>i. i \<noteq> []) (map (\<lambda>a. migrationID (fst a)) new))
       \<and> (\<forall>(n, k) \<in> set new. migrationID n \<noteq> [] \<longrightarrow> seen (migrationID n) = None))"
proof (induction es seen acc rule: collect_loop.induct)
  case (2 name isdir es seen files0)
  show ?case
  proof (cases "isdir \<or> \<not> HasSuffix name ''.sql''")
    case True
    with 2 show ?thesis by auto
  next
    case False
    let ?id = "migrationID name"
    show ?thesis
    proof (cases "?id = []")
      case True
      with 2 False obtain new where "files = files0 @ (name, numericKey ?id) # new"
        "map fst new = map fst (filter (\<lambda>(n, d). \<not> d \<and> HasSuffix n ''.sql'') es)"
        "\<forall>(n, k) \<in> set new. k = numericKey (migrationID n)"
        "distinct (filter (\<lambda>i. i \<noteq> []) (map (\<lambda>a. migrationID (fst a)) new))"
        "\<forall>(n, k) \<in> set new. migrationID n \<noteq> [] \<longrightarrow> seen (migrationID n) = None"
        by (auto simp: Let_def)
      with False True show ?thesis by (intro exI [of _ "(name, numericKey ?id) # new"]) auto
    next
      case nonempty: False
      with 2 False have none: "seen ?id = None" by (auto simp: Let_def split: option.splits)
      have run: "collect_loop es (seen(?id \<mapsto> name)) (files0 @ [(name, numericKey ?id)]) = Ok files"
        using 2(4) False nonempty none by (simp add: Let_def)
      from 2(2) [OF False refl nonempty none run] obtain new where new: "files = files0 @ (name, numericKey ?id) # new"
        "map fst new = map fst (filter (\<lambda>(n, d). \<not> d \<and> HasSuffix n ''.sql'') es)"
        "\<forall>(n, k) \<in> set new. k = numericKey (migrationID n)"
        "distinct (filter (\<lambda>i. i \<noteq> []) (map (\<lambda>a. migrationID (fst a)) new))"
        "\<forall>(n, k) \<in> set new. migrationID n \<noteq> [] \<longrightarrow> (seen(?id \<mapsto> name)) (migrationID n) = None"
        by (auto simp del: fun_upd_apply)
      have "?id \<notin> set (map (\<lambda>a. migrationID (fst a)) new)" using new(5) nonempty by fastforce
      moreover have "\<forall>(n, k) \<in> set new. migrationID n \<noteq> [] \<longrightarrow> seen (migrationID n) = None"
        using new(5) by (fastforce split: if_splits)
      ultimately show ?thesis using new(1-4) False nonempty none
        by (intro exI [of _ "(name, numericKey ?id) # new"]) auto
    qed
  qed
qed auto

lemma sort_files_sorted:
  "sorted_wrt (\<lambda>a b. snd a < snd b \<or> snd a = snd b \<and> fst a \<le> fst b) (sort_files files)"
proof -
  let ?xs = "sort_key fst files"
  have "sorted (map fst [x\<leftarrow>?xs. snd x = k])" for k :: int
  proof -
    have "sorted (map fst ?xs)" by simp
    then show ?thesis by (rule sorted_filter)
  qed
  then have eq: "sorted (map fst [x\<leftarrow>sort_key snd ?xs. snd x = k])" for k
    by (simp add: sort_key_stable)
  have key: "sorted (map snd (sort_key snd ?xs))" by simp
  have "sorted_wrt (\<lambda>a b. snd a < snd b \<or> snd a = snd b \<and> fst a \<le> fst b) ys"
    if "sorted (map snd ys)" "\<And>k. sorted (map fst [x\<leftarrow>ys. snd x = k])" for ys :: "(string \<times> int) list"
    using that
  proof (induction ys)
    case (Cons y ys)
    have tail: "sorted (map fst [x\<leftarrow>ys. snd x = k])" for k
      using Cons.prems(2) [of k] by (auto split: if_splits)
    have "fst y \<le> fst z" if "z \<in> set ys" "snd z = snd y" for z
      using Cons.prems(2) [of "snd y"] that by (cases z) auto
    moreover have "snd y \<le> snd z" if "z \<in> set ys" for z
      using Cons.prems(1) that by auto
    moreover have "sorted_wrt (\<lambda>a b. snd a < snd b \<or> snd a = snd b \<and> fst a \<le> fst b) ys"
      using Cons.prems(1) tail by (intro Cons.IH) auto
    ultimately show ?case by force
  qed simp
  from this [OF key eq] show ?thesis by (simp add: sort_files_def)
qed

lemma mset_sort_files: "mset (sort_files files) = mset files"
  by (simp add: sort_files_def)

subsection \<open>A database in memory\<close>

text \<open>
  A driver that satisfies the laws: a committed state, an open transaction and what was
  logged. Executing the migration \<open>bad\<close> fails, executing \<open>boom\<close> panics.
\<close>

record mem =
  mem_rows :: "(string \<times> string) list"
  mem_effects :: "string list"
  mem_t :: "((string \<times> string) list \<times> string list) option"
  mem_log :: "log_msg list"

definition mem_tx_exec :: "string \<Rightarrow> string list \<Rightarrow> mem \<Rightarrow> (goerror, unit) gores \<times> mem" where
  "mem_tx_exec q args d =
     (case mem_t d of
        None \<Rightarrow> (Err (GoError (OtherError 3) []), d)
      | Some (rows, effects) \<Rightarrow>
          (case args of
             [i, h] \<Rightarrow> (Ok (), d\<lparr>mem_t := Some (rows @ [(i, h)], effects)\<rparr>)
           | _ \<Rightarrow>
               if q = ''bad'' then (Err (GoError (OtherError 4) []), d)
               else if q = ''boom'' then (Panic, d)
               else (Ok (), d\<lparr>mem_t := Some (rows, effects @ [q])\<rparr>)))"

definition mem_commit :: "mem \<Rightarrow> (goerror, unit) gores \<times> mem" where
  "mem_commit d =
     (case mem_t d of
        None \<Rightarrow> (Err (GoError (OtherError 3) []), d)
      | Some (rows, effects) \<Rightarrow> (Ok (), d\<lparr>mem_rows := rows, mem_effects := effects, mem_t := None\<rparr>))"

definition mem_map :: "(string \<times> string) list \<Rightarrow> (string \<rightharpoonup> string)" where
  "mem_map rows = foldl (\<lambda>m (i, h). m(i \<mapsto> h)) Map.empty rows"

definition mem_db :: "mem db" where
  "mem_db = \<lparr>db_Exec = (\<lambda>q d. (Ok (), d)), db_Query = (\<lambda>q d. (Ok (map Ok (mem_rows d), None), d)),
     db_Begin = (\<lambda>d. (Ok (), d\<lparr>mem_t := Some (mem_rows d, mem_effects d)\<rparr>)),
     tx_Exec = mem_tx_exec, tx_Rollback = (\<lambda>d. d\<lparr>mem_t := None\<rparr>), tx_Commit = mem_commit\<rparr>"

definition mem_view :: "mem view" where
  "mem_view d = ((mem_map (mem_rows d), mem_effects d),
     map_option (\<lambda>(rows, effects). (mem_map rows, effects)) (mem_t d))"

definition mem_logf :: "mem logfunc" where
  "mem_logf = Some (\<lambda>msg d. d\<lparr>mem_log := mem_log d @ [msg]\<rparr>)"

definition mem_fs :: "(string \<times> string) list \<Rightarrow> fsys" where
  "mem_fs files = \<lparr>fs_ReadDir = (\<lambda>dir. Ok (map (\<lambda>(n, b). (n, False)) files)),
     fs_ReadFile = (\<lambda>n. case map_of files n of None \<Rightarrow> Err (GoError (OtherError 5) []) | Some b \<Rightarrow> Ok b)\<rparr>"

definition mem_migrater :: "(string \<times> string) list \<Rightarrow> mem migrater" where
  "mem_migrater files = migrater_New (\<lambda>_. mem_fs files) mem_logf None mem_logf mem_db []"

definition mem_empty :: mem where
  "mem_empty = \<lparr>mem_rows = [], mem_effects = [], mem_t = None, mem_log = []\<rparr>"

lemma mem_migrater_simps [simp]:
  "m_db (mem_migrater files) = mem_db" "m_info (mem_migrater files) = mem_logf"
  "m_debug (mem_migrater files) = None" "m_recoverLog (mem_migrater files) = mem_logf"
  "m_dir (mem_migrater files) = ''.''" "m_fsys (mem_migrater files) = mem_fs files"
  "m_table (mem_migrater files) = ''migrater_state''" "m_postgres (mem_migrater files) = False"
  by (simp_all add: mem_migrater_def migrater_New_def WithDir_def DefaultTableName_def Let_def)

lemma scan_rows_Ok: "scan_rows (map Ok rows) None a = Ok (foldl (\<lambda>m (i, h). m(i \<mapsto> h)) a rows)"
  by (induction rows arbitrary: a) auto

lemma mem_ok: "driver_ok (mem_migrater files) mem_view"
proof -
  have "begin_ok (mem_migrater files) mem_view"
    by (auto simp: begin_ok_def mem_view_def mem_db_def)
  moreover have "exec_ok (mem_migrater files) mem_view"
    by (auto simp: exec_ok_def mem_view_def mem_db_def mem_tx_exec_def split: option.splits if_splits)
  moreover have "insert_ok (mem_migrater files) mem_view"
    by (auto simp: insert_ok_def mem_view_def mem_db_def mem_tx_exec_def mem_map_def split: option.splits if_splits)
  moreover have "rollback_ok (mem_migrater files) mem_view"
    by (auto simp: rollback_ok_def mem_view_def mem_db_def)
  moreover have "commit_ok (mem_migrater files) mem_view"
    by (auto simp: commit_ok_def mem_view_def mem_db_def mem_commit_def split: option.splits)
  moreover have "ddl_ok (mem_migrater files) mem_view" "query_ok (mem_migrater files) mem_view"
    by (simp_all add: ddl_ok_def query_ok_def mem_db_def)
  moreover have "load_ok (mem_migrater files) mem_view"
    by (auto simp: load_ok_def mem_view_def mem_db_def scan_rows_Ok mem_map_def)
  moreover have "log_ok (mem_migrater files) mem_view"
    by (auto simp: log_ok_def logf_def mem_logf_def mem_view_def)
  ultimately show ?thesis by (simp add: driver_ok_def)
qed

definition demo_files :: "(string \<times> string) list" where
  "demo_files = [(''10-c.sql'', ''C''), (''2.sql'', ''B''), (''001-a.sql'', ''A''), (''x.sql'', ''X''), (''README'', ''R'')]"

lemma demo_collect: "collectFiles (mem_migrater demo_files) = Ok [''x.sql'', ''001-a.sql'', ''2.sql'', ''10-c.sql'']"
  by code_simp

lemma demo_read:
  "fs_ReadFile (mem_fs demo_files) (path_Join ''.'' ''001-a.sql'') = Ok ''A''"
  "fs_ReadFile (mem_fs demo_files) (path_Join ''.'' ''2.sql'') = Ok ''B''"
  "fs_ReadFile (mem_fs demo_files) (path_Join ''.'' ''10-c.sql'') = Ok ''C''"
  by code_simp+

lemma demo_ids: "migrationID ''x.sql'' = []" "migrationID ''001-a.sql'' = ''001''"
  "migrationID ''2.sql'' = ''2''" "migrationID ''10-c.sql'' = ''10''"
  by code_simp+

definition demo_done :: mem where
  "demo_done = \<lparr>mem_rows = [(''001'', ''A''), (''2'', ''B''), (''10'', ''C'')],
     mem_effects = [''A'', ''B'', ''C''], mem_t = None,
     mem_log = [LogApplying ''001'' ''001-a.sql'', LogApplied ''001'', LogApplying ''2'' ''2.sql'', LogApplied ''2'',
       LogApplying ''10'' ''10-c.sql'', LogApplied ''10'']\<rparr>"

lemma demo_table: "tableNameRe ''migrater_state'' \<and> length ''migrater_state'' \<le> tableNameMaxLen"
  by code_simp

lemma demo_run: "Run (mem_migrater demo_files) (\<lambda>c. c) mem_empty = (None, demo_done)"
  by code_simp

subsection \<open>A driver that never fails\<close>

definition never_fails :: "'d migrater \<Rightarrow> bool" where
  "never_fails m \<longleftrightarrow>
     (\<forall>q d. fst (db_Exec (m_db m) q d) = Ok ()) \<and> (\<forall>d. fst (db_Begin (m_db m) d) = Ok ())
     \<and> (\<forall>q args d. fst (tx_Exec (m_db m) q args d) = Ok ()) \<and> (\<forall>d. fst (tx_Commit (m_db m) d) = Ok ())
     \<and> (\<forall>q d. \<exists>rows. fst (db_Query (m_db m) q d) = Ok (map Ok rows, None))"

lemma never_failsD:
  assumes "never_fails m"
  shows "\<exists>d'. db_Exec (m_db m) q d = (Ok (), d')" "\<exists>d'. db_Begin (m_db m) d = (Ok (), d')"
    "\<exists>d'. tx_Exec (m_db m) q args d = (Ok (), d')" "\<exists>d'. tx_Commit (m_db m) d = (Ok (), d')"
    "\<exists>rows d'. db_Query (m_db m) q d = (Ok (map Ok rows, None), d')"
  using assms unfolding never_fails_def by (metis prod.collapse)+

lemma ensureTable_succeeds: "never_fails m \<Longrightarrow> \<exists>d'. ensureTable m d = (Ok (), d')"
proof -
  assume n: "never_fails m"
  obtain d1 where e: "db_Exec (m_db m) (create_query m) (logf (m_debug m) (LogDebug (create_query m)) d) = (Ok (), d1)"
    using never_failsD(1) [OF n] by blast
  obtain rows d2 where "db_Query (m_db m) (probe_query m) d1 = (Ok (map Ok rows, None), d2)"
    using never_failsD(5) [OF n] by blast
  with e show ?thesis
    by (simp add: ensureTable_def ensureContentHashColumn_def contentHashColumnExists_def go_bind_def)
qed

lemma loadApplied_succeeds: "never_fails m \<Longrightarrow> \<exists>a d'. loadApplied m d = (Ok a, d')"
proof -
  assume n: "never_fails m"
  obtain rows d2 where "db_Query (m_db m) (load_query m) (logf (m_debug m) (LogDebug (load_query m)) d)
      = (Ok (map Ok rows, None), d2)"
    using never_failsD(5) [OF n] by blast
  then show ?thesis by (simp add: loadApplied_def go_bind_def scan_rows_Ok)
qed

lemma apply_succeeds: "never_fails m \<Longrightarrow> \<exists>d'. apply_migration m i content h d = (Ok (), d')"
proof -
  assume n: "never_fails m"
  obtain d1 where b: "db_Begin (m_db m) d = (Ok (), d1)" using never_failsD(2) [OF n] by blast
  obtain d2 where e: "tx_Exec (m_db m) content [] d1 = (Ok (), d2)" using never_failsD(3) [OF n] by blast
  obtain d3 where k: "tx_Exec (m_db m) (insert_query m) [i, h]
      (logf (m_debug m) (LogRecord (insert_query m) i h) d2) = (Ok (), d3)"
    using never_failsD(3) [OF n] by blast
  obtain d4 where "tx_Commit (m_db m) d3 = (Ok (), d4)" using never_failsD(4) [OF n] by blast
  with b e k show ?thesis by (simp add: apply_migration_def go_bind_def Let_def)
qed

lemma applyFile_succeeds:
  assumes "never_fails m"
    and "migrationID f \<noteq> [] \<longrightarrow> (\<exists>b. fs_ReadFile (m_fsys m) (path_Join (m_dir m) f) = Ok b)"
  shows "\<exists>d'. applyFile m sha a f d = (Ok (), d')"
proof (cases "migrationID f = []")
  case False
  then obtain b where b: "fs_ReadFile (m_fsys m) (path_Join (m_dir m) f) = Ok b" using assms(2) by blast
  let ?d = "logf (m_debug m) (LogContent (unix_lines b)) (logf (m_info m) (LogApplying (migrationID f) f) d)"
  obtain d1 where "apply_migration m (migrationID f) (unix_lines b) (sha (unix_lines b)) ?d = (Ok (), d1)"
    using apply_succeeds [OF assms(1)] by blast
  with b False show ?thesis by (simp add: applyFile_def Let_def split: option.splits)
qed (simp add: applyFile_def)

lemma applyFiles_succeeds:
  assumes "never_fails m"
    and "\<forall>f \<in> set files. migrationID f \<noteq> [] \<longrightarrow> (\<exists>b. fs_ReadFile (m_fsys m) (path_Join (m_dir m) f) = Ok b)"
  shows "\<exists>d'. applyFiles m sha a files d = (Ok (), d')"
  using assms(2)
proof (induction files arbitrary: d)
  case (Cons f fs)
  obtain d1 where "applyFile m sha a f d = (Ok (), d1)"
    using applyFile_succeeds [OF assms(1), of f sha a d] Cons.prems by auto
  moreover obtain d2 where "applyFiles m sha a fs d1 = (Ok (), d2)" using Cons by auto
  ultimately show ?case by (simp add: go_bind_def)
qed simp

text \<open>A driver that accepts everything and keeps only what it was asked to execute.\<close>

definition good_db :: "string list db" where
  "good_db = \<lparr>db_Exec = (\<lambda>q d. (Ok (), d @ [q])), db_Query = (\<lambda>q d. (Ok (map Ok [], None), d)),
     db_Begin = (\<lambda>d. (Ok (), d)), tx_Exec = (\<lambda>q args d. (Ok (), d @ [q])), tx_Rollback = (\<lambda>d. d),
     tx_Commit = (\<lambda>d. (Ok (), d))\<rparr>"

definition good_migrater :: "string list migrater" where
  "good_migrater = migrater_New (\<lambda>_. mem_fs demo_files) None None None good_db [WithPostgres]"

lemma Run_applies_prefix_all:
  assumes "driver_ok m view" and "view d = (c, None)" and "Run m sha d = (res, d')"
  shows "\<exists>done rest. pending (fst c) (dir_files m) = done @ rest
    \<and> fst (view d') = foldl (record_file m sha) c done
    \<and> (res = None \<longrightarrow> rest = []) \<and> (res \<noteq> Some Panicked \<longrightarrow> snd (view d') = None)"
proof -
  have stop: ?thesis if "view d' = (c, None)" "res \<noteq> None"
    using that by (intro exI [of _ "[]"] exI [of _ "pending (fst c) (dir_files m)"]) auto
  show ?thesis
  proof (cases "m_table m = [] \<or> tableNameMaxLen < length (m_table m) \<or> \<not> tableNameRe (m_table m)")
    case True
    then have "d' = d \<and> res \<noteq> None" using assms(3) by (auto simp: Run_def split: if_splits)
    with assms(2) show ?thesis by (intro stop) auto
  next
    case False
    obtain r d1 where b: "run_body m sha d = (r, d1)" by force
    from run_body_view [OF assms(1,2) b] obtain don rest where
      p: "pending (fst c) (dir_files m) = don @ rest" "fst (view d1) = foldl (record_file m sha) c don"
        "r = Ok () \<longrightarrow> rest = []" "r \<noteq> Panic \<longrightarrow> snd (view d1) = None" by blast
    have "view d' = view d1" "res = None \<longrightarrow> r = Ok ()" "res \<noteq> Some Panicked \<longrightarrow> r \<noteq> Panic"
      using assms(3) b False view_log(3) [OF assms(1)] by (auto simp: Run_def split: gores.splits)
    with p show ?thesis by auto
  qed
qed

lemma numericKey_decimal: "numericKey (decimal n) = min (int n) MaxInt64"
  by (auto simp: numericKey_def Atoi_decimal_any int64_def MinInt64_def)

definition sql_special :: string where
  "sql_special = '' ;()*,.-/='' @ [CHR 0x22, CHR 0x27, CHR 0x60, CHR 0x0A, CHR 0x00]"

lemma ident_chars:
  assumes "tableNameRe s"
  shows "set s \<inter> set sql_special = {}"
proof -
  have "ident_start ch \<or> is_digit ch" if "ch \<in> set s" for ch
    using assms that by (cases s) (auto simp: tableNameRe_def list_all_iff)
  moreover have "list_all (\<lambda>c. \<not> ident_start c \<and> \<not> is_digit c) sql_special" by code_simp
  ultimately show ?thesis by (auto simp: list_all_iff)
qed

subsection \<open>Properties\<close>

text \<open>
  C7: what a run does to the database. Of the migration files that are not recorded, in their
  order, a run applies and records a prefix, each with its content and hash and in a transaction
  of its own; it returns nil only when the prefix is everything, and unless the driver panicked
  no transaction is left open. In particular a failing migration leaves no trace, and what came
  before it stays.
\<close>

theorem Run_applies_prefix:
  assumes "driver_ok m view" and "view d = (c, None)" and "Run m sha d = (res, d')"
  shows "\<exists>done rest. pending (fst c) (dir_files m) = done @ rest
    \<and> fst (view d') = foldl (record_file m sha) c done
    \<and> (res = None \<longrightarrow> rest = []) \<and> (res \<noteq> Some Panicked \<longrightarrow> snd (view d') = None)"
  using assms by (rule Run_applies_prefix_all)

theorem Run_applies_prefix_witness:
  "driver_ok (mem_migrater demo_files) mem_view
    \<and> pending Map.empty (dir_files (mem_migrater demo_files)) = [''001-a.sql'', ''2.sql'', ''10-c.sql'']
    \<and> fst (mem_view demo_done) = foldl (record_file (mem_migrater demo_files) (\<lambda>c. c)) (Map.empty, [])
        [''001-a.sql'', ''2.sql'', ''10-c.sql'']"
proof -
  have v: "mem_view mem_empty = ((Map.empty, []), None)"
    by (simp add: mem_view_def mem_empty_def mem_map_def)
  have p: "pending Map.empty (dir_files (mem_migrater demo_files)) = [''001-a.sql'', ''2.sql'', ''10-c.sql'']"
    by (simp add: pending_def dir_files_def demo_collect demo_ids)
  from Run_applies_prefix [OF mem_ok v demo_run] p mem_ok show ?thesis by auto
qed

text \<open>
  C8: running again is safe. After a run that returned nil, another run with the same files
  applies nothing, whatever it returns: the recorded migrations and their effects stay as they
  are.
\<close>

theorem Run_idempotent:
  assumes "driver_ok m view" and "view d = (c, None)" and "Run m sha d = (None, d')"
    and "Run m sha d' = (res, d'')"
  shows "fst (view d'') = fst (view d')"
proof -
  obtain rest don where p: "pending (fst c) (dir_files m) = don @ rest"
    "fst (view d') = foldl (record_file m sha) c don" "rest = []" "snd (view d') = None"
    using Run_applies_prefix_all [OF assms(1-3)] by auto
  have "view d' = (fst (view d'), None)" using p(4) by (simp add: prod_eq_iff)
  from Run_applies_prefix_all [OF assms(1) this assms(4)] obtain don' rest' where
    q: "pending (fst (fst (view d'))) (dir_files m) = don' @ rest'"
      "fst (view d'') = foldl (record_file m sha) (fst (view d')) don'" by blast
  have "pending (fst (foldl (record_file m sha) c don)) (dir_files m) = []"
    using p(1,3) by (intro pending_recorded) simp
  with p(2) q show ?thesis by simp
qed

theorem Run_idempotent_witness:
  "Run (mem_migrater demo_files) (\<lambda>c. c) mem_empty = (None, demo_done)
    \<and> fst (mem_view (snd (Run (mem_migrater demo_files) (\<lambda>c. c) demo_done))) = fst (mem_view demo_done)"
proof -
  have v: "mem_view mem_empty = ((Map.empty, []), None)"
    by (simp add: mem_view_def mem_empty_def mem_map_def)
  from Run_idempotent [OF mem_ok v demo_run prod.collapse [symmetric]] demo_run show ?thesis by blast
qed

text \<open>
  C10: the order of the migrations. When the directory is accepted, the files are exactly its
  entries with the extension that are no directories, sorted by the number of their prefix and
  then by name, and no two share a non-empty prefix; as a decimal number a prefix sorts by its
  value up to the largest \<open>int\<close>, so 2 comes before 10.
\<close>

theorem collectFiles_ordered:
  assumes "fs_ReadDir (m_fsys m) (m_dir m) = Ok entries" and "collectFiles m = Ok names"
  shows "mset names = mset (map fst (filter (\<lambda>(n, d). \<not> d \<and> HasSuffix n ''.sql'') entries))
    \<and> sorted_wrt (\<lambda>a b. numericKey (migrationID a) < numericKey (migrationID b)
        \<or> numericKey (migrationID a) = numericKey (migrationID b) \<and> a \<le> b) names
    \<and> distinct (filter (\<lambda>i. i \<noteq> []) (map migrationID names))
    \<and> numericKey (decimal n) = min (int n) MaxInt64"
proof -
  obtain files where f: "collect_loop entries Map.empty [] = Ok files" "names = map fst (sort_files files)"
    using assms by (auto simp: collectFiles_def split: gores.splits)
  from collect_loop_Ok [OF f(1)] have c:
    "map fst files = map fst (filter (\<lambda>(n, d). \<not> d \<and> HasSuffix n ''.sql'') entries)"
    "\<forall>(n, k) \<in> set files. k = numericKey (migrationID n)"
    "distinct (filter (\<lambda>i. i \<noteq> []) (map (\<lambda>a. migrationID (fst a)) files))" by auto
  have m: "mset names = mset (map fst files)" by (simp add: f(2) mset_sort_files)
  have "set (sort_files files) = set files" by (simp add: sort_files_def)
  with c(2) have "sorted_wrt (\<lambda>a b. numericKey (migrationID a) < numericKey (migrationID b)
        \<or> numericKey (migrationID a) = numericKey (migrationID b) \<and> a \<le> b) names"
    unfolding f(2) sorted_wrt_map
    by (intro sorted_wrt_mono_rel [OF _ sort_files_sorted]) (auto split: prod.splits)
  moreover have "mset (filter (\<lambda>i. i \<noteq> []) (map migrationID names))
      = mset (filter (\<lambda>i. i \<noteq> []) (map (\<lambda>a. migrationID (fst a)) files))"
    using m by (simp add: mset_filter f(2) mset_sort_files multiset.map_comp comp_def)
  then have "distinct (filter (\<lambda>i. i \<noteq> []) (map migrationID names))"
    using c(3) by (metis mset_eq_imp_distinct_iff)
  ultimately show ?thesis using m c(1) by (simp add: numericKey_decimal)
qed

theorem collectFiles_ordered_witness:
  "collectFiles (mem_migrater demo_files) = Ok [''x.sql'', ''001-a.sql'', ''2.sql'', ''10-c.sql'']
    \<and> distinct (filter (\<lambda>i. i \<noteq> []) (map migrationID [''x.sql'', ''001-a.sql'', ''2.sql'', ''10-c.sql'']))"
proof -
  have "fs_ReadDir (m_fsys (mem_migrater demo_files)) (m_dir (mem_migrater demo_files))
      = Ok (map (\<lambda>(n, b). (n, False)) demo_files)" by (simp add: mem_fs_def)
  from collectFiles_ordered [OF this demo_collect] demo_collect show ?thesis by blast
qed

text \<open>
  The table name cannot carry SQL. A name that is empty, longer than 64 bytes or not an
  ASCII identifier makes \<open>Run\<close> fail before it touches the database or a log; a name
  that passes holds no blank, quote, semicolon, parenthesis or other character that could end the
  identifier.
\<close>

lemma Run_table_name:
  "(m_table m = [] \<or> 64 < length (m_table m) \<or> \<not> tableNameRe (m_table m) \<longrightarrow>
      snd (Run m sha d) = d \<and> fst (Run m sha d) \<in>
        {Some EmptyTable, Some (LongTable (length (m_table m))), Some (BadTable (m_table m))})
    \<and> (tableNameRe (m_table m) \<longrightarrow>
      set (m_table m) \<inter> set ('' ;()*,.-/='' @ [CHR 0x22, CHR 0x27, CHR 0x60, CHR 0x0A, CHR 0x00]) = {})"
  using ident_chars [of "m_table m"] by (auto simp: Run_def tableNameMaxLen_def sql_special_def)

lemma Run_table_name_example:
  "\<not> tableNameRe ''a; DROP'' \<and> tableNameRe ''migrater_state''
    \<and> snd (Run ((mem_migrater demo_files)\<lparr>m_table := ''a; DROP''\<rparr>) (\<lambda>c. c) mem_empty) = mem_empty"
proof -
  have "\<not> tableNameRe ''a; DROP''" by code_simp
  then show ?thesis
    using Run_table_name [of "(mem_migrater demo_files)\<lparr>m_table := ''a; DROP''\<rparr>" "\<lambda>c. c" mem_empty] demo_table
    by simp
qed

text \<open>
  C9: nothing fails on its own. With a valid table name, a directory without duplicate prefixes,
  readable files and a driver none of whose calls fails, \<open>Run\<close> returns nil, so it has applied
  every pending migration.
\<close>

theorem Run_succeeds:
  assumes "tableNameRe (m_table m)" and "length (m_table m) \<le> 64" and "never_fails m"
    and "collectFiles m = Ok files"
    and "\<forall>f \<in> set files. migrationID f \<noteq> [] \<longrightarrow> (\<exists>b. fs_ReadFile (m_fsys m) (path_Join (m_dir m) f) = Ok b)"
  shows "fst (Run m sha d) = None"
proof -
  obtain d1 where e: "ensureTable m d = (Ok (), d1)" using ensureTable_succeeds [OF assms(3)] by blast
  obtain a d2 where l: "loadApplied m d1 = (Ok a, d2)" using loadApplied_succeeds [OF assms(3)] by blast
  obtain d3 where f: "applyFiles m sha a files d2 = (Ok (), d3)"
    using applyFiles_succeeds [OF assms(3,5)] by blast
  have "run_body m sha d = (Ok (), d3)"
    using e l f assms(4) by (simp add: run_body_def go_bind_def map_err_def)
  then show ?thesis using assms(1,2) by (auto simp: Run_def tableNameMaxLen_def tableNameRe_def)
qed

theorem Run_succeeds_witness:
  "never_fails good_migrater \<and> fst (Run good_migrater (\<lambda>c. c) []) = None"
proof -
  have t: "tableNameRe (m_table good_migrater)" "length (m_table good_migrater) \<le> 64" by code_simp+
  have n: "never_fails good_migrater"
    by (simp add: never_fails_def good_migrater_def good_db_def migrater_New_def WithDir_def
        WithPostgres_def Let_def)
  have c: "collectFiles good_migrater = Ok [''x.sql'', ''001-a.sql'', ''2.sql'', ''10-c.sql'']"
    by code_simp
  have r: "\<forall>f \<in> set [''x.sql'', ''001-a.sql'', ''2.sql'', ''10-c.sql'']. migrationID f \<noteq> [] \<longrightarrow>
      (\<exists>b. fs_ReadFile (m_fsys good_migrater) (path_Join (m_dir good_migrater) f) = Ok b)"
  proof -
    have "m_fsys good_migrater = mem_fs demo_files" "m_dir good_migrater = ''.''"
      by (simp_all add: good_migrater_def migrater_New_def WithDir_def WithPostgres_def Let_def)
    then show ?thesis using demo_read demo_ids by simp
  qed
  from Run_succeeds [OF t n c r] n show ?thesis by blast
qed

text \<open>A recorded file never reaches the database; a changed one is only reported.\<close>

lemma applyFile_recorded:
  assumes "migrationID name \<noteq> []" and "applied (migrationID name) = Some h"
    and "fs_ReadFile (m_fsys m) (path_Join (m_dir m) name) = Ok b"
  shows "applyFile m sha applied name d =
    (Ok (), if h \<noteq> [] \<and> h \<noteq> sha (unix_lines b)
       then logf (m_info m) (LogDrift (migrationID name) name h (sha (unix_lines b))) d
       else logf (m_debug m) (LogSkip (migrationID name)) d)"
  using assms by (simp add: applyFile_def Let_def)

text \<open>
  Two things the documentation says otherwise. Files that differ only in their line endings
  have the same hash; and when the driver panics inside a migration, \<open>Run\<close> recovers and
  returns, but the transaction is neither committed nor rolled back.
\<close>

lemma line_endings_same_hash: "sha (unix_lines (''a'' @ [CHR 0x0D, CHR 0x0A] @ ''b'')) = sha (unix_lines (''a'' @ [CHR 0x0A] @ ''b''))"
  by simp

lemma panic_leaves_transaction:
  "fst (Run (mem_migrater [(''1.sql'', ''boom'')]) (\<lambda>c. c) mem_empty) = Some Panicked
    \<and> mem_t (snd (Run (mem_migrater [(''1.sql'', ''boom'')]) (\<lambda>c. c) mem_empty)) \<noteq> None"
  by code_simp

end
