(* ===== verification/Workpool.thy ===== *)
theory Workpool
  imports Go_Prelude "HOL-Library.Multiset" "HOL-Library.Word"
begin

section \<open>Package workpool\<close>

text \<open>
  Models \<open>workpool/workpool.go\<close>: the pool every goroutine shares, the calls of \<open>Do\<close> and \<open>Run\<close> and the
  workers as programs of atomic steps over it, and their interleavings as a step relation. A task is a
  name; running it ends, normally or by a panic that the worker recovers, and does not call the pool
  itself. What was accepted, dropped and executed is recorded beside the state.
\<close>

subsection \<open>The pool\<close>

record 't pool =
  queue :: "'t list"
  bufferSize :: nat
  w_closed :: bool
  chan_closed :: bool
  wg :: int
  running :: "32 word"
  accepted :: "'t list"
  dropped :: "'t list"
  executed :: "'t list"
  crashed :: bool

text \<open>Where a call of \<open>Do\<close> or \<open>Run\<close> stands, and where a worker stands.\<close>

datatype 't caller =
    DoCheck 't | DoCount 't | DoAdd 't | DoSend 't
  | RunCAS | RunWait | RunClose | RunReturned | Returned

datatype 't worker = Idle | Busy 't | Finish | Release | Exited

text \<open>
  \<open>New\<close>: the number of workers and the size of the queue; \<open>make\<close> panics on a negative size
  (one too large for the memory is left out). The default size is computed in 64 bits.
\<close>

definition pool_New :: "int \<Rightarrow> int list \<Rightarrow> ('e, 't pool \<times> 't worker list) gores" where
  "pool_New n optionalBufferSize =
     (let n = (if n < 1 then 1 else n);
          size = (case optionalBufferSize of [] \<Rightarrow> wrap64 (wrap64 (n * 100) + 1) | b # bs \<Rightarrow> b)
      in if size < 0 then Panic
         else Ok (\<lparr>queue = [], bufferSize = nat size, w_closed = False, chan_closed = False, wg = 0, running = 0,
                   accepted = [], dropped = [], executed = [], crashed = False\<rparr>,
                  replicate (nat n) Idle))"

text \<open>
  One atomic step of \<open>Do\<close>: the check, the two counters, the send. \<open>None\<close>: it is blocked. Sending on a
  closed channel panics.
\<close>

fun Do_step :: "'t caller \<Rightarrow> 't pool \<Rightarrow> ('t caller \<times> 't pool) option" where
  "Do_step (DoCheck t) p =
     Some (if w_closed p then (Returned, p\<lparr>dropped := dropped p @ [t]\<rparr>)
           else (DoCount t, p\<lparr>accepted := accepted p @ [t]\<rparr>))"
| "Do_step (DoCount t) p = Some (DoAdd t, p\<lparr>running := running p + 1\<rparr>)"
| "Do_step (DoAdd t) p = Some (DoSend t, p\<lparr>wg := wg p + 1\<rparr>)"
| "Do_step (DoSend t) p =
     (if chan_closed p then Some (Returned, p\<lparr>crashed := True\<rparr>)
      else if length (queue p) < bufferSize p then Some (Returned, p\<lparr>queue := queue p @ [t]\<rparr>)
      else None)"
| "Do_step _ p = None"

text \<open>One atomic step of \<open>Run\<close>: the compare-and-swap, the wait, the close, which panics the second time.\<close>

fun Run_step :: "'t caller \<Rightarrow> 't pool \<Rightarrow> ('t caller \<times> 't pool) option" where
  "Run_step RunCAS p = Some (if w_closed p then (Returned, p) else (RunWait, p\<lparr>w_closed := True\<rparr>))"
| "Run_step RunWait p = (if wg p = 0 then Some (RunClose, p) else None)"
| "Run_step RunClose p =
     Some (if chan_closed p then (Returned, p\<lparr>crashed := True\<rparr>) else (RunReturned, p\<lparr>chan_closed := True\<rparr>))"
| "Run_step _ p = None"

text \<open>
  One atomic step of a worker: receive or leave, run the task, count it off, release the wait group,
  which panics below zero.
\<close>

fun worker_step :: "'t worker \<Rightarrow> 't pool \<Rightarrow> ('t worker \<times> 't pool) option" where
  "worker_step Idle p =
     (case queue p of
        t # q \<Rightarrow> Some (Busy t, p\<lparr>queue := q\<rparr>)
      | [] \<Rightarrow> if chan_closed p then Some (Exited, p) else None)"
| "worker_step (Busy t) p = Some (Finish, p\<lparr>executed := executed p @ [t]\<rparr>)"
| "worker_step Finish p = Some (Release, p\<lparr>running := running p - 1\<rparr>)"
| "worker_step Release p =
     (if wg p - 1 < 0 then Some (Idle, p\<lparr>crashed := True\<rparr>) else Some (Idle, p\<lparr>wg := wg p - 1\<rparr>))"
| "worker_step Exited p = None"

definition IsRunning :: "'t pool \<Rightarrow> bool" where
  "IsRunning p \<longleftrightarrow> 0 < sint (running p)"

subsection \<open>Interleavings\<close>

record 't system =
  shared :: "'t pool"
  callers :: "'t caller list"
  workers :: "'t worker list"

text \<open>
  Any goroutine that is not blocked may take a step, and new calls may come at any time. A send and an
  idle worker may also meet directly while the queue is empty, which is all there is without a buffer.
\<close>

inductive wstep :: "'t system \<Rightarrow> 't system \<Rightarrow> bool" where
  call_Do: "\<not> crashed (shared s) \<Longrightarrow> wstep s (s\<lparr>callers := callers s @ [DoCheck t]\<rparr>)"
| call_Run: "\<not> crashed (shared s) \<Longrightarrow> wstep s (s\<lparr>callers := callers s @ [RunCAS]\<rparr>)"
| caller: "\<not> crashed (shared s) \<Longrightarrow> callers s = us @ c # vs \<Longrightarrow>
    Do_step c (shared s) = Some (c', p) \<or> Run_step c (shared s) = Some (c', p) \<Longrightarrow>
    wstep s (s\<lparr>shared := p, callers := us @ c' # vs\<rparr>)"
| worker: "\<not> crashed (shared s) \<Longrightarrow> workers s = us @ w # vs \<Longrightarrow> worker_step w (shared s) = Some (w', p) \<Longrightarrow>
    wstep s (s\<lparr>shared := p, workers := us @ w' # vs\<rparr>)"
| handoff: "\<not> crashed (shared s) \<Longrightarrow> callers s = us @ DoSend t # vs \<Longrightarrow> workers s = us' @ Idle # vs' \<Longrightarrow>
    queue (shared s) = [] \<Longrightarrow> \<not> chan_closed (shared s) \<Longrightarrow>
    wstep s (s\<lparr>callers := us @ Returned # vs, workers := us' @ Busy t # vs'\<rparr>)"

text \<open>Sums over goroutines.\<close>

definition tally :: "('a \<Rightarrow> 'b :: comm_monoid_add) \<Rightarrow> 'a list \<Rightarrow> 'b" where
  "tally f xs = sum_list (map f xs)"

lemma tally_simps [simp]:
  "tally f [] = 0" "tally f (x # xs) = f x + tally f xs" "tally f (xs @ ys) = tally f xs + tally f ys"
  by (simp_all add: tally_def)

fun in_Do :: "'t caller \<Rightarrow> nat" where
  "in_Do (DoCount t) = 1" | "in_Do (DoAdd t) = 1" | "in_Do (DoSend t) = 1" | "in_Do _ = 0"

text \<open>
  The rule the package gives its users: no \<open>Do\<close> is past its check when \<open>Run\<close> closes the pool.
\<close>

definition disciplined :: "'t system \<Rightarrow> 't system \<Rightarrow> bool" where
  "disciplined s s' \<longleftrightarrow> (\<not> w_closed (shared s) \<and> w_closed (shared s') \<longrightarrow> tally in_Do (callers s) = 0)"

definition pstep :: "'t system \<Rightarrow> 't system \<Rightarrow> bool" where
  "pstep s s' \<longleftrightarrow> wstep s s' \<and> disciplined s s'"

definition pool_start :: "'t system \<Rightarrow> bool" where
  "pool_start s \<longleftrightarrow> (\<exists>n sizes ws. pool_New n sizes = (Ok (shared s, ws) :: (unit, 't pool \<times> 't worker list) gores)
     \<and> workers s = ws \<and> callers s = [])"

subsection \<open>The invariant\<close>

fun in_count :: "'t caller \<Rightarrow> nat" where
  "in_count (DoAdd t) = 1" | "in_count (DoSend t) = 1" | "in_count _ = 0"

fun in_add :: "'t caller \<Rightarrow> nat" where
  "in_add (DoSend t) = 1" | "in_add _ = 0"

fun in_Run :: "'t caller \<Rightarrow> nat" where
  "in_Run RunWait = 1" | "in_Run RunClose = 1" | "in_Run _ = 0"

fun in_close :: "'t caller \<Rightarrow> nat" where
  "in_close RunClose = 1" | "in_close _ = 0"

fun has_run :: "'t caller \<Rightarrow> nat" where
  "has_run RunReturned = 1" | "has_run _ = 0"

fun pending :: "'t caller \<Rightarrow> 't multiset" where
  "pending (DoCount t) = {#t#}" | "pending (DoAdd t) = {#t#}" | "pending (DoSend t) = {#t#}" | "pending _ = {#}"

fun holds :: "'t worker \<Rightarrow> nat" where
  "holds (Busy t) = 1" | "holds Finish = 1" | "holds Release = 1" | "holds _ = 0"

fun in_task :: "'t worker \<Rightarrow> nat" where
  "in_task (Busy t) = 1" | "in_task Finish = 1" | "in_task _ = 0"

fun busy_with :: "'t worker \<Rightarrow> 't multiset" where
  "busy_with (Busy t) = {#t#}" | "busy_with _ = {#}"

text \<open>What the two counters count, where the accepted tasks are, and what closing means.\<close>

definition wg_ok :: "'t system \<Rightarrow> bool" where
  "wg_ok s \<longleftrightarrow> wg (shared s) = int (tally in_add (callers s) + length (queue (shared s)) + tally holds (workers s))"

definition running_count :: "'t system \<Rightarrow> nat" where
  "running_count s = tally in_count (callers s) + length (queue (shared s)) + tally in_task (workers s)"

definition running_ok :: "'t system \<Rightarrow> bool" where
  "running_ok s \<longleftrightarrow> running (shared s) = of_nat (running_count s)"

definition tasks_ok :: "'t system \<Rightarrow> bool" where
  "tasks_ok s \<longleftrightarrow> mset (accepted (shared s))
     = tally pending (callers s) + mset (queue (shared s)) + tally busy_with (workers s) + mset (executed (shared s))"

definition closed_ok :: "'t system \<Rightarrow> bool" where
  "closed_ok s \<longleftrightarrow> (w_closed (shared s) \<longrightarrow> tally in_Do (callers s) = 0)
     \<and> (chan_closed (shared s) \<or> 0 < tally in_close (callers s) \<longrightarrow> wg (shared s) = 0)
     \<and> (chan_closed (shared s) \<longrightarrow> w_closed (shared s))
     \<and> tally in_Run (callers s) = (if w_closed (shared s) \<and> \<not> chan_closed (shared s) then 1 else 0)
     \<and> tally has_run (callers s) = (if chan_closed (shared s) then 1 else 0)"

definition workers_ok :: "'t system \<Rightarrow> bool" where
  "workers_ok s \<longleftrightarrow> workers s \<noteq> [] \<and> (\<not> chan_closed (shared s) \<longrightarrow> Exited \<notin> set (workers s))"

definition pool_inv :: "'t system \<Rightarrow> bool" where
  "pool_inv s \<longleftrightarrow> \<not> crashed (shared s) \<and> length (queue (shared s)) \<le> bufferSize (shared s) \<and> workers_ok s
     \<and> wg_ok s \<and> running_ok s \<and> tasks_ok s \<and> closed_ok s"

text \<open>A caller past the check that was counted by the wait group was counted before by \<open>running\<close>.\<close>

lemma in_add_le: "tally in_add xs \<le> tally in_count xs" and in_count_le: "tally in_count xs \<le> tally in_Do xs"
proof -
  have "in_add c \<le> in_count c" "in_count c \<le> in_Do c" for c :: "'a caller" by (cases c; simp)+
  then show "tally in_add xs \<le> tally in_count xs" "tally in_count xs \<le> tally in_Do xs"
    by (induction xs) (auto intro: add_mono)
qed

lemma in_close_le: "tally in_close xs \<le> tally in_Run xs"
proof -
  have "in_close c \<le> in_Run c" for c :: "'a caller" by (cases c; simp)
  then show ?thesis by (induction xs) (auto intro: add_mono)
qed

lemma pending_none: "tally in_Do xs = 0 \<Longrightarrow> tally pending xs = {#}"
proof (induction xs)
  case (Cons c xs)
  then show ?case by (cases c) auto
qed simp

lemma busy_none: "tally holds xs = 0 \<Longrightarrow> tally busy_with xs = {#}"
proof (induction xs)
  case (Cons w xs)
  then show ?case by (cases w) auto
qed simp

lemma in_task_le: "tally in_task xs \<le> tally holds xs"
proof -
  have "in_task w \<le> holds w" for w :: "'a worker" by (cases w; simp)
  then show ?thesis by (induction xs) (auto intro: add_mono)
qed

lemmas pool_inv_defs = pool_inv_def workers_ok_def wg_ok_def running_ok_def running_count_def tasks_ok_def closed_ok_def

lemma start_shape:
  assumes "pool_start s"
  shows "\<exists>size n. shared s = \<lparr>queue = [], bufferSize = size, w_closed = False, chan_closed = False, wg = 0,
      running = 0, accepted = [], dropped = [], executed = [], crashed = False\<rparr>
    \<and> workers s = replicate n Idle \<and> 0 < n \<and> callers s = []"
proof -
  obtain m sizes where "pool_New m sizes = (Ok (shared s, workers s) :: (unit, 'a pool \<times> 'a worker list) gores)"
    "callers s = []"
    using assms by (auto simp: pool_start_def)
  then show ?thesis
    by (auto simp: pool_New_def Let_def eq_commute [of _ "shared s"] eq_commute [of _ "workers s"] split: if_splits)
qed

lemma tally_replicate: "f Idle = 0 \<Longrightarrow> tally f (replicate n Idle) = 0"
  by (induction n) auto

lemma start_pool_inv: "pool_start s \<Longrightarrow> pool_inv s"
  by (drule start_shape) (auto simp: pool_inv_defs tally_replicate)

lemma Do_inv:
  assumes "pool_inv s" "callers s = us @ c # vs" "Do_step c (shared s) = Some (c', p)"
  shows "pool_inv (s\<lparr>shared := p, callers := us @ c' # vs\<rparr>)"
proof -
  let ?s = "s\<lparr>shared := p, callers := us @ c' # vs\<rparr>"
  have "closed_ok s" using assms(1) by (simp add: pool_inv_def)
  then have nc: "\<forall>t. c = DoSend t \<longrightarrow> \<not> chan_closed (shared s)"
    using assms(2) by (auto simp: closed_ok_def)
  then have "\<not> crashed p"
    using assms by (cases c) (auto simp: pool_inv_def split: if_splits)
  note i = assms(1) [unfolded pool_inv_def] nc
  have "wg_ok ?s" using i assms(2,3) by (cases c) (auto simp: wg_ok_def split: if_splits)
  moreover have "running_ok ?s"
    using i assms(2,3) by (cases c) (auto simp: running_ok_def running_count_def split: if_splits)
  moreover have "tasks_ok ?s" using i assms(2,3) by (cases c) (auto simp: tasks_ok_def split: if_splits)
  moreover have "closed_ok ?s" using i assms(2,3) in_close_le [of us] in_close_le [of vs] by (cases c) (auto simp: closed_ok_def split: if_splits)
  moreover have "length (queue p) \<le> bufferSize p" using i assms(3) by (cases c) (auto split: if_splits)
  moreover have "workers_ok ?s" using i assms(2,3) by (cases c) (auto simp: workers_ok_def split: if_splits)
  ultimately show ?thesis using \<open>\<not> crashed p\<close> by (simp add: pool_inv_def)
qed

lemma Run_inv:
  assumes "pool_inv s" "callers s = us @ c # vs" "Run_step c (shared s) = Some (c', p)"
    and "\<not> w_closed (shared s) \<and> w_closed p \<longrightarrow> tally in_Do (callers s) = 0"
  shows "pool_inv (s\<lparr>shared := p, callers := us @ c' # vs\<rparr>)"
proof -
  let ?s = "s\<lparr>shared := p, callers := us @ c' # vs\<rparr>"
  note i = assms(1) [unfolded pool_inv_def]
  have "wg_ok ?s" using i assms(2,3) by (cases c) (auto simp: wg_ok_def split: if_splits)
  moreover have "running_ok ?s"
    using i assms(2,3) by (cases c) (auto simp: running_ok_def running_count_def split: if_splits)
  moreover have "tasks_ok ?s" using i assms(2,3) by (cases c) (auto simp: tasks_ok_def split: if_splits)
  moreover have "closed_ok ?s" using i assms(2-4)
    by (cases c) (auto simp: closed_ok_def split: if_splits)
  moreover have "\<not> crashed p" using i assms(2,3)
    by (cases c) (auto simp: closed_ok_def split: if_splits)
  moreover have "length (queue p) \<le> bufferSize p" using i assms(3) by (cases c) (auto split: if_splits)
  moreover have "workers_ok ?s" using i assms(2,3) by (cases c) (auto simp: workers_ok_def split: if_splits)
  ultimately show ?thesis by (simp add: pool_inv_def)
qed

lemma worker_inv:
  assumes "pool_inv s" "workers s = us @ w # vs" "worker_step w (shared s) = Some (w', p)"
  shows "pool_inv (s\<lparr>shared := p, workers := us @ w' # vs\<rparr>)"
proof -
  let ?s = "s\<lparr>shared := p, workers := us @ w' # vs\<rparr>"
  note i = assms(1) [unfolded pool_inv_def]
  have "wg_ok ?s" using i assms(2,3) by (cases w) (auto simp: wg_ok_def split: if_splits list.splits)
  moreover have "running_ok ?s"
    using i assms(2,3) by (cases w) (auto simp: running_ok_def running_count_def split: if_splits list.splits)
  moreover have "tasks_ok ?s" using i assms(2,3) by (cases w) (auto simp: tasks_ok_def split: if_splits list.splits)
  moreover have "closed_ok ?s"
    using i assms(2,3) by (cases w) (auto simp: closed_ok_def wg_ok_def split: if_splits list.splits)
  moreover have "\<not> crashed p" using i assms(2,3) by (cases w) (auto simp: wg_ok_def split: if_splits list.splits)
  moreover have "length (queue p) \<le> bufferSize p" using i assms(3) by (cases w) (auto split: if_splits list.splits)
  moreover have "workers_ok ?s" using i assms(2,3) by (cases w) (auto simp: workers_ok_def split: if_splits list.splits)
  ultimately show ?thesis by (simp add: pool_inv_def)
qed

lemma handoff_inv:
  assumes "pool_inv s" "callers s = us @ DoSend t # vs" "workers s = us' @ Idle # vs'" "queue (shared s) = []"
  shows "pool_inv (s\<lparr>callers := us @ Returned # vs, workers := us' @ Busy t # vs'\<rparr>)"
proof -
  let ?s = "s\<lparr>callers := us @ Returned # vs, workers := us' @ Busy t # vs'\<rparr>"
  note i = assms(1) [unfolded pool_inv_def]
  have "wg_ok ?s" using i assms(2-4) by (auto simp: wg_ok_def)
  moreover have "running_ok ?s" using i assms(2-4) by (auto simp: running_ok_def running_count_def)
  moreover have "tasks_ok ?s" using i assms(2-4) by (auto simp: tasks_ok_def)
  moreover have "closed_ok ?s" using i assms(2) by (auto simp: closed_ok_def split: if_splits)
  moreover have "workers_ok ?s" using i assms(3) by (auto simp: workers_ok_def)
  ultimately show ?thesis using i by (simp add: pool_inv_def)
qed

lemma call_inv:
  "pool_inv s \<Longrightarrow> c = DoCheck t \<or> c = RunCAS \<Longrightarrow> pool_inv (s\<lparr>callers := callers s @ [c]\<rparr>)"
  by (auto simp: pool_inv_defs)

lemma Do_keeps_closed: "Do_step c p = Some (c', p') \<Longrightarrow> w_closed p' = w_closed p"
  by (cases c) (auto split: if_splits)

lemma pstep_inv:
  assumes "pool_inv s" "pstep s s'"
  shows "pool_inv s'"
proof -
  have d: "disciplined s s'" using assms(2) by (simp add: pstep_def)
  have "wstep s s'" using assms(2) by (simp add: pstep_def)
  then show ?thesis
  proof cases
    case (call_Do t)
    then show ?thesis using call_inv [OF assms(1), of "DoCheck t" t] by simp
  next
    case call_Run
    then show ?thesis using call_inv [OF assms(1), of RunCAS] by simp
  next
    case (caller us c vs c' p)
    from caller(4) show ?thesis
    proof
      assume "Do_step c (shared s) = Some (c', p)"
      with Do_inv [OF assms(1) caller(3)] caller(1) show ?thesis by blast
    next
      assume "Run_step c (shared s) = Some (c', p)"
      moreover have "\<not> w_closed (shared s) \<and> w_closed p \<longrightarrow> tally in_Do (callers s) = 0"
        using d caller(1) by (simp add: disciplined_def)
      ultimately show ?thesis using Run_inv [OF assms(1) caller(3)] caller(1) by blast
    qed
  next
    case (worker us w vs w' p)
    with worker_inv [OF assms(1)] show ?thesis by blast
  next
    case (handoff us t vs us' vs')
    with handoff_inv [OF assms(1)] show ?thesis by blast
  qed
qed

interpretation pool: step_system pool_start pstep pool_inv
  by unfold_locales (rule start_pool_inv, assumption, rule pstep_inv)

text \<open>Reachable under the discipline.\<close>

definition pool_reach :: "'t system \<Rightarrow> bool" where
  "pool_reach s \<longleftrightarrow> (\<exists>s0. pool_start s0 \<and> pstep\<^sup>*\<^sup>* s0 s)"

lemma reach_pool_inv: "pool_reach s \<Longrightarrow> pool_inv s"
  by (auto simp: pool_reach_def intro: pool.reach_inv)

subsection \<open>Schedules\<close>

text \<open>The system run by a given schedule; every schedule that runs through is a disciplined run.\<close>

datatype 't action = CallDo 't | CallRun | Caller nat | Worker nat

definition step_caller :: "nat \<Rightarrow> 't caller \<times> 't pool \<Rightarrow> 't system \<Rightarrow> 't system option" where
  "step_caller g r s =
     (if \<not> w_closed (shared s) \<and> w_closed (snd r) \<and> tally in_Do (callers s) \<noteq> 0 then None
      else Some (s\<lparr>shared := snd r, callers := take g (callers s) @ fst r # drop (Suc g) (callers s)\<rparr>))"

fun act :: "'t action \<Rightarrow> 't system \<Rightarrow> 't system option" where
  "act (CallDo t) s = (if crashed (shared s) then None else Some (s\<lparr>callers := callers s @ [DoCheck t]\<rparr>))"
| "act CallRun s = (if crashed (shared s) then None else Some (s\<lparr>callers := callers s @ [RunCAS]\<rparr>))"
| "act (Caller g) s =
     (if crashed (shared s) \<or> length (callers s) \<le> g then None
      else
        (case Do_step (callers s ! g) (shared s) of
           Some r \<Rightarrow> step_caller g r s
         | None \<Rightarrow> (case Run_step (callers s ! g) (shared s) of None \<Rightarrow> None | Some r \<Rightarrow> step_caller g r s)))"
| "act (Worker h) s =
     (if crashed (shared s) \<or> length (workers s) \<le> h then None
      else
        (case worker_step (workers s ! h) (shared s) of
           None \<Rightarrow> None
         | Some r \<Rightarrow> Some (s\<lparr>shared := snd r, workers := take h (workers s) @ fst r # drop (Suc h) (workers s)\<rparr>)))"

fun schedule :: "'t action list \<Rightarrow> 't system \<Rightarrow> 't system option" where
  "schedule [] s = Some s"
| "schedule (a # as) s = (case act a s of None \<Rightarrow> None | Some s' \<Rightarrow> schedule as s')"

lemma worker_keeps_closed: "worker_step w p = Some (w', p') \<Longrightarrow> w_closed p' = w_closed p"
  by (cases w) (auto split: if_splits list.splits)

lemma step_caller_sound:
  assumes "step_caller g (c', p) s = Some s'" "\<not> crashed (shared s)" "g < length (callers s)"
    and "Do_step (callers s ! g) (shared s) = Some (c', p) \<or> Run_step (callers s ! g) (shared s) = Some (c', p)"
  shows "pstep s s'"
proof -
  have "callers s = take g (callers s) @ callers s ! g # drop (Suc g) (callers s)"
    using assms(3) by (rule id_take_nth_drop)
  from wstep.caller [OF assms(2) this assms(4)] assms(1) show ?thesis
    by (auto simp: step_caller_def pstep_def disciplined_def split: if_splits)
qed

lemma act_sound: "act a s = Some s' \<Longrightarrow> pstep s s'"
proof (cases a)
  case (CallDo t)
  moreover assume "act a s = Some s'"
  ultimately show ?thesis by (auto simp: pstep_def disciplined_def intro: wstep.call_Do split: if_splits)
next
  case CallRun
  moreover assume "act a s = Some s'"
  ultimately show ?thesis by (auto simp: pstep_def disciplined_def intro: wstep.call_Run split: if_splits)
next
  case (Caller g)
  moreover assume "act a s = Some s'"
  ultimately show ?thesis
    by (auto split: if_splits option.splits intro: step_caller_sound)
next
  case (Worker h)
  assume a: "act a s = Some s'"
  then obtain w' p where p: "worker_step (workers s ! h) (shared s) = Some (w', p)" "h < length (workers s)"
    "\<not> crashed (shared s)" "s' = s\<lparr>shared := p, workers := take h (workers s) @ w' # drop (Suc h) (workers s)\<rparr>"
    using Worker by (auto split: if_splits option.splits)
  from wstep.worker [OF p(3) id_take_nth_drop [OF p(2)] p(1)] worker_keeps_closed [OF p(1)] p(4)
  show ?thesis by (simp add: pstep_def disciplined_def)
qed

lemma schedule_sound: "schedule as s = Some s' \<Longrightarrow> pstep\<^sup>*\<^sup>* s s'"
  by (induction as arbitrary: s)
    (auto split: option.splits dest!: act_sound intro: converse_rtranclp_into_rtranclp)

subsection \<open>Draining\<close>

text \<open>Everything accepted can be run to the end: a weight that some step of the pool always lowers.\<close>

fun caller_weight :: "'t caller \<Rightarrow> nat" where
  "caller_weight (DoCount t) = 7" | "caller_weight (DoAdd t) = 6" | "caller_weight (DoSend t) = 5"
| "caller_weight _ = 0"

fun worker_weight :: "'t worker \<Rightarrow> nat" where
  "worker_weight (Busy t) = 3" | "worker_weight Finish = 2" | "worker_weight Release = 1" | "worker_weight _ = 0"

definition weight :: "'t system \<Rightarrow> nat" where
  "weight s = tally caller_weight (callers s) + 4 * length (queue (shared s)) + tally worker_weight (workers s)"

text \<open>What draining keeps: the calls of \<open>Run\<close> under way, what was accepted, and the closing.\<close>

definition same_calls :: "'t system \<Rightarrow> 't system \<Rightarrow> bool" where
  "same_calls s s' \<longleftrightarrow> accepted (shared s') = accepted (shared s) \<and> w_closed (shared s') = w_closed (shared s)
     \<and> chan_closed (shared s') = chan_closed (shared s) \<and> tally in_Run (callers s') = tally in_Run (callers s)"

lemma worker_moves:
  assumes "\<not> crashed (shared s)" "workers s = us @ w # vs" "worker_step w (shared s) = Some (w', p)" "\<not> crashed p"
    and "worker_weight w' + 4 * length (queue p) < worker_weight w + 4 * length (queue (shared s))"
    and "accepted p = accepted (shared s)" "chan_closed p = chan_closed (shared s)"
  shows "\<exists>s'. pstep s s' \<and> weight s' < weight s \<and> same_calls s s'"
  using assms wstep.worker [OF assms(1-3)] worker_keeps_closed [OF assms(3)]
  by (intro exI [of _ "s\<lparr>shared := p, workers := us @ w' # vs\<rparr>"])
    (simp add: pstep_def disciplined_def weight_def same_calls_def)

lemma caller_moves:
  assumes "\<not> crashed (shared s)" "callers s = us @ c # vs" "Do_step c (shared s) = Some (c', p)"
    and "caller_weight c' + 4 * length (queue p) < caller_weight c + 4 * length (queue (shared s))"
    and "accepted p = accepted (shared s)" "chan_closed p = chan_closed (shared s)" "in_Run c' = in_Run c"
  shows "\<exists>s'. pstep s s' \<and> weight s' < weight s \<and> same_calls s s'"
  using assms wstep.caller [OF assms(1,2) disjI1 [OF assms(3)]] Do_keeps_closed [OF assms(3)]
  by (intro exI [of _ "s\<lparr>shared := p, callers := us @ c' # vs\<rparr>"])
    (simp add: pstep_def disciplined_def weight_def same_calls_def)

lemma tally_pos: "0 < tally f xs \<Longrightarrow> \<exists>us x vs. xs = us @ x # vs \<and> 0 < (f x :: nat)"
proof (induction xs)
  case (Cons y ys)
  show ?case
  proof (cases "0 < f y")
    case True
    then show ?thesis by (intro exI [of _ "[]"] exI [of _ y] exI [of _ ys]) simp
  next
    case False
    then obtain us x vs where "ys = us @ x # vs" "0 < f x" using Cons by auto
    then show ?thesis by (intro exI [of _ "y # us"] exI [of _ x] exI [of _ vs]) simp
  qed
qed simp

lemma closed_empty:
  assumes "pool_inv s" "chan_closed (shared s)"
  shows "w_closed (shared s)" "tally in_Do (callers s) = 0" "queue (shared s) = []" "tally holds (workers s) = 0"
proof -
  show "w_closed (shared s)" "tally in_Do (callers s) = 0"
    using assms by (auto simp: pool_inv_def closed_ok_def)
  have "wg_ok s" "wg (shared s) = 0" using assms by (simp_all add: pool_inv_def closed_ok_def)
  then have "tally in_add (callers s) + length (queue (shared s)) + tally holds (workers s) = 0"
    by (simp add: wg_ok_def flip: of_nat_add)
  then show "queue (shared s) = []" "tally holds (workers s) = 0" by simp_all
qed

lemma weight_pos_open:
  assumes "pool_inv s" "0 < weight s"
  shows "\<not> chan_closed (shared s)"
proof
  assume c: "chan_closed (shared s)"
  note z = closed_empty [OF assms(1) c]
  have "tally in_Do cs = 0 \<Longrightarrow> tally caller_weight cs = 0" for cs :: "'a caller list"
  proof (induction cs)
    case (Cons c cs)
    then show ?case by (cases c) auto
  qed simp
  moreover have "tally holds ws = 0 \<Longrightarrow> tally worker_weight ws = 0" for ws :: "'a worker list"
  proof (induction ws)
    case (Cons w ws)
    then show ?case by (cases w) auto
  qed simp
  ultimately show False using z assms(2) by (simp add: weight_def)
qed

text \<open>A worker with a task goes on with it; with none, an idle one takes the next task or meets its sender.\<close>

lemma busy_moves:
  assumes "pool_inv s" "workers s = us @ w # vs" "0 < worker_weight w"
  shows "\<exists>s'. pstep s s' \<and> weight s' < weight s \<and> same_calls s s'"
proof -
  have c: "\<not> crashed (shared s)" and w: "0 < wg (shared s)"
    using assms by (cases w; auto simp: pool_inv_def wg_ok_def)+
  show ?thesis
    using assms(3) worker_moves [OF c assms(2)] c w by (cases w) auto
qed

lemma receive_moves:
  assumes "pool_inv s" "workers s = us @ Idle # vs" "queue (shared s) = t # q"
  shows "\<exists>s'. pstep s s' \<and> weight s' < weight s \<and> same_calls s s'"
  using worker_moves [OF _ assms(2)] assms by (auto simp: pool_inv_def)

lemma sender_moves:
  assumes "pool_inv s" "workers s = us' @ Idle # vs'" "queue (shared s) = []" "\<not> chan_closed (shared s)"
    and "callers s = us @ c # vs" "0 < caller_weight c"
  shows "\<exists>s'. pstep s s' \<and> weight s' < weight s \<and> same_calls s s'"
proof -
  have i: "\<not> crashed (shared s)" using assms(1) by (simp add: pool_inv_def)
  have "\<exists>s'. pstep s s' \<and> weight s' < weight s \<and> same_calls s s'" if "c = DoSend t" for t
    using wstep.handoff [OF i assms(5) [unfolded that] assms(2,3,4)] assms that
    by (intro exI [of _ "s\<lparr>callers := us @ Returned # vs, workers := us' @ Busy t # vs'\<rparr>"])
      (simp add: pstep_def disciplined_def weight_def same_calls_def)
  then show ?thesis
    using assms(6) caller_moves [OF i assms(5)] by (cases c) auto
qed

lemma drain_step:
  assumes "pool_inv s" "0 < weight s"
  shows "\<exists>s'. pstep s s' \<and> weight s' < weight s \<and> same_calls s s'"
proof (cases "0 < tally worker_weight (workers s)")
  case True
  then show ?thesis using tally_pos busy_moves [OF assms(1)] by blast
next
  case False
  have c: "\<not> chan_closed (shared s)" by (rule weight_pos_open [OF assms])
  obtain w ws where w: "workers s = w # ws" "w \<noteq> Exited"
    using assms(1) c by (cases "workers s") (auto simp: pool_inv_def workers_ok_def)
  with False have "w = Idle" by (cases w) auto
  with w have i: "workers s = [] @ Idle # ws" by simp
  show ?thesis
  proof (cases "queue (shared s)")
    case Nil
    then have "0 < tally caller_weight (callers s)" using False assms(2) by (simp add: weight_def)
    then show ?thesis using tally_pos sender_moves [OF assms(1) i Nil c] by blast
  next
    case (Cons t q)
    then show ?thesis by (rule receive_moves [OF assms(1) i])
  qed
qed

lemma drain:
  "pool_inv s \<Longrightarrow> \<exists>s'. pstep\<^sup>*\<^sup>* s s' \<and> weight s' = 0 \<and> same_calls s s'"
proof (induction "weight s" arbitrary: s rule: less_induct)
  case less
  show ?case
  proof (cases "weight s = 0")
    case True
    then show ?thesis by (intro exI [of _ s]) (simp add: same_calls_def)
  next
    case False
    then obtain s1 where s1: "pstep s s1" "weight s1 < weight s" "same_calls s s1"
      using drain_step [OF less.prems] by auto
    obtain s' where "pstep\<^sup>*\<^sup>* s1 s'" "weight s' = 0" "same_calls s1 s'"
      using less.hyps [OF s1(2) pstep_inv [OF less.prems s1(1)]] by blast
    then have "pstep\<^sup>*\<^sup>* s s' \<and> weight s' = 0 \<and> same_calls s s'"
      using s1 by (auto simp: same_calls_def intro: converse_rtranclp_into_rtranclp)
    then show ?thesis ..
  qed
qed

text \<open>With nothing left to do, everything accepted was executed and nothing is counted.\<close>

lemma weight_none:
  assumes "weight s = 0"
  shows "tally in_Do (callers s) = 0" "queue (shared s) = []" "tally holds (workers s) = 0"
proof -
  have "tally caller_weight cs = 0 \<Longrightarrow> tally in_Do cs = 0" for cs :: "'a caller list"
  proof (induction cs)
    case (Cons c cs)
    then show ?case by (cases c) auto
  qed simp
  moreover have "tally worker_weight ws = 0 \<Longrightarrow> tally holds ws = 0" for ws :: "'a worker list"
  proof (induction ws)
    case (Cons w ws)
    then show ?case by (cases w) auto
  qed simp
  ultimately show "tally in_Do (callers s) = 0" "queue (shared s) = []" "tally holds (workers s) = 0"
    using assms by (simp_all add: weight_def)
qed

definition all_done :: "'t system \<Rightarrow> bool" where
  "all_done s \<longleftrightarrow> mset (executed (shared s)) = mset (accepted (shared s)) \<and> queue (shared s) = []
     \<and> wg (shared s) = 0 \<and> running (shared s) = 0"

lemma nothing_left:
  assumes "pool_inv s" "tally in_Do (callers s) = 0" "queue (shared s) = []" "tally holds (workers s) = 0"
  shows "all_done s"
  using assms in_add_le [of "callers s"] in_count_le [of "callers s"] in_task_le [of "workers s"]
  by (auto simp: all_done_def pool_inv_def wg_ok_def running_ok_def running_count_def tasks_ok_def
      pending_none busy_none)

text \<open>The waiting call of \<open>Run\<close> then closes the pool and returns.\<close>

lemma run_ends:
  assumes "pool_inv s" "weight s = 0" "0 < tally in_Run (callers s)"
  shows "\<exists>s'. pstep\<^sup>*\<^sup>* s s' \<and> RunReturned \<in> set (callers s') \<and> accepted (shared s') = accepted (shared s)"
proof -
  have d: "all_done s" by (rule nothing_left [OF assms(1) weight_none [OF assms(2)]])
  obtain us c vs where c: "callers s = us @ c # vs" "0 < in_Run c" using tally_pos [OF assms(3)] by blast
  have k: "\<not> crashed (shared s)" "\<not> chan_closed (shared s)" "w_closed (shared s)"
    using assms(1,3) by (auto simp: pool_inv_def closed_ok_def split: if_splits)
  let ?p = "(shared s)\<lparr>chan_closed := True\<rparr>"
  have close: "pstep r (r\<lparr>shared := ?p, callers := us @ RunReturned # vs\<rparr>)"
    if "shared r = shared s" "callers r = us @ RunClose # vs" for r
    using wstep.caller [OF _ that(2), of RunReturned ?p] k that by (simp add: pstep_def disciplined_def)
  from c(2) have "c = RunWait \<or> c = RunClose" by (cases c) auto
  then show ?thesis
  proof
    assume "c = RunClose"
    then show ?thesis using close [of s] c by (intro exI conjI) (erule r_into_rtranclp | simp)+
  next
    assume w: "c = RunWait"
    let ?r = "s\<lparr>callers := us @ RunClose # vs\<rparr>"
    have "pstep s ?r"
      using wstep.caller [OF k(1) c(1), of RunClose "shared s"] w d k
      by (simp add: pstep_def disciplined_def all_done_def)
    with close [of ?r] have "pstep\<^sup>*\<^sup>* s (?r\<lparr>shared := ?p, callers := us @ RunReturned # vs\<rparr>)" by auto
    then show ?thesis by (intro exI conjI) (assumption | simp)+
  qed
qed

text \<open>Once the channel is closed, nothing is accepted or executed any more.\<close>

lemma closed_final:
  assumes "pool_inv s" "chan_closed (shared s)" "pstep s s'"
  shows "chan_closed (shared s') \<and> accepted (shared s') = accepted (shared s) \<and> executed (shared s') = executed (shared s)"
proof -
  note z = closed_empty [OF assms(1,2)]
  have "wstep s s'" using assms(3) by (simp add: pstep_def)
  then show ?thesis
  proof cases
    case (caller us c vs c' p)
    then show ?thesis using z(1,2) assms(2) by (cases c) (auto split: if_splits)
  next
    case (worker us w vs w' p)
    then show ?thesis using z(3,4) assms(2) by (cases w) (auto split: if_splits)
  qed (use assms(2) in auto)
qed

lemma closed_run_final:
  assumes "pool_inv s" "chan_closed (shared s)" "pstep\<^sup>*\<^sup>* s s'"
  shows "chan_closed (shared s') \<and> accepted (shared s') = accepted (shared s) \<and> executed (shared s') = executed (shared s)"
  using assms(3,1)
proof (rule pool.run_rel)
  fix a b :: "'a system"
  assume "pool_inv a" "chan_closed (shared a) \<and> accepted (shared a) = accepted (shared s) \<and> executed (shared a) = executed (shared s)"
    "pstep a b"
  then show "chan_closed (shared b) \<and> accepted (shared b) = accepted (shared s) \<and> executed (shared b) = executed (shared s)"
    using closed_final [of a b] by simp
qed (simp add: assms(2))

lemma returned_closed:
  assumes "pool_inv s" "RunReturned \<in> set (callers s)"
  shows "chan_closed (shared s)"
proof -
  obtain us vs where "callers s = us @ RunReturned # vs" using assms(2) by (meson split_list)
  then show ?thesis using assms(1) by (auto simp: pool_inv_def closed_ok_def split: if_splits)
qed

lemma IsRunning_count:
  assumes "running_ok s" "running_count s < 2 ^ 31"
  shows "IsRunning (shared s) \<longleftrightarrow> 0 < running_count s"
proof -
  have "sint (of_nat n :: 32 word) = signed_take_bit 31 (int n)" for n
    by transfer simp
  moreover have "signed_take_bit 31 (int (running_count s)) = int (running_count s)"
    using assms(2) by (intro signed_take_bit_int_eq_self) simp_all
  ultimately show ?thesis using assms(1) by (simp only: running_ok_def IsRunning_def of_nat_0_less_iff)
qed

definition one_worker :: "int system" where
  "one_worker = \<lparr>shared = \<lparr>queue = [], bufferSize = 1, w_closed = False, chan_closed = False, wg = 0, running = 0,
       accepted = [], dropped = [], executed = [], crashed = False\<rparr>, callers = [], workers = [Idle]\<rparr>"

definition one_task :: "int system" where
  "one_task = \<lparr>shared = \<lparr>queue = [], bufferSize = 1, w_closed = True, chan_closed = True, wg = 0, running = 0,
       accepted = [7], dropped = [8], executed = [7], crashed = False\<rparr>,
     callers = [Returned, RunReturned, Returned], workers = [Idle]\<rparr>"

lemma one_worker_start: "pool_start one_worker"
  unfolding pool_start_def one_worker_def by (intro exI [of _ 1] exI [of _ "[1]"]) (simp add: pool_New_def)

lemma one_task_run:
  "schedule [CallDo 7, Caller 0, Caller 0, Caller 0, Caller 0, CallRun, Caller 1,
     Worker 0, Worker 0, Worker 0, Worker 0, Caller 1, Caller 1, CallDo 8, Caller 2] one_worker = Some one_task"
  by (simp add: one_worker_def one_task_def step_caller_def)

lemma one_task_reach: "pool_reach one_task"
  unfolding pool_reach_def using one_worker_start schedule_sound [OF one_task_run] by blast

subsection \<open>What the pool promises\<close>

text \<open>
  C23: For users who keep the rule, the pool never panics (no negative wait group, no send on the closed
  channel, no second close), the queue keeps its bound, no task is executed more often than it was
  accepted, and while fewer than \<open>2 ^ 31\<close> tasks are under way \<open>IsRunning\<close> tells exactly whether one is
  queued or running.
\<close>

theorem pool_never_breaks:
  assumes "pool_reach s"
  shows "\<not> crashed (shared s) \<and> length (queue (shared s)) \<le> bufferSize (shared s)
    \<and> mset (executed (shared s)) \<subseteq># mset (accepted (shared s))
    \<and> (running_count s < 2 ^ 31 \<longrightarrow> (IsRunning (shared s) \<longleftrightarrow> 0 < running_count s))"
proof -
  have i: "pool_inv s" by (rule reach_pool_inv [OF assms])
  then have "mset (executed (shared s)) \<subseteq># mset (accepted (shared s))"
    by (simp add: pool_inv_def tasks_ok_def)
  then show ?thesis using i IsRunning_count [of s] by (simp add: pool_inv_def)
qed

lemma pool_never_breaks_witness:
  "\<not> crashed (shared one_task) \<and> IsRunning (shared one_task) = (0 < running_count one_task)
    \<and> running_count one_task = 0 \<and> executed (shared one_task) = [7]"
proof -
  have "running_count one_task = 0" unfolding one_task_def by code_simp
  then show ?thesis using pool_never_breaks [OF one_task_reach] by (simp add: one_task_def)
qed

text \<open>
  C4: When a call of \<open>Run\<close> that closed the pool has returned, every accepted task has been executed
  exactly once, nothing is queued or counted, and from then on nothing is accepted or executed, however
  the pool is used.
\<close>

theorem pool_run_waits:
  assumes "pool_reach s" "RunReturned \<in> set (callers s)"
  shows "all_done s \<and> \<not> IsRunning (shared s)
    \<and> (\<forall>s'. pstep\<^sup>*\<^sup>* s s' \<longrightarrow> accepted (shared s') = accepted (shared s) \<and> executed (shared s') = executed (shared s))"
proof -
  have i: "pool_inv s" by (rule reach_pool_inv [OF assms(1)])
  have c: "chan_closed (shared s)" by (rule returned_closed [OF i assms(2)])
  have d: "all_done s" by (rule nothing_left [OF i closed_empty(2-4) [OF i c]])
  then have "\<not> IsRunning (shared s)" by (simp add: all_done_def IsRunning_def)
  with d show ?thesis using closed_run_final [OF i c] by blast
qed

lemma pool_run_waits_witness:
  "all_done one_task \<and> \<not> IsRunning (shared one_task) \<and> executed (shared one_task) = [7]
    \<and> dropped (shared one_task) = [8]"
proof -
  have "RunReturned \<in> set (callers one_task)" by (simp add: one_task_def)
  from pool_run_waits [OF one_task_reach this] have "all_done one_task \<and> \<not> IsRunning (shared one_task)" by blast
  then show ?thesis by (simp add: one_task_def)
qed

text \<open>
  C5: The pool never gets stuck: from every reachable state the goroutines can go on, without any new
  call, until every accepted task has been executed, and if a call of \<open>Run\<close> waits then until it returns.
\<close>

theorem pool_drains:
  assumes "pool_reach s"
  shows "\<exists>s'. pstep\<^sup>*\<^sup>* s s' \<and> accepted (shared s') = accepted (shared s) \<and> all_done s'
    \<and> (w_closed (shared s) \<longrightarrow> RunReturned \<in> set (callers s'))"
proof -
  have i: "pool_inv s" by (rule reach_pool_inv [OF assms])
  obtain r where r: "pstep\<^sup>*\<^sup>* s r" "weight r = 0" "same_calls s r" using drain [OF i] by blast
  have ri: "pool_inv r" by (rule pool.run_inv [OF r(1) i])
  have d: "all_done r" by (rule nothing_left [OF ri weight_none [OF r(2)]])
  show ?thesis
  proof (cases "w_closed (shared s) \<and> RunReturned \<notin> set (callers r)")
    case False
    then show ?thesis using r d by (auto simp: same_calls_def)
  next
    case True
    then have "w_closed (shared r)" using r(3) by (simp add: same_calls_def)
    moreover have "\<not> chan_closed (shared r)"
    proof
      assume "chan_closed (shared r)"
      then have "0 < tally has_run (callers r)" using ri by (simp add: pool_inv_def closed_ok_def)
      then obtain us c vs where "callers r = us @ c # vs" "0 < has_run c" using tally_pos by blast
      with True show False by (cases c) auto
    qed
    ultimately have "0 < tally in_Run (callers r)" using ri by (simp add: pool_inv_def closed_ok_def)
    then obtain s' where s': "pstep\<^sup>*\<^sup>* r s'" "RunReturned \<in> set (callers s')" "accepted (shared s') = accepted (shared r)"
      using run_ends [OF ri r(2)] by blast
    have si: "pool_inv s'" by (rule pool.run_inv [OF s'(1) ri])
    have "all_done s'"
      by (rule nothing_left [OF si closed_empty(2-4) [OF si returned_closed [OF si s'(2)]]])
    moreover have "pstep\<^sup>*\<^sup>* s s'" using r(1) s'(1) by (rule rtranclp_trans)
    ultimately show ?thesis using r(3) s'(2,3) by (intro exI [of _ s']) (simp add: same_calls_def)
  qed
qed

lemma pool_drains_witness:
  "\<exists>s'. pstep\<^sup>*\<^sup>* one_task s' \<and> accepted (shared s') = [7] \<and> all_done s'"
proof -
  have "accepted (shared one_task) = [7]" by (simp add: one_task_def)
  with pool_drains [OF one_task_reach] show ?thesis by metis
qed

end
