(* ===== verification/Text_Render.thy ===== *)
theory Text_Render
  imports Go_Strings
begin

section \<open>Packages template and format\<close>

text \<open>
  Models \<open>template/template.go\<close> and \<open>format/markdown.go\<close>. Parsing and running a template, converting
  Markdown and walking its syntax tree are parameters.
\<close>

subsection \<open>template/template.go\<close>

text \<open>Running a template gives what was written and an error or none.\<close>

definition Execute ::
  "(string \<Rightarrow> 'e + 't) \<Rightarrow> ('t \<Rightarrow> 'v \<Rightarrow> string \<times> 'e option) \<Rightarrow> string \<Rightarrow> 'v \<Rightarrow> string \<times> 'e option" where
  "Execute Parse Run tplString vars =
     (case Parse tplString of
        Inl err \<Rightarrow> ([], Some err)
      | Inr tpl \<Rightarrow>
          (case Run tpl vars of
             (result, Some err) \<Rightarrow> ([], Some err)
           | (result, None) \<Rightarrow> (result, None)))"

definition May ::
  "(string \<Rightarrow> 'e + 't) \<Rightarrow> ('t \<Rightarrow> 'v \<Rightarrow> string \<times> 'e option) \<Rightarrow> string \<Rightarrow> 'v \<Rightarrow> string" where
  "May Parse Run tplString vars =
     (let result = fst (Execute Parse Run tplString vars) in if result = [] then tplString else result)"

definition Must ::
  "(string \<Rightarrow> 'e + 't) \<Rightarrow> ('t \<Rightarrow> 'v \<Rightarrow> string \<times> 'e option) \<Rightarrow> string \<Rightarrow> 'v \<Rightarrow> (unit, string) gores" where
  "Must Parse Run tplString vars =
     (case Execute Parse Run tplString vars of
        (result, Some err) \<Rightarrow> Panic
      | (result, None) \<Rightarrow> Ok result)"

text \<open>What was written before an error is never returned.\<close>

lemma Execute_error: "Execute Parse Run t v = (r, Some e) \<Longrightarrow> r = []"
  by (auto simp: Execute_def split: sum.splits prod.splits option.splits)

lemma May_cases:
  "May Parse Run t v = (case Must Parse Run t v of Ok r \<Rightarrow> if r = [] then t else r | _ \<Rightarrow> t)"
  by (auto simp: May_def Must_def Let_def split: prod.splits option.splits dest: Execute_error)

lemma May_nonempty: "t \<noteq> [] \<Longrightarrow> May Parse Run t v \<noteq> []"
  by (simp add: May_def Let_def)

subsection \<open>format/markdown.go\<close>

definition pStart :: string where
  "pStart = ''<p>''"

definition pEnd :: string where
  "pEnd = ''</p>''"

text \<open>\<open>strings.TrimRight\<close> with a cutset of ASCII bytes.\<close>

definition TrimRight :: "string \<Rightarrow> string \<Rightarrow> string" where
  "TrimRight s cutset = rev (dropWhile (\<lambda>c. c \<in> set cutset) (rev s))"

text \<open>\<open>s[i:j]\<close> panics unless \<open>0 <= i <= j <= len(s)\<close>.\<close>

definition slice_string :: "string \<Rightarrow> int \<Rightarrow> int \<Rightarrow> (unit, string) gores" where
  "slice_string s i j =
     (if 0 \<le> i \<and> i \<le> j \<and> j \<le> int (length s) then Ok (take (nat (j - i)) (drop (nat i) s)) else Panic)"

definition Render :: "(string \<Rightarrow> 'e + string) \<Rightarrow> ('e \<Rightarrow> string) \<Rightarrow> string \<Rightarrow> (unit, string) gores" where
  "Render Convert Error markdown =
     (case Convert markdown of
        Inl err \<Rightarrow> Ok (''<p>Error rendering markdown: '' @ Error err @ ''</p>'')
      | Inr buf \<Rightarrow>
          (let htmlString = TrimRight buf [CHR 0x0A]
           in if HasPrefix htmlString pStart \<and> HasSuffix htmlString pEnd
              then gobind (slice_string htmlString (int (length pStart)) (int (length htmlString) - int (length pEnd)))
                (\<lambda>htmlNoP. if \<not> Contains htmlNoP pStart then Ok htmlNoP else Ok htmlString)
              else Ok htmlString))"

text \<open>A string with both tags has room for both, so the slice is in bounds and is what is between them.\<close>

lemma between_tags:
  assumes "HasPrefix s pStart" "HasSuffix s pEnd"
  shows "\<exists>m. s = pStart @ m @ pEnd"
proof -
  obtain u where u: "s = pStart @ u" using assms(1) by (auto simp: HasPrefix_iff)
  obtain v where v: "s = v @ pEnd" using assms(2) by (auto simp: HasSuffix_iff)
  have eq: "v @ pEnd = pStart @ u" using u v by simp
  have "length pStart \<le> length v"
  proof (rule ccontr)
    assume "\<not> length pStart \<le> length v"
    then consider "v = []" | a where "v = [a]" | a b where "v = [a, b]"
      by (cases v; cases "tl v"; cases "tl (tl v)") (auto simp: pStart_def)
    then show False using eq by cases (auto simp: pStart_def pEnd_def)
  qed
  then obtain m where "v = pStart @ m" using eq by (metis append_eq_append_conv_if append_take_drop_id)
  then show ?thesis using v by auto
qed

lemma Render_tags:
  assumes "Convert markdown = Inr buf" "TrimRight buf [CHR 0x0A] = pStart @ m @ pEnd"
  shows "Render Convert Error markdown = Ok (if Contains m pStart then pStart @ m @ pEnd else m)"
proof -
  have "slice_string (pStart @ m @ pEnd) (int (length pStart)) (int (length (pStart @ m @ pEnd)) - int (length pEnd)) = Ok m"
    by (simp add: slice_string_def)
  moreover have "HasSuffix (pStart @ m @ pEnd) pEnd" by (metis HasSuffix_append append_assoc)
  ultimately show ?thesis by (simp only: Render_def assms sum.case Let_def HasPrefix_append simp_thms if_True gobind.simps) simp
qed

lemma Render_plain:
  assumes "Convert markdown = Inr buf" "\<nexists>m. TrimRight buf [CHR 0x0A] = pStart @ m @ pEnd"
  shows "Render Convert Error markdown = Ok (TrimRight buf [CHR 0x0A])"
proof -
  have "\<not> (HasPrefix (TrimRight buf [CHR 0x0A]) pStart \<and> HasSuffix (TrimRight buf [CHR 0x0A]) pEnd)"
    using between_tags assms(2) by blast
  then show ?thesis by (simp only: Render_def assms(1) sum.case Let_def if_False)
qed

lemma Render_error: "Convert markdown = Inl e \<Longrightarrow>
    Render Convert Error markdown = Ok (''<p>Error rendering markdown: '' @ Error e @ ''</p>'')"
  by (simp add: Render_def)

subsection \<open>LinksTransformer\<close>

text \<open>
  The syntax tree belongs to the Markdown library: its walk, what a link is and how an attribute is set
  are parameters, and the memory of the nodes a world of its own. A visitor answers how to go on, or
  an error.
\<close>

datatype walk_status = WalkContinue | WalkSkipChildren | WalkStop

type_synonym ('n, 'h, 'e) visitor = "'n \<Rightarrow> bool \<Rightarrow> 'h \<Rightarrow> (walk_status \<times> 'e option) \<times> 'h"

definition visit_link ::
  "('n \<Rightarrow> bool) \<Rightarrow> ('n \<Rightarrow> string \<Rightarrow> string \<Rightarrow> 'h \<Rightarrow> 'h) \<Rightarrow> ('n, 'h, 'e) visitor" where
  "visit_link is_Link SetAttributeString n entering h =
     (if \<not> entering then ((WalkContinue, None), h)
      else ((WalkContinue, None), if is_Link n then SetAttributeString n ''target'' ''_blank'' h else h))"

definition Transform ::
  "('n \<Rightarrow> ('n, 'h, 'e) visitor \<Rightarrow> 'h \<Rightarrow> 'e option \<times> 'h) \<Rightarrow> ('n \<Rightarrow> bool) \<Rightarrow> ('n \<Rightarrow> string \<Rightarrow> string \<Rightarrow> 'h \<Rightarrow> 'h)
     \<Rightarrow> 'n \<Rightarrow> 'h \<Rightarrow> 'h" where
  "Transform Walk is_Link SetAttributeString node h = snd (Walk node (visit_link is_Link SetAttributeString) h)"

text \<open>
  What the walk is documented to do: a visitor that always says to continue is called on entering and on
  leaving nodes, in some order, and the nodes of the document are the ones entered.
\<close>

definition walk_ok :: "('n \<Rightarrow> ('n, 'h, 'e) visitor \<Rightarrow> 'h \<Rightarrow> 'e option \<times> 'h) \<Rightarrow> ('n \<Rightarrow> ('n \<times> bool) list) \<Rightarrow> bool" where
  "walk_ok Walk visits \<longleftrightarrow> (\<forall>doc v h. (\<forall>n b h. fst (v n b h) = (WalkContinue, None)) \<longrightarrow>
     snd (Walk doc v h) = fold (\<lambda>(n, b) h. snd (v n b h)) (visits doc) h)"

text \<open>
  Every link of the document gets the attribute, in addition to those it has, and nothing else changes,
  however often a node is visited.
\<close>

lemma Transform_links:
  fixes Walk :: "'n \<Rightarrow> ('n, 'n \<Rightarrow> string \<Rightarrow> string option, 'e) visitor \<Rightarrow> ('n \<Rightarrow> string \<Rightarrow> string option)
    \<Rightarrow> 'e option \<times> ('n \<Rightarrow> string \<Rightarrow> string option)"
  assumes "walk_ok Walk visits"
  shows "Transform Walk is_Link (\<lambda>n k v h. h(n := (h n)(k \<mapsto> v))) doc h =
    (\<lambda>n. if is_Link n \<and> (n, True) \<in> set (visits doc) then (h n)(''target'' \<mapsto> ''_blank'') else h n)"
proof -
  let ?v = "visit_link is_Link (\<lambda>n k v h. h(n := (h n)(k \<mapsto> v)))
    :: ('n, 'n \<Rightarrow> string \<Rightarrow> string option, 'e) visitor"
  have "fst (?v n b h) = (WalkContinue, None)" for n b h by (simp add: visit_link_def)
  then have "snd (Walk doc ?v h) = fold (\<lambda>(n, b) h. snd (?v n b h)) (visits doc) h"
    using assms unfolding walk_ok_def by blast
  moreover have v: "snd (?v n b h) = (if b \<and> is_Link n then h(n := (h n)(''target'' \<mapsto> ''_blank'')) else h)" for n b h
    by (simp add: visit_link_def)
  have "fold (\<lambda>(n, b) h. snd (?v n b h)) es g =
      (\<lambda>n. if is_Link n \<and> (n, True) \<in> set es then (g n)(''target'' \<mapsto> ''_blank'') else g n)" for es g
    unfolding v
  proof (induction es arbitrary: g)
    case (Cons e es)
    obtain n b where e: "e = (n, b)" by force
    show ?case by (intro ext) (auto simp: Cons.IH e fun_upd_def)
  qed simp
  ultimately show ?thesis by (simp add: Transform_def)
qed

end
