(* ===== verification/Spec2Isabelle.thy ===== *)
theory Spec2Isabelle
  imports Kit_Collections Kit_Mutex Kit_Errors Kit_Text Kit_Version Kit_WaitGroup Crontab Http_Options Crypter_Yaml
    Crontab_Shutdown Kit_Slices Kit_List_Concurrent Http_Pacing Crypter_Pool Migrater Workpool Text_Render
begin

text \<open>
  A verification of etkecc/go-kit, a Go library of helpers and small services: keyed mutexes, errors,
  collections and strings in the root package; a cron scheduler; an HTTP client that retries and guards its
  dialer; retrying of functions; encryption of strings and of the secrets of YAML files; SQL migrations; a pool of
  workers; templates and Markdown.

  \<^bold>\<open>How Go is modelled.\<close> \<open>Go_Prelude\<close> has the conventions. A call ends in \<open>Ok\<close>, \<open>Err\<close> or \<open>Panic\<close>
  (\<open>gores\<close>), with \<open>gobind\<close> and \<open>go_bind\<close> for early returns; \<open>int\<close>, \<open>int64\<close> and durations are integers that
  \<open>wrap64\<close> cuts to 64 bits wherever the code adds or multiplies them; a Go string or byte slice is an Isabelle
  string of bytes; a Go map is an association list in an arbitrary order of iteration, used through the locale
  \<open>go_map_contract\<close>. Loops are recursions over the slice, or over the rest of the string. A loop that may
  not end is a \<open>partial_function\<close> into \<open>option\<close>, so that it returns is proved (the counting loop of the schedule
  parser) or refuted (\<open>IsNil\<close> of a cyclic pointer); no definition has a bound of steps of its own. Code with several
  goroutines is a step relation: one step per atomic operation or critical section, any number of goroutines,
  every interleaving; the locale \<open>step_system\<close> gives reachability and invariants once for all of them
  (the keyed mutex, the list, the wait group, the scheduler, the pool of workers, concurrent encryption), and its
  extension \<open>simulation\<close> carries the runs of a detailed relation over to an abstract one. Slices that share their
  backing array are headers over a memory of arrays (\<open>Go_Slice\<close>) where sharing matters.

  \<^bold>\<open>The standard library\<close> is modelled where the code uses it: \<open>Go_Strings\<close> (searching, splitting, trimming,
  decimal numbers), \<open>Go_Utf8\<close>, \<open>Go_Quote\<close> (\<open>strconv.Unquote\<close>), \<open>Go_Json\<close> (decoding into a struct of strings:
  tokens, the grammar with its limit of nesting, escapes and surrogates), \<open>Go_Base64\<close>, \<open>Go_Sha256\<close>,
  \<open>Go_Time\<close> (instants, the civil calendar, truncation), \<open>Go_Net\<close> (addresses, prefixes, host and port) and
  \<open>Go_Errors\<close> (error values as trees, \<open>errors.Is\<close> and \<open>errors.As\<close> over their chain).

  \<^bold>\<open>The components\<close>, each theory with the files it models, its state and its operations, and what is shown.

  \<^item> \<open>Kit_Mutex\<close> (\<open>mutex.go\<close>): the map of reference-counted mutexes, \<open>Lock\<close> and \<open>Unlock\<close> in two halves around the
    global lock. At most one goroutine is in the critical section of a key; the map has an entry exactly for the
    keys in use, with the exact count; no holder's \<open>Unlock\<close> can panic. Goroutines may hold several keys: when
    nobody inside can go on they wait for each other in a circle, which taking the keys in an order rules out.

  \<^item> \<open>Kit_Errors\<close> (\<open>errors.go\<close>): \<open>AggregateError\<close>, \<open>ErrorResponse\<close>, \<open>MatrixError\<close>. An aggregate holds exactly
    what it was given and answers for it; a Matrix error written as JSON is decoded to itself.

  \<^item> \<open>Kit_Collections\<close> (\<open>slices.go\<close>, \<open>maps.go\<close>, \<open>list.go\<close>): every function; the list refines a finite set,
    through the locale \<open>sorted_set_contract\<close>. \<open>Kit_Slices\<close> has \<open>Chunk\<close> and \<open>Reverse\<close> on shared arrays: chunks are
    views that do not overlap, and an \<open>append\<close> to one stays out of the next. \<open>Kit_List_Concurrent\<close> has the list under
    concurrent calls, linearizable with its reads, of which only \<open>Slice\<close> and \<open>Len\<close>, which take no mutex, can
    overlap a write.

  \<^item> \<open>Kit_Text\<close> (\<open>strings.go\<close>, \<open>stringsbuilder.go\<close>), \<open>Kit_Version\<close> (\<open>version.go\<close>, \<open>utils.go\<close>), \<open>Kit_IP\<close>
    (\<open>ip.go\<close>), \<open>Kit_WaitGroup\<close> (\<open>waitgroup.go\<close>): truncation by runes, also of invalid UTF-8; literals and lists
    that are read back; the builder with its capacity and its panics on copies; anonymised addresses; \<open>Wait\<close> waits.

  \<^item> \<open>Cron_Schedule\<close>, \<open>Crontab\<close>, \<open>Crontab_Shutdown\<close> (\<open>crontab/\<close>): the parser of schedules with its lookup tables, against an abstract
    syntax with its own meaning; the runner with its jobs, \<open>AddJob\<close>, the ticks and \<open>Shutdown\<close>, and the wait group with its panics on misuse. The runner uses the
    schedules through the locale \<open>schedule_contract\<close>. No job fires twice for a minute, or outside its
    schedule, or, unless allowed, while it runs; no goroutine of the scheduler panics; after a shutdown nothing starts, and a
    shutdown can always complete. Every call of \<open>Shutdown\<close>, with its goroutine that waits and its timeout, refines the
    shutdown of the runner: it is done once, whoever asks, and each call can return.

  \<^item> \<open>Retry\<close> (\<open>retry/\<close>), \<open>Http_Retry\<close> (\<open>httpclient/retry_transport.go\<close>, \<open>classify.go\<close>), \<open>Dial_Guard\<close>
    (\<open>httpclient/dialguard.go\<close>), \<open>Http_Options\<close> (the rest of \<open>httpclient/\<close>): the loop of attempts with its
    delays, hints and contexts; the transport as a client of it, through the locales \<open>retry_client\<close> and
    \<open>retry_counter\<close>, with the life of every body and context as a trace; the guard as a table of ranges; the options
    and constructors. Attempts are bounded and every body but the one returned is drained and closed; a
    client built with the guard connects to no refused address. \<open>Http_Pacing\<close> composes configuration, transport
    and retrier: in a recorded run, which the locale \<open>retry_view\<close> shows to be the run itself, the locale
    \<open>retry_pacer\<close> shows what stands between two requests, with the caps on \<open>Retry-After\<close> for which the header is kept.

  \<^item> \<open>Crypter\<close>, \<open>Crypter_Pool\<close>, \<open>Crypter_Yaml\<close> (\<open>crypter/\<close>): sealing of strings, sequentially and by concurrent
    calls over the pool of nonce buffers, whose invariant is the ownership of buffers; the walks over YAML
    trees, which use any crypter with the laws of the locale \<open>yaml_crypter\<close>. Round trips, exactly which scalars
    change, one nonce for one call.

  \<^item> \<open>Migrater\<close> (\<open>migrater/\<close>): collecting and ordering the files, the history table, the transactions. A run
    applies a prefix of what is pending, each migration with its record or not at all.

  \<^item> \<open>Workpool\<close> (\<open>workpool/\<close>): \<open>Do\<close>, \<open>Run\<close> and the workers over the channel, under the rule the package gives that
    no \<open>Do\<close> races \<open>Run\<close>. \<open>Run\<close> returns only after everything accepted was executed, exactly once, and always can.

  \<^item> \<open>Text_Render\<close> (\<open>template/\<close>, \<open>format/\<close>): which text comes back, and that slicing off the tags is in bounds.

  \<^bold>\<open>Parameters.\<close> Code outside the repository is an argument of the definitions, with its documented laws
  as named hypotheses (\<open>aead_ok\<close>, \<open>reader_ok\<close>, \<open>driver_ok\<close>, \<open>rand_ok\<close>, \<open>walk_ok\<close>, \<open>allocator_ok\<close>), and the witness
  of a property meets them with a concrete instance: AES-GCM and the random source, the SQL driver and the file system, the
  resolver and the sockets, the base transport, clocks, contexts and jobs, the YAML and Markdown libraries,
  \<open>html/template\<close>, the memory allocator. The digest function of the migrations is also an argument, since nothing depends
  on which it is.

  \<^bold>\<open>Not modelled.\<close> Texts that only people read (log lines, the messages of most errors, the default panic
  handler and log functions, which print); the sharing of backing arrays
  in functions that return fresh slices; \<open>WaitGroup.Get\<close>, which hands out a value of the standard library; data races the
  code excludes by its own rules (\<open>Do\<close> against \<open>Run\<close>) and what follows one (\<open>Slice\<close> or \<open>Len\<close> of a list during an \<open>Add\<close>); aggregates that contain
  themselves; allocations larger than the memory.
\<close>

end
